(* ===== verification/Fw_Prelude.thy ===== *)
theory Fw_Prelude
  imports Main "HOL-Library.Word" "HOL-Library.Monad_Syntax"
begin

text \<open>
  Shared vocabulary of the development: machine integers at their width, byte buffers whose
  every access is checked, the two halves of a big-endian 16-bit value, and the fact
  collections that the component theories add to.

  Conventions used by every theory:
  \<^item> \<^verbatim>\<open>uint8_t\<close>, \<^verbatim>\<open>uint16_t\<close>, \<^verbatim>\<open>uint32_t\<close> are \<open>8 word\<close>, \<open>16 word\<close>, \<open>32 word\<close>;
    \<^verbatim>\<open>std::size_t\<close> indices and lengths are \<open>nat\<close> (every one is bounded by a buffer size);
  \<^item> a C array is a list; reading or writing it outside its bounds is \<open>None\<close>, so a theorem
    that a routine returns \<open>Some\<close> is at the same time its memory-safety theorem;
  \<^item> a pointer that the code compares with \<^verbatim>\<open>nullptr\<close> is an \<open>option\<close>;
  \<^item> an array that the code does not initialise holds \<open>uninit junk n\<close> for an arbitrary
    \<open>junk\<close>, a parameter of the routine.
\<close>

unbundle bit_operations_syntax

type_synonym u8 = "8 word"
type_synonym u16 = "16 word"
type_synonym u32 = "32 word"
type_synonym u64 = "64 word"
type_synonym buf = "u8 list"

named_theorems buf_simps "evaluation of checked buffer accesses"

lemma ex_false_flag [simp]: "\<exists>b. \<not> b"
  by blast

lemma ex_true_flag [simp]: "\<exists>b. b"
  by blast

lemma list_ex_upt_Suc: "list_ex P [0..<Suc n] \<longleftrightarrow> P 0 \<or> list_ex (\<lambda>i. P (Suc i)) [0..<n]"
  by (auto simp: list_ex_iff Bex_def less_Suc_eq_0_disj simp del: upt_Suc)

lemma ucast_u8_u32 [simp]: "ucast (ucast (b :: u8) :: u32) = b"
  by (rule bit_word_eqI) (simp add: bit_simps)

lemma ucast_u8_mask: "(ucast (v AND 0xFF :: u32) :: u8) = ucast v"
proof -
  have m: "(0xFF :: u32) = mask 8" by (simp add: mask_eq_exp_minus_1)
  show ?thesis by (rule bit_word_eqI) (simp only: m, simp add: bit_simps)
qed

subsection \<open>Checked byte buffers\<close>

definition rd8 :: "buf \<Rightarrow> nat \<Rightarrow> u8 option" where
  "rd8 b i = (if i < length b then Some (b ! i) else None)"

definition wr8 :: "buf \<Rightarrow> nat \<Rightarrow> u8 \<Rightarrow> buf option" where
  "wr8 b i v = (if i < length b then Some (b[i := v]) else None)"

text \<open>\<^verbatim>\<open>memcpy(dst + d, src + s, n)\<close> on two distinct arrays.\<close>

definition memcpy8 :: "buf \<Rightarrow> nat \<Rightarrow> buf \<Rightarrow> nat \<Rightarrow> nat \<Rightarrow> buf option" where
  "memcpy8 dst d src s n =
     (if d + n \<le> length dst \<and> s + n \<le> length src
      then Some (take d dst @ take n (drop s src) @ drop (d + n) dst) else None)"

definition uninit :: "(nat \<Rightarrow> u8) \<Rightarrow> nat \<Rightarrow> buf" where
  "uninit junk n = map junk [0..<n]"

lemma length_uninit [simp]: "length (uninit junk n) = n"
  by (simp add: uninit_def)

lemma rd8_Some [simp, buf_simps]: "i < length b \<Longrightarrow> rd8 b i = Some (b ! i)"
  by (simp add: rd8_def)

lemma rd8_None [simp, buf_simps]: "length b \<le> i \<Longrightarrow> rd8 b i = None"
  by (simp add: rd8_def)

lemma wr8_Some [simp, buf_simps]: "i < length b \<Longrightarrow> wr8 b i v = Some (b[i := v])"
  by (simp add: wr8_def)

lemma wr8_None [simp, buf_simps]: "length b \<le> i \<Longrightarrow> wr8 b i v = None"
  by (simp add: wr8_def)

lemma rd8_eq_SomeD: "rd8 b i = Some v \<Longrightarrow> i < length b \<and> v = b ! i"
  by (auto simp: rd8_def split: if_splits)

lemma wr8_eq_SomeD: "wr8 b i v = Some b' \<Longrightarrow> i < length b \<and> b' = b[i := v]"
  by (auto simp: wr8_def split: if_splits)

lemma memcpy8_Some [simp, buf_simps]:
  "d + n \<le> length dst \<Longrightarrow> s + n \<le> length src \<Longrightarrow>
   memcpy8 dst d src s n = Some (take d dst @ take n (drop s src) @ drop (d + n) dst)"
  by (simp add: memcpy8_def)

lemma memcpy8_None [buf_simps]:
  "length dst < d + n \<or> length src < s + n \<Longrightarrow> memcpy8 dst d src s n = None"
  by (auto simp: memcpy8_def)

text \<open>
  A routine that fills a buffer from the left is described by the part it has written: the
  written prefix, then the untouched rest.
\<close>

lemma wr_next:
  assumes "k = length done" and "k < length b"
  shows "(done @ drop k b)[k := v] = (done @ [v]) @ drop (Suc k) b"
  using assms by (simp add: list_update_append Cons_nth_drop_Suc [symmetric])

lemma take_update_last:
  "i < length xs \<Longrightarrow> take (Suc i) (xs[i := v]) = take i xs @ [v]"
  by (simp add: take_Suc_conv_app_nth)

lemma take_Suc_drop:
  "r < length xs \<Longrightarrow> take (Suc k) (drop r xs) = xs ! r # take k (drop (Suc r) xs)"
  by (simp add: Cons_nth_drop_Suc [symmetric])

lemma take_diff_drop:
  "i < n \<Longrightarrow> n \<le> length xs \<Longrightarrow>
   take (n - i) (drop i xs) = xs ! i # take (n - Suc i) (drop (Suc i) xs)"
  using take_Suc_drop [of i xs "n - Suc i"] by (simp add: Suc_diff_Suc)

subsection \<open>Big-endian halves of a 16-bit value\<close>

definition hi8 :: "u16 \<Rightarrow> u8" where
  "hi8 w = ucast (drop_bit 8 w)"

definition lo8 :: "u16 \<Rightarrow> u8" where
  "lo8 w = ucast (w AND 0xFF)"

definition be16 :: "u8 \<Rightarrow> u8 \<Rightarrow> u16" where
  "be16 h l = push_bit 8 (ucast h) OR ucast l"

lemma xor_eq_zero_iff [simp]: "x XOR y = 0 \<longleftrightarrow> x = (y :: 'a::len word)"
proof
  assume z: "x XOR y = 0"
  show "x = y"
  proof (rule bit_word_eqI)
    fix n
    have "bit (x XOR y) n = False" by (simp add: z)
    then show "bit x n = bit y n" by (auto simp: bit_xor_iff)
  qed
qed simp

lemma xor_right_cancel [simp]: "x XOR z = y XOR z \<longleftrightarrow> x = (y :: 'a::len word)"
  by (metis xor.assoc xor_self_eq xor.right_neutral)

lemma xor_left_cancel [simp]: "z XOR x = z XOR y \<longleftrightarrow> x = (y :: 'a::len word)"
  by (metis xor.commute xor_right_cancel)

lemma bit_hi8: "bit (hi8 w) n \<longleftrightarrow> n < 8 \<and> bit w (8 + n)"
  by (auto simp: hi8_def bit_simps dest: bit_imp_le_length)

lemma bit_mask8: "bit (255 :: 'a::len word) n \<longleftrightarrow> n < 8 \<and> n < LENGTH('a)"
proof -
  have m: "(255 :: 'a word) = mask 8"
    by (simp add: mask_eq_exp_minus_1)
  show ?thesis
    by (simp only: m bit_mask_iff) auto
qed

lemma bit_lo8: "bit (lo8 w) n \<longleftrightarrow> n < 8 \<and> bit w n"
  unfolding lo8_def by (simp only: bit_unsigned_iff bit_and_iff bit_mask8) auto

lemma bit_be16: "bit (be16 h l) n \<longleftrightarrow> (if n < 8 then bit l n else n < 16 \<and> bit h (n - 8))"
  by (auto simp: be16_def bit_simps dest: bit_imp_le_length)

lemma be16_hi8_lo8 [simp]: "be16 (hi8 w) (lo8 w) = w"
  by (rule bit_word_eqI) (auto simp: bit_be16 bit_hi8 bit_lo8)

lemma hi8_be16 [simp]: "hi8 (be16 h l) = h"
  by (rule bit_word_eqI) (auto simp: bit_be16 bit_hi8)

lemma lo8_be16 [simp]: "lo8 (be16 h l) = l"
  by (rule bit_word_eqI) (auto simp: bit_be16 bit_lo8)

lemma be16_eq_iff [simp]: "be16 h l = be16 h' l' \<longleftrightarrow> h = h' \<and> l = l'"
  by (metis hi8_be16 lo8_be16)

lemma be16_eq_split: "be16 h l = w \<longleftrightarrow> h = hi8 w \<and> l = lo8 w"
  by auto

end
