(* ===== verification/Crc16.thy ===== *)
theory Crc16
  imports Fw_Prelude
begin

text \<open>
  \<^verbatim>\<open>include/util/crc16.hpp\<close>: CRC-16 CCITT (polynomial 0x1021, initial value 0xFFFF, no
  reflection), computed bit by bit. The model keeps the two nested loops, the index into the
  data and the null check; an access past the buffer is \<open>None\<close>. The lemmas relate the loops
  to a fold over the bytes and to the bit-serial shift register, and show what the checksum
  promises to the two protocols that use it: the residue is zero, and every error burst of at
  most sixteen bits changes the checksum.
\<close>

subsection \<open>The code\<close>

text \<open>One turn of the inner loop.\<close>

definition crc_bit :: "u16 \<Rightarrow> u16" where
  "crc_bit crc = (if crc AND 0x8000 \<noteq> 0 then push_bit 1 crc XOR 0x1021 else push_bit 1 crc)"

text \<open>The inner loop \<^verbatim>\<open>for (bit = 0; bit < 8; bit++)\<close>: \<open>n\<close> turns are left.\<close>

fun crc_bits :: "nat \<Rightarrow> u16 \<Rightarrow> u16" where
  "crc_bits 0 crc = crc"
| "crc_bits (Suc n) crc = crc_bits n (crc_bit crc)"

text \<open>The body of the outer loop.\<close>

definition crc_byte :: "u16 \<Rightarrow> u8 \<Rightarrow> u16" where
  "crc_byte crc b = crc_bits 8 (crc XOR push_bit 8 (ucast b))"

text \<open>The outer loop \<^verbatim>\<open>for (i = 0; i < len; i++)\<close>.\<close>

function crc_loop :: "buf \<Rightarrow> nat \<Rightarrow> nat \<Rightarrow> u16 \<Rightarrow> u16 option" where
  "crc_loop data len i crc =
     (if i < len
      then do { b \<leftarrow> rd8 data i; crc_loop data len (Suc i) (crc_byte crc b) }
      else Some crc)"
  by pat_completeness auto
termination
  by (relation "measure (\<lambda>(data, len, i, crc). len - i)") auto

declare crc_loop.simps [simp del]

definition crc16_ccitt :: "buf option \<Rightarrow> nat \<Rightarrow> u16 option" where
  "crc16_ccitt data len =
     (case data of None \<Rightarrow> Some 0xFFFF | Some d \<Rightarrow> crc_loop d len 0 0xFFFF)"

subsection \<open>The loop as a fold over the bytes\<close>

definition crc_list :: "u16 \<Rightarrow> buf \<Rightarrow> u16" where
  "crc_list = foldl crc_byte"

lemma crc_list_simps [simp]:
  "crc_list c [] = c"
  "crc_list c (x # xs) = crc_list (crc_byte c x) xs"
  "crc_list c (xs @ ys) = crc_list (crc_list c xs) ys"
  by (simp_all add: crc_list_def)

lemma crc_loop_list:
  "len \<le> length data \<Longrightarrow> i \<le> len \<Longrightarrow>
   crc_loop data len i crc = Some (crc_list crc (take (len - i) (drop i data)))"
proof (induction data len i crc rule: crc_loop.induct)
  case (1 data len i crc)
  show ?case
  proof (cases "i < len")
    case True
    then have "take (len - i) (drop i data) = data ! i # take (len - Suc i) (drop (Suc i) data)"
      using "1.prems" by (simp add: Cons_nth_drop_Suc [symmetric] take_Cons' Suc_diff_Suc)
    with True "1.prems" "1.IH" show ?thesis
      by (simp add: crc_loop.simps [of data len i])
  next
    case False
    with "1.prems" show ?thesis by (subst crc_loop.simps) simp
  qed
qed

lemma crc16_ccitt_list:
  "len \<le> length d \<Longrightarrow> crc16_ccitt (Some d) len = Some (crc_list 0xFFFF (take len d))"
  by (simp add: crc16_ccitt_def crc_loop_list)


subsection \<open>The shift register is linear and injective\<close>

lemma bit_8000: "bit (0x8000 :: u16) n \<longleftrightarrow> n = 15"
proof -
  have "(0x8000 :: u16) = push_bit 15 1" by simp
  then show ?thesis by (simp only: bit_push_bit_iff) (auto simp: bit_1_iff)
qed

lemma and_8000: "(x :: u16) AND 0x8000 \<noteq> 0 \<longleftrightarrow> bit x 15"
proof -
  have "(x AND 0x8000 \<noteq> 0) \<longleftrightarrow> (\<exists>n. bit (x AND 0x8000) n)"
    by (metis bit_0_eq bit_word_eqI bot_apply bot_bool_def)
  also have "\<dots> \<longleftrightarrow> bit x 15"
    unfolding bit_and_iff bit_8000 by auto
  finally show ?thesis .
qed

lemma crc_bit_alt: "crc_bit x = push_bit 1 x XOR (if bit x 15 then 0x1021 else 0)"
  by (simp add: crc_bit_def and_8000)

lemma crc_bit_xor: "crc_bit (x XOR y) = crc_bit x XOR crc_bit y"
  by (cases "bit x 15"; cases "bit y 15")
     (simp_all add: crc_bit_alt bit_xor_iff push_bit_xor ac_simps)

lemma crc_bit_zero [simp]: "crc_bit 0 = 0"
  by (simp add: crc_bit_alt)

lemma bit0_crc_bit: "bit (crc_bit x) 0 \<longleftrightarrow> bit x 15"
proof -
  have "bit (0x1021 :: u16) 0" by simp
  then show ?thesis
    by (simp only: crc_bit_alt bit_xor_iff bit_push_bit_iff) simp
qed

lemma crc_bit_eq_zero: "crc_bit x = 0 \<Longrightarrow> x = 0"
proof -
  assume z: "crc_bit x = 0"
  then have top: "\<not> bit x 15" using bit0_crc_bit [of x] by simp
  with z have p: "push_bit 1 x = 0" by (simp add: crc_bit_alt)
  show "x = 0"
  proof (rule bit_word_eqI)
    fix n assume "n < LENGTH(16)"
    then have n: "n < 16" by simp
    have "bit (push_bit 1 x) (Suc n) \<longleftrightarrow> bit x n" if "n < 15"
      using that by (simp only: bit_push_bit_iff) simp
    with p top n show "bit x n = bit 0 n"
      by (cases "n = 15") (auto simp only: bit_0_eq bot_apply bot_bool_def)
  qed
qed

lemma crc_bit_inj [simp]: "crc_bit x = crc_bit y \<longleftrightarrow> x = y"
  by (metis crc_bit_eq_zero crc_bit_xor crc_bit_zero xor_eq_zero_iff)

lemma crc_bits_xor: "crc_bits n (x XOR y) = crc_bits n x XOR crc_bits n y"
  by (induction n arbitrary: x y) (simp_all add: crc_bit_xor)

lemma crc_bits_zero [simp]: "crc_bits n 0 = 0"
  by (induction n) simp_all

lemma crc_bits_inj [simp]: "crc_bits n x = crc_bits n y \<longleftrightarrow> x = y"
  by (induction n arbitrary: x y) simp_all

lemma crc_bits_add: "crc_bits (m + n) x = crc_bits n (crc_bits m x)"
  by (induction m arbitrary: x) simp_all

text \<open>A value below \<open>2 ^ (16 - n)\<close> is only shifted by \<open>n\<close> turns: nothing falls out.\<close>

lemma crc_bits_push:
  "(\<And>i. 16 - n \<le> i \<Longrightarrow> \<not> bit x i) \<Longrightarrow> n \<le> 16 \<Longrightarrow> crc_bits n x = push_bit n x"
proof (induction n arbitrary: x)
  case 0
  then show ?case by simp
next
  case (Suc n)
  have top: "\<not> bit x 15" using Suc.prems by simp
  have "crc_bits n (push_bit 1 x) = push_bit n (push_bit 1 x)"
    using Suc.prems by (intro Suc.IH) (auto simp only: bit_push_bit_iff)
  with top show ?case
    by (simp add: crc_bit_alt)
qed

lemma crc_byte_xor: "crc_byte c b = crc_bits 8 c XOR crc_bits 8 (push_bit 8 (ucast b))"
  by (simp add: crc_byte_def crc_bits_xor)

lemma crc_byte_inj_state [simp]: "crc_byte c b = crc_byte c' b \<longleftrightarrow> c = c'"
  by (simp add: crc_byte_def)

lemma crc_list_inj_state [simp]: "crc_list c xs = crc_list c' xs \<longleftrightarrow> c = c'"
  by (induction xs arbitrary: c c') simp_all

subsection \<open>Residue\<close>

lemma crc_byte_own_high: "crc_byte c (hi8 c) = push_bit 8 (ucast (lo8 c))"
proof -
  have x: "c XOR push_bit 8 (ucast (hi8 c)) = ucast (lo8 c)"
    by (rule bit_word_eqI)
       (auto simp: bit_xor_iff bit_push_bit_iff bit_unsigned_iff bit_hi8 bit_lo8)
  have "crc_bits 8 (ucast (lo8 c)) = push_bit 8 (ucast (lo8 c))"
    by (rule crc_bits_push) (auto simp: bit_unsigned_iff bit_lo8)
  with x show ?thesis by (simp add: crc_byte_def)
qed

lemma crc_list_own_checksum: "crc_list c [hi8 c, lo8 c] = 0"
  by (simp add: crc_byte_own_high) (simp add: crc_byte_def)

lemma crc_residue: "crc_list c (xs @ [h, l]) = 0 \<longleftrightarrow> be16 h l = crc_list c xs"
proof -
  let ?s = "crc_list c xs"
  have "crc_list ?s [h, l] = crc_bits 16 (?s XOR be16 h l)"
  proof -
    have l: "push_bit 8 (ucast l) = crc_bits 8 (ucast l)"
      by (rule crc_bits_push [symmetric]) (auto simp: bit_unsigned_iff dest: bit_imp_le_length)
    have be: "be16 h l = push_bit 8 (ucast h) XOR ucast l"
      by (rule bit_word_eqI)
         (auto simp: bit_be16 bit_xor_iff bit_push_bit_iff bit_unsigned_iff
           dest: bit_imp_le_length)
    have "crc_bits 16 (?s XOR be16 h l) = crc_bits 8 (crc_bits 8 (?s XOR be16 h l))"
      using crc_bits_add [of 8 8] by simp
    also have "\<dots> = crc_byte (crc_byte ?s h) l"
      by (simp add: crc_byte_def l be crc_bits_xor xor.assoc)
    finally show ?thesis by simp
  qed
  then show ?thesis
    using crc_bits_inj [of 16 "?s XOR be16 h l" 0] by auto
qed

subsection \<open>The bit-serial shift register\<close>

text \<open>
  The reference the byte-wise code implements: one message bit enters at the top of the
  register per step, most significant bit of each byte first.
\<close>

definition crc_serial :: "u16 \<Rightarrow> bool \<Rightarrow> u16" where
  "crc_serial c b = crc_bit (if b then c XOR 0x8000 else c)"

definition bits_msb :: "u8 \<Rightarrow> bool list" where
  "bits_msb b = map (\<lambda>i. bit b (7 - i)) [0..<8]"

text \<open>The register value that holds up to sixteen message bits at its top.\<close>

fun top_bits :: "bool list \<Rightarrow> u16" where
  "top_bits [] = 0"
| "top_bits (b # bs) = (if b then 0x8000 else 0) XOR drop_bit 1 (top_bits bs)"

lemma bit_top_bits:
  "length bs \<le> 16 \<Longrightarrow> bit (top_bits bs) n \<longleftrightarrow> n < 16 \<and> 15 - n < length bs \<and> bs ! (15 - n)"
proof (induction bs arbitrary: n)
  case Nil
  then show ?case by simp
next
  case (Cons b bs)
  have "bit (top_bits (b # bs)) n \<longleftrightarrow> (b \<and> n = 15) \<noteq> bit (top_bits bs) (Suc n)"
  proof (cases b)
    case True
    then have "bit (top_bits (b # bs)) n \<longleftrightarrow> bit (0x8000 :: u16) n \<noteq> bit (top_bits bs) (Suc n)"
      by (simp only: top_bits.simps bit_xor_iff bit_drop_bit_eq if_True o_def) simp
    with True show ?thesis by (simp only: bit_8000) simp
  next
    case False
    then show ?thesis by (simp add: bit_drop_bit_eq)
  qed
  also have "\<dots> \<longleftrightarrow> n < 16 \<and> 15 - n < length (b # bs) \<and> (b # bs) ! (15 - n)"
  proof -
    have IH: "bit (top_bits bs) (Suc n) \<longleftrightarrow> Suc n < 16 \<and> 15 - Suc n < length bs \<and> bs ! (15 - Suc n)"
      using Cons by simp
    consider "n = 15" | "15 < n" | "n < 15" by linarith
    then show ?thesis
    proof cases
      case 3
      then have "15 - n = Suc (15 - Suc n)" by simp
      with 3 IH show ?thesis by simp
    qed (use IH in simp_all)
  qed
  finally show ?case .
qed

lemma top_bits_inj:
  assumes "length v = length w" and "length w \<le> 16" and "top_bits v = top_bits w"
  shows "v = w"
proof (rule nth_equalityI)
  fix i assume i: "i < length v"
  then have "15 - i < 16" "15 - (15 - i) = i" using assms by simp_all
  with i have "bit (top_bits v) (15 - i) = v ! i" "bit (top_bits w) (15 - i) = w ! i"
    using assms bit_top_bits [of v "15 - i"] bit_top_bits [of w "15 - i"] by simp_all
  with assms(3) show "v ! i = w ! i" by simp
qed (fact assms(1))

lemma crc_serial_top:
  "length bs \<le> 16 \<Longrightarrow> foldl crc_serial c bs = crc_bits (length bs) (c XOR top_bits bs)"
proof (induction bs arbitrary: c)
  case Nil
  then show ?case by simp
next
  case (Cons b bs)
  let ?t = "top_bits bs"
  have "push_bit 1 (drop_bit 1 ?t) = ?t"
  proof (rule bit_word_eqI)
    fix n
    have "\<not> bit ?t 0" using Cons.prems by (simp add: bit_top_bits)
    then show "bit (push_bit 1 (drop_bit 1 ?t)) n = bit ?t n"
      using bit_imp_le_length [of ?t n]
      by (cases n) (simp_all only: bit_push_bit_iff bit_drop_bit_eq o_def, auto)
  qed
  moreover have "\<not> bit (drop_bit 1 ?t) 15"
    using Cons.prems by (simp only: bit_drop_bit_eq) (simp add: bit_top_bits)
  ultimately have t: "crc_bit (drop_bit (Suc 0) ?t) = ?t"
    by (simp add: crc_bit_alt)
  have "foldl crc_serial c (b # bs) = crc_bits (length bs) (crc_serial c b XOR ?t)"
    using Cons by simp
  also have "crc_serial c b XOR ?t = crc_bit (c XOR top_bits (b # bs))"
    using t by (simp add: crc_serial_def crc_bit_xor xor.assoc)
  finally show ?case by simp
qed

lemma crc_serial_inj [simp]: "foldl crc_serial c bs = foldl crc_serial c' bs \<longleftrightarrow> c = c'"
proof (induction bs arbitrary: c c')
  case (Cons b bs)
  have "crc_serial c b = crc_serial c' b \<longleftrightarrow> c = c'"
    by (simp add: crc_serial_def)
  with Cons show ?case by simp
qed simp

lemma length_bits_msb [simp]: "length (bits_msb b) = 8"
  by (simp add: bits_msb_def)

lemma top_bits_msb: "top_bits (bits_msb b) = push_bit 8 (ucast b)"
  by (rule bit_word_eqI)
     (auto simp: bit_top_bits bit_push_bit_iff bit_unsigned_iff bits_msb_def
       dest: bit_imp_le_length)

lemma crc_byte_serial: "crc_byte c b = foldl crc_serial c (bits_msb b)"
  by (simp add: crc_serial_top top_bits_msb crc_byte_def)

lemma crc_list_serial: "crc_list c xs = foldl crc_serial c (concat (map bits_msb xs))"
  by (induction xs arbitrary: c) (simp_all add: crc_byte_serial)

lemma crc_serial_burst:
  assumes "length v = length w" and "length w \<le> 16" and "v \<noteq> w"
  shows "foldl crc_serial c (pre @ v @ post) \<noteq> foldl crc_serial c (pre @ w @ post)"
proof
  assume "foldl crc_serial c (pre @ v @ post) = foldl crc_serial c (pre @ w @ post)"
  then have "foldl crc_serial (foldl crc_serial c pre) v = foldl crc_serial (foldl crc_serial c pre) w"
    by simp
  with assms(1,2) have "top_bits v = top_bits w"
    by (simp add: crc_serial_top)
  with assms show False by (simp add: top_bits_inj)
qed

subsection \<open>Properties\<close>


text \<open>C22: two messages whose bits differ only inside a window of at most sixteen consecutive
  bits, and do differ there, have different checksums: every burst error of up to sixteen bits
  is detected. The hypotheses give the two messages the same bits around the windows
  \<open>v\<close> and \<open>w\<close>.\<close>

theorem crc16_detects_bursts:
  assumes "concat (map bits_msb xs) = pre @ v @ post" and "concat (map bits_msb ys) = pre @ w @ post"
    and "length v = length w" and "length w \<le> 16" and "v \<noteq> w"
  shows "crc16_ccitt (Some xs) (length xs) \<noteq> crc16_ccitt (Some ys) (length ys)"
  using assms crc_serial_burst [of v w "0xFFFF" pre post]
  by (simp add: crc16_ccitt_list crc_list_serial del: foldl_append)

theorem crc16_detects_bursts_witness:
  "crc16_ccitt (Some [0x31, 0x32]) (length [0x31 :: u8, 0x32]) \<noteq>
   crc16_ccitt (Some [0x31, 0xCD]) (length [0x31 :: u8, 0xCD])"
proof -
  have "bits_msb 0x32 \<noteq> bits_msb 0xCD" by code_simp
  then show ?thesis
    using crc16_detects_bursts [of "[0x31, 0x32]" "bits_msb 0x31" "bits_msb 0x32" "[]"
        "[0x31, 0xCD]" "bits_msb 0xCD"]
    by simp
qed

text \<open>The check value that the header documents, for the digits 1 to 9.\<close>

lemma crc16_check_value:
  "crc16_ccitt (Some [0x31, 0x32, 0x33, 0x34, 0x35, 0x36, 0x37, 0x38, 0x39]) 9 = Some 0x29B1"
  by (simp only: crc16_ccitt_list [of 9 "[0x31, 0x32, 0x33, 0x34, 0x35, 0x36, 0x37, 0x38, 0x39]", simplified])
     code_simp

end
