(* ===== verification/Cobs.thy ===== *)
theory Cobs
  imports Fw_Prelude
begin

text \<open>
  \<^verbatim>\<open>src/util/cobs.cpp\<close>: the in-place encoder and decoder, with their indices, the size guard
  and every early return. A pointer and its length are a list and a length of their own, so
  that a length larger than the buffer behind the pointer shows as \<open>None\<close>. The abstract
  encoding \<open>cobs_frame\<close> is a function on byte lists; the lemmas show that the encoder writes
  exactly it, that the decoder inverts it, and that neither touches memory outside its buffers.
\<close>

subsection \<open>The encoder\<close>

text \<open>The locals of \<^verbatim>\<open>cobs_encode\<close>.\<close>

record enc_state =
  e_out :: buf
  e_write :: nat
  e_code_idx :: nat
  e_code :: u8

text \<open>The body of the loop for one input byte.\<close>

definition cobs_enc_step :: "u8 \<Rightarrow> enc_state \<Rightarrow> enc_state option" where
  "cobs_enc_step x st =
     (if x = 0 then do {
        out \<leftarrow> wr8 (e_out st) (e_code_idx st) (e_code st);
        out \<leftarrow> wr8 out (e_write st) 0;
        Some \<lparr>e_out = out, e_write = e_write st + 1, e_code_idx = e_write st, e_code = 1\<rparr> }
      else do {
        out \<leftarrow> wr8 (e_out st) (e_write st) x;
        let st = st\<lparr>e_out := out, e_write := e_write st + 1, e_code := e_code st + 1\<rparr>;
        if e_code st = 0xFF then do {
          out \<leftarrow> wr8 (e_out st) (e_code_idx st) 0xFF;
          out \<leftarrow> wr8 out (e_write st) 0;
          Some \<lparr>e_out = out, e_write = e_write st + 1, e_code_idx = e_write st, e_code = 1\<rparr> }
        else Some st })"

function cobs_enc_loop :: "buf \<Rightarrow> nat \<Rightarrow> nat \<Rightarrow> enc_state \<Rightarrow> enc_state option" where
  "cobs_enc_loop input input_len i st =
     (if i < input_len
      then do {
        x \<leftarrow> rd8 input i;
        st \<leftarrow> cobs_enc_step x st;
        cobs_enc_loop input input_len (Suc i) st }
      else Some st)"
  by pat_completeness auto
termination
  by (relation "measure (\<lambda>(input, n, i, st). n - i)") auto

declare cobs_enc_loop.simps [simp del]

text \<open>The result is the returned size and the contents of the output buffer.\<close>

definition cobs_encode :: "buf \<Rightarrow> nat \<Rightarrow> buf \<Rightarrow> nat \<Rightarrow> (nat \<times> buf) option" where
  "cobs_encode input input_len output output_len =
     (if output_len < input_len + input_len div 254 + 2 then Some (0, output)
      else do {
        out \<leftarrow> wr8 output 0 0;
        st \<leftarrow> cobs_enc_loop input input_len 0
                \<lparr>e_out = out, e_write = 1, e_code_idx = 0, e_code = 1\<rparr>;
        out \<leftarrow> wr8 (e_out st) (e_code_idx st) (e_code st);
        out \<leftarrow> wr8 out (e_write st) 0;
        Some (e_write st + 1, out) })"

subsection \<open>The decoder\<close>

text \<open>
  A block copy either stops the whole decoder (\<^verbatim>\<open>return 0\<close>, here \<open>Inl\<close> with the output as
  far as it was written) or leaves the indices and the output.
\<close>

type_synonym dec_state = "nat \<times> nat \<times> buf"

text \<open>\<^verbatim>\<open>for (uint8_t i = 1; i < code; i++)\<close>: \<open>k\<close> turns are left.\<close>

fun cobs_dec_block ::
  "buf \<Rightarrow> nat \<Rightarrow> nat \<Rightarrow> nat \<Rightarrow> dec_state \<Rightarrow> (buf + dec_state) option"
where
  "cobs_dec_block input input_len output_len 0 st = Some (Inr st)"
| "cobs_dec_block input input_len output_len (Suc k) (r, w, out) =
     (if input_len - 1 \<le> r then Some (Inl out)
      else do {
        byte \<leftarrow> rd8 input r;
        if byte = 0 then Some (Inl out)
        else if output_len \<le> w then Some (Inl out)
        else do {
          out \<leftarrow> wr8 out w byte;
          cobs_dec_block input input_len output_len k (r + 1, w + 1, out) } })"

lemma cobs_dec_block_read:
  "cobs_dec_block input n m k (r, w, out) = Some (Inr (r', w', out')) \<Longrightarrow> r' = r + k"
  by (induction k arbitrary: r w out)
     (fastforce split: if_splits simp: Option.bind_eq_Some_conv)+

function cobs_dec_loop ::
  "buf \<Rightarrow> nat \<Rightarrow> nat \<Rightarrow> nat \<Rightarrow> nat \<Rightarrow> buf \<Rightarrow> (nat \<times> buf) option"
where
  "cobs_dec_loop input input_len output_len r w out =
     (if r < input_len - 1 then
        (case rd8 input r of
           None \<Rightarrow> None
         | Some code \<Rightarrow>
             if code = 0 then Some (0, out)
             else (case cobs_dec_block input input_len output_len (unat code - 1) (r + 1, w, out) of
                 None \<Rightarrow> None
               | Some (Inl out') \<Rightarrow> Some (0, out')
               | Some (Inr (r', w', out')) \<Rightarrow>
                   if code < 0xFF \<and> r' < input_len - 1 then
                     (if output_len \<le> w' then Some (0, out')
                      else (case wr8 out' w' 0 of
                          None \<Rightarrow> None
                        | Some out'' \<Rightarrow> cobs_dec_loop input input_len output_len r' (w' + 1) out''))
                   else cobs_dec_loop input input_len output_len r' w' out'))
      else Some (w, out))"
  by pat_completeness auto
termination
  by (relation "measure (\<lambda>(input, n, m, r, w, out). n - r)")
     (auto dest!: cobs_dec_block_read)

declare cobs_dec_loop.simps [simp del]

definition cobs_decode :: "buf \<Rightarrow> nat \<Rightarrow> buf \<Rightarrow> nat \<Rightarrow> (nat \<times> buf) option" where
  "cobs_decode input input_len output output_len =
     (if input_len < 2 then Some (0, output)
      else do {
        last \<leftarrow> rd8 input (input_len - 1);
        if last \<noteq> 0 then Some (0, output)
        else cobs_dec_loop input input_len output_len 0 0 output })"

subsection \<open>The abstract encoding\<close>

text \<open>
  \<open>cobs_body blk xs\<close> is the stuffed form of \<open>blk @ xs\<close>, where \<open>blk\<close> are the non-zero bytes of
  the block under construction: a block is closed by a zero byte of the data, by its 254th
  byte, or by the end of the data. \<open>cobs_frame\<close> adds the delimiter.
\<close>

fun cobs_body :: "buf \<Rightarrow> buf \<Rightarrow> buf" where
  "cobs_body blk [] = of_nat (length blk + 1) # blk"
| "cobs_body blk (x # xs) =
     (if x = 0 then of_nat (length blk + 1) # blk @ cobs_body [] xs
      else if length blk = 253 then 255 # (blk @ [x]) @ cobs_body [] xs
      else cobs_body (blk @ [x]) xs)"

definition cobs_frame :: "buf \<Rightarrow> buf" where
  "cobs_frame xs = cobs_body [] xs @ [0]"

text \<open>The inverse on lists, with the rejections of the decoder.\<close>

function cobs_unstuff :: "buf \<Rightarrow> buf option" where
  "cobs_unstuff [] = Some []"
| "cobs_unstuff (c # rest) =
     (let k = unat c - 1 in
      if c = 0 \<or> length rest < k \<or> 0 \<in> set (take k rest) then None
      else map_option (\<lambda>ys. take k rest @ (if c < 0xFF \<and> drop k rest \<noteq> [] then [0] else []) @ ys)
             (cobs_unstuff (drop k rest)))"
  by pat_completeness auto
termination
  by (relation "measure length") auto

lemma cobs_body_nonempty [simp]: "cobs_body blk xs \<noteq> []"
  by (induction blk xs rule: cobs_body.induct) auto

lemma length_cobs_body:
  "length blk \<le> 253 \<Longrightarrow>
   length (cobs_body blk xs) \<le> length blk + length xs + (length blk + length xs) div 254 + 1"
proof (induction blk xs rule: cobs_body.induct)
  case (2 blk x xs)
  show ?case
  proof (cases "x = 0")
    case True
    have "length xs div 254 \<le> Suc (length blk + length xs) div 254" by (simp add: div_le_mono)
    with 2 True show ?thesis by simp
  next
    case False
    have "Suc (253 + length xs) div 254 = Suc (length xs div 254)" by simp
    with 2 False show ?thesis by auto
  qed
qed simp

lemma length_cobs_frame: "length (cobs_frame xs) \<le> length xs + length xs div 254 + 2"
  using length_cobs_body [of "[]" xs] by (simp add: cobs_frame_def)

lemma length_cobs_body_ge: "length blk + length xs < length (cobs_body blk xs)"
  by (induction blk xs rule: cobs_body.induct) auto

lemma unat_block_code: "k \<le> 254 \<Longrightarrow> unat (of_nat (Suc k) :: u8) = Suc k"
  by (simp only: unat_of_nat) (simp add: take_bit_nat_def)

lemma block_code_nonzero: "k \<le> 254 \<Longrightarrow> (of_nat (Suc k) :: u8) \<noteq> 0"
  by (metis unat_block_code unat_0 nat.distinct(1))

lemma block_code_less: "k \<le> 253 \<Longrightarrow> (of_nat (Suc k) :: u8) < 0xFF"
  using unat_block_code [of k] by (simp add: word_less_nat_alt)

lemma zero_notin_cobs_body:
  "length blk \<le> 253 \<Longrightarrow> 0 \<notin> set blk \<Longrightarrow> 0 \<notin> set (cobs_body blk xs)"
  by (induction blk xs rule: cobs_body.induct) (auto simp: block_code_nonzero simp del: of_nat_Suc)

lemma unstuff_block:
  assumes "length blk \<le> 253" and "0 \<notin> set blk"
  shows "cobs_unstuff (of_nat (Suc (length blk)) # blk @ rest) =
           map_option (\<lambda>ys. blk @ (if rest \<noteq> [] then [0] else []) @ ys) (cobs_unstuff rest)"
  using assms unat_block_code [of "length blk"] block_code_nonzero [of "length blk"]
    block_code_less [of "length blk"]
  by (auto simp: Let_def simp del: of_nat_Suc)

lemma unstuff_full_block:
  assumes "length blk = 254" and "0 \<notin> set blk"
  shows "cobs_unstuff (255 # blk @ rest) = map_option (\<lambda>ys. blk @ ys) (cobs_unstuff rest)"
  using assms by (simp add: Let_def)

lemma unstuff_body:
  "length blk \<le> 253 \<Longrightarrow> 0 \<notin> set blk \<Longrightarrow> cobs_unstuff (cobs_body blk xs) = Some (blk @ xs)"
proof (induction blk xs rule: cobs_body.induct)
  case (1 blk)
  then show ?case using unstuff_block [of blk "[]"] by (simp del: of_nat_Suc cobs_unstuff.simps(2))
next
  case (2 blk x xs)
  consider "x = 0" | "x \<noteq> 0" "length blk = 253" | "x \<noteq> 0" "length blk < 253"
    using "2.prems" by linarith
  then show ?case
  proof cases
    case 1
    with 2 show ?thesis
      using unstuff_block [of blk "cobs_body [] xs"] by (simp del: of_nat_Suc cobs_unstuff.simps(2))
  next
    case 2
    with "2.prems" "2.IH"(2) show ?thesis
      using unstuff_full_block [of "blk @ [x]" "cobs_body [] xs"]
      by (simp del: cobs_unstuff.simps(2))
  next
    case 3
    with "2.prems" "2.IH"(3) show ?thesis by simp
  qed
qed

lemma cobs_body_inj: "cobs_body [] xs = cobs_body [] ys \<longleftrightarrow> xs = ys"
  by (metis append_Nil empty_iff list.set(1) list.size(3) option.inject unstuff_body zero_le)

lemma unstuff_nonzero: "cobs_unstuff b = Some d \<Longrightarrow> 0 \<notin> set b"
proof (induction b arbitrary: d rule: cobs_unstuff.induct)
  case (2 c rest)
  let ?k = "unat c - 1"
  from "2.prems" have c: "c \<noteq> 0" and z: "0 \<notin> set (take ?k rest)"
    and "\<exists>d'. cobs_unstuff (drop ?k rest) = Some d'"
    by (auto simp: Let_def split: if_splits)
  then have "0 \<notin> set (drop ?k rest)"
    using "2.IH" "2.prems" by (auto simp: Let_def split: if_splits)
  with z have "0 \<notin> set (take ?k rest @ drop ?k rest)" by (simp only: set_append) simp
  with c show ?case by simp
qed simp

lemma unstuff_length: "cobs_unstuff b = Some d \<Longrightarrow> b \<noteq> [] \<Longrightarrow> length d < length b"
proof (induction b arbitrary: d rule: cobs_unstuff.induct)
  case (2 c rest)
  let ?k = "unat c - 1"
  from "2.prems" have l: "\<not> length rest < ?k"
    and g: "\<not> (c = 0 \<or> length rest < ?k \<or> 0 \<in> set (take ?k rest))"
    by (auto simp: Let_def split: if_splits)
  with "2.prems" obtain ys where ys: "cobs_unstuff (drop ?k rest) = Some ys"
    and d: "d = take ?k rest @ (if c < 0xFF \<and> drop ?k rest \<noteq> [] then [0] else []) @ ys"
    by (auto simp: Let_def split: if_splits)
  show ?case
  proof (cases "drop ?k rest = []")
    case True
    with ys d l show ?thesis by auto
  next
    case False
    with "2.IH" [OF refl g ys] d l show ?thesis by auto
  qed
qed simp

subsection \<open>The encoder writes the abstract encoding\<close>

text \<open>
  The encoder's state after some input: \<open>pre\<close> are the finished blocks, \<open>blk\<close> the bytes of
  the open one, whose code byte is still zero.
\<close>

definition enc_at :: "buf \<Rightarrow> buf \<Rightarrow> buf \<Rightarrow> enc_state" where
  "enc_at o0 pre blk =
     \<lparr>e_out = (pre @ 0 # blk) @ drop (length pre + 1 + length blk) o0,
      e_write = length pre + 1 + length blk, e_code_idx = length pre,
      e_code = of_nat (length blk + 1)\<rparr>"

lemma enc_step_zero:
  assumes "length pre + 1 + length blk < length o0"
  shows "cobs_enc_step 0 (enc_at o0 pre blk) =
           Some (enc_at o0 (pre @ of_nat (length blk + 1) # blk) [])"
proof -
  let ?n = "length pre + 1 + length blk"
  let ?p = "pre @ of_nat (length blk + 1) # blk"
  have "(?p @ drop ?n o0)[?n := 0] = (?p @ [0]) @ drop (Suc ?n) o0"
    by (rule wr_next) (use assms in auto)
  then show ?thesis
    using assms by (simp add: cobs_enc_step_def enc_at_def list_update_append)
qed

lemma enc_step_byte:
  assumes "length pre + 1 + length blk < length o0" and "x \<noteq> 0" and "length blk < 253"
  shows "cobs_enc_step x (enc_at o0 pre blk) = Some (enc_at o0 pre (blk @ [x]))"
proof -
  let ?n = "length pre + 1 + length blk"
  have "((pre @ 0 # blk) @ drop ?n o0)[?n := x] = ((pre @ 0 # blk) @ [x]) @ drop (Suc ?n) o0"
    by (rule wr_next) (use assms in auto)
  moreover have "(of_nat (Suc (Suc (length blk))) :: u8) \<noteq> 0xFF"
    using block_code_less [of "Suc (length blk)"] assms(3) by (simp del: of_nat_Suc)
  ultimately show ?thesis
    using assms by (simp add: cobs_enc_step_def enc_at_def add.commute)
qed

lemma enc_step_full:
  assumes "length pre + 2 + length blk < length o0" and "x \<noteq> 0" and "length blk = 253"
  shows "cobs_enc_step x (enc_at o0 pre blk) = Some (enc_at o0 (pre @ 255 # blk @ [x]) [])"
proof -
  let ?n = "length pre + 1 + length blk"
  let ?p = "pre @ 255 # blk @ [x]"
  have w: "((pre @ 0 # blk) @ drop ?n o0)[?n := x] = ((pre @ 0 # blk) @ [x]) @ drop (Suc ?n) o0"
    by (rule wr_next) (use assms in auto)
  have "(?p @ drop (Suc ?n) o0)[Suc ?n := 0] = (?p @ [0]) @ drop (Suc (Suc ?n)) o0"
    by (rule wr_next) (use assms in auto)
  with w show ?thesis
    using assms by (simp add: cobs_enc_step_def enc_at_def list_update_append)
qed

lemma enc_loop:
  assumes "n \<le> length input"
  shows "i \<le> n \<Longrightarrow> length blk \<le> 253 \<Longrightarrow>
    length pre + length (cobs_body blk (take (n - i) (drop i input))) < length o0 \<Longrightarrow>
    \<exists>pre' blk'. cobs_enc_loop input n i (enc_at o0 pre blk) = Some (enc_at o0 pre' blk') \<and>
      length blk' \<le> 253 \<and>
      pre' @ of_nat (length blk' + 1) # blk' = pre @ cobs_body blk (take (n - i) (drop i input))"
proof (induction "n - i" arbitrary: i pre blk)
  case 0
  then show ?case by (subst cobs_enc_loop.simps) auto
next
  case (Suc k)
  then have i: "i < n" by simp
  define x where "x = input ! i"
  define xs where "xs = take (n - Suc i) (drop (Suc i) input)"
  have split: "take (n - i) (drop i input) = x # xs"
    using i assms unfolding x_def xs_def
    by (simp add: Cons_nth_drop_Suc [symmetric] take_Cons' Suc_diff_Suc)
  have k: "k = n - Suc i" and i': "Suc i \<le> n" using Suc.hyps i by simp_all
  have step: "cobs_enc_loop input n i st =
      Option.bind (cobs_enc_step x st) (cobs_enc_loop input n (Suc i))" for st
    using i assms by (subst cobs_enc_loop.simps) (simp add: x_def)
  have len: "length blk + length xs < length (cobs_body blk xs)" for blk
    by (rule length_cobs_body_ge)
  consider "x = 0" | "x \<noteq> 0" "length blk = 253" | "x \<noteq> 0" "length blk < 253"
    using Suc.prems by linarith
  then show ?case
  proof cases
    case 1
    let ?pre = "pre @ of_nat (length blk + 1) # blk"
    have "cobs_enc_step x (enc_at o0 pre blk) = Some (enc_at o0 ?pre [])"
      using Suc.prems 1 split by (simp only: 1) (intro enc_step_zero, simp)
    moreover have "length ?pre + length (cobs_body [] xs) < length o0"
      using Suc.prems 1 split by simp
    ultimately show ?thesis
      using Suc.hyps(1) [OF k i', of "[]" ?pre] 1 split by (simp add: step xs_def)
  next
    case 2
    let ?pre = "pre @ 255 # blk @ [x]"
    have "cobs_enc_step x (enc_at o0 pre blk) = Some (enc_at o0 ?pre [])"
      using Suc.prems 2 split len [of "[]"] by (intro enc_step_full) auto
    moreover have "length ?pre + length (cobs_body [] xs) < length o0"
      using Suc.prems 2 split by simp
    ultimately show ?thesis
      using Suc.hyps(1) [OF k i', of "[]" ?pre] 2 split by (simp add: step xs_def)
  next
    case 3
    have "cobs_enc_step x (enc_at o0 pre blk) = Some (enc_at o0 pre (blk @ [x]))"
      using Suc.prems 3 split len [of "blk @ [x]"] by (intro enc_step_byte) auto
    then show ?thesis
      using Suc.hyps(1) [OF k i', of "blk @ [x]" pre] Suc.prems 3 split
      by (simp add: step xs_def)
  qed
qed

lemma cobs_encode_too_small:
  "output_len < n + n div 254 + 2 \<Longrightarrow> cobs_encode input n output output_len = Some (0, output)"
  by (simp add: cobs_encode_def)

lemma cobs_encode_frame:
  assumes n: "n \<le> length input" and room: "n + n div 254 + 2 \<le> output_len"
    and out: "output_len \<le> length output"
  defines "f \<equiv> cobs_frame (take n input)"
  shows "cobs_encode input n output output_len =
           Some (length f, f @ drop (length f) output)"
proof -
  let ?xs = "take n input"
  have lf: "length (cobs_body [] ?xs) + 1 \<le> n + n div 254 + 2"
    using length_cobs_frame [of ?xs] n by (simp add: cobs_frame_def)
  have w0: "wr8 output 0 0 = Some (0 # drop (Suc 0) output)"
    using room out by (cases "output") auto
  have init: "\<lparr>e_out = 0 # drop (Suc 0) output, e_write = Suc 0, e_code_idx = 0, e_code = 1\<rparr> =
      enc_at output [] []"
    by (simp add: enc_at_def)
  obtain pre blk where loop: "cobs_enc_loop input n 0 (enc_at output [] []) =
        Some (enc_at output pre blk)"
    and blk: "length blk \<le> 253"
    and body: "pre @ of_nat (length blk + 1) # blk = cobs_body [] ?xs"
    using enc_loop [OF n, of 0 "[]" "[]" "output"] lf room out by auto
  let ?n = "length pre + 1 + length blk"
  have ln: "length (cobs_body [] ?xs) = ?n" using body [symmetric] by simp
  let ?st = "enc_at output pre blk"
  have "wr8 (e_out ?st) (e_code_idx ?st) (e_code ?st) = Some (cobs_body [] ?xs @ drop ?n output)"
    unfolding body [symmetric] by (simp add: enc_at_def list_update_append)
  moreover have "e_write ?st = ?n" by (simp add: enc_at_def)
  moreover have "(cobs_body [] ?xs @ drop ?n output)[?n := 0] =
      (cobs_body [] ?xs @ [0]) @ drop (Suc ?n) output"
    by (rule wr_next) (use ln lf room out in auto)
  ultimately show ?thesis
    using room ln lf out n by (simp add: cobs_encode_def w0 init loop f_def cobs_frame_def)
qed

subsection \<open>The decoder computes the abstract inverse\<close>

lemma dec_block:
  assumes "n \<le> length input" and "m \<le> length out" and "r \<le> n - 1" and "w \<le> m"
  shows "if r + k \<le> n - 1 \<and> 0 \<notin> set (take k (drop r input)) \<and> w + k \<le> m
    then cobs_dec_block input n m k (r, w, out) =
      Some (Inr (r + k, w + k, take w out @ take k (drop r input) @ drop (w + k) out))
    else \<exists>o'. cobs_dec_block input n m k (r, w, out) = Some (Inl o') \<and> length o' = length out"
  using assms
proof (induction k arbitrary: r w out)
  case 0
  then show ?case by simp
next
  case (Suc k)
  show ?case
  proof (cases "r < n - 1 \<and> input ! r \<noteq> 0 \<and> w < m")
    case False
    moreover have "take (Suc k) (drop r input) = input ! r # take k (drop (Suc r) input)"
      if "r < n - 1"
      using that Suc.prems by (intro take_Suc_drop) simp
    ultimately show ?thesis using Suc.prems by auto
  next
    case True
    let ?o = "out[w := input ! r]"
    have t: "take (Suc k) (drop r input) = input ! r # take k (drop (Suc r) input)"
      using True Suc.prems by (intro take_Suc_drop) auto
    have "cobs_dec_block input n m (Suc k) (r, w, out) =
        cobs_dec_block input n m k (r + 1, w + 1, ?o)"
    proof -
      have "r < length input" "w < length out" using True Suc.prems by auto
      then show ?thesis using True by simp
    qed
    moreover have "take (Suc w) ?o = take w out @ [input ! r]"
      using True Suc.prems by (intro take_update_last) simp
    ultimately show ?thesis
      using Suc.IH [of ?o "r + 1" "w + 1"] True Suc.prems t by auto
  qed
qed

text \<open>
  What the decoder leaves, given the result of the abstract inverse on the bytes that are not
  yet read: the decoded bytes after the ones already written, or a zero return.
\<close>

definition dec_result :: "nat \<Rightarrow> nat \<Rightarrow> buf \<Rightarrow> buf option \<Rightarrow> (nat \<times> buf) option \<Rightarrow> bool" where
  "dec_result m w out d res =
     (case d of
        None \<Rightarrow> \<exists>o'. res = Some (0, o') \<and> length o' = length out
      | Some ys \<Rightarrow>
          if w + length ys \<le> m
          then res = Some (w + length ys, take w out @ ys @ drop (w + length ys) out)
          else \<exists>o'. res = Some (0, o') \<and> length o' = length out)"

lemma dec_result_extend:
  assumes "dec_result m (w + length bs) (take w out @ bs @ drop (w + length bs) out) d res"
    and "w + length bs \<le> length out"
  shows "dec_result m w out (map_option (\<lambda>ys. bs @ ys) d) res"
  using assms
  by (auto simp: dec_result_def add.assoc split: option.splits if_splits)
     (simp add: add.commute add.left_commute)

lemma unstuff_region_Cons:
  assumes "r < n - 1" and "n \<le> length input"
  defines "c \<equiv> input ! r" and "k \<equiv> unat (input ! r) - 1"
  shows "cobs_unstuff (take (n - 1 - r) (drop r input)) =
    (if c = 0 \<or> n - 1 < Suc r + k \<or> 0 \<in> set (take k (drop (Suc r) input)) then None
     else map_option (\<lambda>ys. take k (drop (Suc r) input) @
              (if c < 0xFF \<and> Suc r + k < n - 1 then [0] else []) @ ys)
            (cobs_unstuff (take (n - 1 - (Suc r + k)) (drop (Suc r + k) input))))"
proof -
  let ?rest = "take (n - 1 - Suc r) (drop (Suc r) input)"
  have t: "take (n - 1 - r) (drop r input) = c # ?rest"
    unfolding c_def by (rule take_diff_drop) (use assms in auto)
  have l: "length ?rest = n - 1 - Suc r" using assms by simp
  have tk: "take k ?rest = take k (drop (Suc r) input)" if "Suc r + k \<le> n - 1"
    using that by (simp add: min_def)
  have dk: "drop k ?rest = take (n - 1 - (Suc r + k)) (drop (Suc r + k) input)"
    by (simp add: drop_take add.commute add.left_commute)
  have e: "drop k ?rest \<noteq> [] \<longleftrightarrow> Suc r + k < n - 1"
    using assms(1) l by (simp only: drop_eq_Nil) linarith
  have u: "cobs_unstuff (c # ?rest) =
      (if c = 0 \<or> length ?rest < k \<or> 0 \<in> set (take k ?rest) then None
       else map_option (\<lambda>ys. take k ?rest @ (if c < 0xFF \<and> drop k ?rest \<noteq> [] then [0] else []) @ ys)
              (cobs_unstuff (drop k ?rest)))"
    by (simp only: cobs_unstuff.simps Let_def k_def c_def)
  have lk: "length ?rest < k \<longleftrightarrow> n - 1 < Suc r + k"
    using l assms(1) by linarith
  show ?thesis
  proof (cases "Suc r + k \<le> n - 1")
    case True
    show ?thesis by (simp only: t u lk dk tk [OF True] e [unfolded dk])
  next
    case False
    then show ?thesis by (simp only: t u lk) simp
  qed
qed

lemma dec_loop_step:
  assumes "r < n - 1" and "n \<le> length input"
  shows "let c = input ! r in cobs_dec_loop input n m r w out =
    (if c = 0 then Some (0, out)
     else (case cobs_dec_block input n m (unat c - 1) (Suc r, w, out) of
         None \<Rightarrow> None
       | Some (Inl out') \<Rightarrow> Some (0, out')
       | Some (Inr (r', w', out')) \<Rightarrow>
           if c < 0xFF \<and> r' < n - 1 then
             (if m \<le> w' then Some (0, out')
              else (case wr8 out' w' 0 of
                  None \<Rightarrow> None
                | Some out'' \<Rightarrow> cobs_dec_loop input n m r' (w' + 1) out''))
           else cobs_dec_loop input n m r' w' out'))"
  unfolding Let_def using assms by (subst cobs_dec_loop.simps) simp

lemma dec_loop:
  "n \<le> length input \<Longrightarrow> m \<le> length out \<Longrightarrow> r \<le> n - 1 \<Longrightarrow> w \<le> m \<Longrightarrow>
   dec_result m w out (cobs_unstuff (take (n - 1 - r) (drop r input)))
     (cobs_dec_loop input n m r w out)"
proof (induction "n - 1 - r" arbitrary: r w out rule: less_induct)
  case less
  show ?case
  proof (cases "r < n - 1")
    case False
    with less.prems show ?thesis
      by (subst cobs_dec_loop.simps) (simp add: dec_result_def)
  next
    case r: True
    define c where "c = input ! r"
    define k where "k = unat c - 1"
    define bs where "bs = take k (drop (Suc r) input)"
    define u where "u = cobs_unstuff (take (n - 1 - (Suc r + k)) (drop (Suc r + k) input))"
    note region = unstuff_region_Cons [OF r less.prems(1), folded c_def, folded k_def,
        folded bs_def u_def]
    note step = dec_loop_step [OF r less.prems(1), of m w out, folded c_def, unfolded Let_def, folded k_def]
    have "Suc r \<le> n - 1" using r by simp
    note blk = dec_block [OF less.prems(1,2) this less.prems(4), of k, folded bs_def]
    show ?thesis
    proof (cases "c = 0 \<or> n - 1 < Suc r + k \<or> 0 \<in> set bs \<or> m < w + k")
      case True
      then have "\<exists>o'. cobs_dec_loop input n m r w out = Some (0, o') \<and> length o' = length out"
        using blk step by (auto split: if_splits)
      moreover have "n - 1 < Suc r + k \<or> length bs = k"
        using less.prems by (auto simp: bs_def)
      ultimately show ?thesis
        using True region by (auto simp: dec_result_def split: option.splits)
    next
      case False
      define o1 where "o1 = take w out @ bs @ drop (w + k) out"
      have "k \<le> length input - Suc r" using False less.prems by linarith
      then have lb: "length bs = k" by (simp add: bs_def)
      have l1: "length o1 = length out" using False less.prems lb by (simp add: o1_def)
      have b: "cobs_dec_block input n m k (Suc r, w, out) = Some (Inr (Suc r + k, w + k, o1))"
        using blk False by (simp add: o1_def)
      have IH: "dec_result m w' o' u (cobs_dec_loop input n m (Suc r + k) w' o')"
        if "w' \<le> m" "length o' = length out" for w' o'
        unfolding u_def using that False less.prems r by (intro less.hyps) auto
      show ?thesis
      proof (cases "c < 0xFF \<and> Suc r + k < n - 1")
        case zero: True
        show ?thesis
        proof (cases "m \<le> w + k")
          case True
          then show ?thesis
            using region step b zero False l1 lb by (auto simp: dec_result_def split: option.splits)
        next
          case room: False
          define o2 where "o2 = take w out @ (bs @ [0]) @ drop (w + length (bs @ [0])) out"
          have "o1[w + k := 0] = o2"
            using room less.prems lb wr_next [of "w + k" "take w out @ bs" out 0]
            by (simp add: o1_def o2_def)
          then have "cobs_dec_loop input n m r w out =
              cobs_dec_loop input n m (Suc r + k) (w + length (bs @ [0])) o2"
            using step b zero False room l1 less.prems lb by simp
          moreover have "dec_result m w out (map_option (\<lambda>ys. (bs @ [0]) @ ys) u)
              (cobs_dec_loop input n m (Suc r + k) (w + length (bs @ [0])) o2)"
            unfolding o2_def
            by (rule dec_result_extend) (use IH room less.prems lb in auto)
          ultimately show ?thesis using region zero False by simp
        qed
      next
        case nozero: False
        then have "cobs_dec_loop input n m r w out =
            cobs_dec_loop input n m (Suc r + k) (w + length bs) o1"
          using step b False lb by auto
        moreover have "dec_result m w out (map_option (\<lambda>ys. bs @ ys) u)
            (cobs_dec_loop input n m (Suc r + k) (w + length bs) o1)"
          unfolding o1_def lb [symmetric]
          by (rule dec_result_extend) (use IH False less.prems lb in auto)
        ultimately show ?thesis using region nozero False by auto
      qed
    qed
  qed
qed

lemma cobs_decode_unstuff:
  assumes "n \<le> length input" and "m \<le> length out"
  shows "if n < 2 \<or> input ! (n - 1) \<noteq> 0 then cobs_decode input n out m = Some (0, out)
    else dec_result m 0 out (cobs_unstuff (take (n - 1) input)) (cobs_decode input n out m)"
  using dec_loop [of n input m out 0 0] assms by (auto simp: cobs_decode_def)

text \<open>The decoded size and bytes, and the frames that are refused, without the buffers.\<close>

definition cobs_accepts :: "buf \<Rightarrow> nat \<Rightarrow> buf \<Rightarrow> bool" where
  "cobs_accepts packet m d \<longleftrightarrow>
     2 \<le> length packet \<and> last packet = 0 \<and> cobs_unstuff (butlast packet) = Some d \<and> length d \<le> m"

lemma cobs_decode_accepts:
  assumes "n \<le> length input" and "m \<le> length out" and "cobs_accepts (take n input) m d"
  shows "cobs_decode input n out m = Some (length d, d @ drop (length d) out)"
proof -
  have n: "length (take n input) = n" using assms(1) by simp
  have "last (take n input) = input ! (n - 1)"
    using assms by (subst last_conv_nth) (auto simp: cobs_accepts_def)
  moreover have "butlast (take n input) = take (n - 1) input"
    using assms(1) by (simp add: butlast_take)
  ultimately show ?thesis
    using assms cobs_decode_unstuff [OF assms(1,2)] n
    by (auto simp: cobs_accepts_def dec_result_def)
qed

lemma cobs_decode_refuses:
  assumes "n \<le> length input" and "m \<le> length out" and "\<And>d. \<not> cobs_accepts (take n input) m d"
  shows "\<exists>o'. cobs_decode input n out m = Some (0, o') \<and> length o' = length out"
proof -
  have n: "length (take n input) = n" using assms(1) by simp
  have "last (take n input) = input ! (n - 1)" if "2 \<le> n"
    using assms(1) that by (subst last_conv_nth) auto
  moreover have "butlast (take n input) = take (n - 1) input"
    using assms(1) by (simp add: butlast_take)
  ultimately show ?thesis
    using assms cobs_decode_unstuff [OF assms(1,2)] n
    by (fastforce simp: cobs_accepts_def dec_result_def split: option.splits if_splits)
qed

lemma cobs_decode_cases:
  assumes "n \<le> length input" and "m \<le> length out"
  obtains (refused) o' where "cobs_decode input n out m = Some (0, o')" "length o' = length out"
      "\<And>d. \<not> cobs_accepts (take n input) m d"
  | (accepted) d where "cobs_accepts (take n input) m d"
      "cobs_decode input n out m = Some (length d, d @ drop (length d) out)"
  using cobs_decode_accepts [OF assms] cobs_decode_refuses [OF assms] by metis

lemma cobs_accepts_det: "cobs_accepts p m d \<Longrightarrow> cobs_accepts p m d' \<Longrightarrow> d' = d"
  by (simp add: cobs_accepts_def)

lemma cobs_accepts_frame [simp]: "cobs_accepts (cobs_frame xs) m d \<longleftrightarrow> d = xs \<and> length xs \<le> m"
  using unstuff_body [of "[]" xs]
  by (auto simp: cobs_accepts_def cobs_frame_def Suc_le_eq)

lemma cobs_accepts_length: "cobs_accepts p m d \<Longrightarrow> length d + 2 \<le> length p"
  using unstuff_length [of "butlast p" d]
  by (cases p rule: rev_cases) (auto simp: cobs_accepts_def Suc_le_eq)

lemma cobs_accepts_zero_free: "cobs_accepts p m d \<Longrightarrow> 0 \<notin> set (butlast p)"
  using unstuff_nonzero [of "butlast p" d] by (auto simp: cobs_accepts_def)

subsection \<open>Properties\<close>

text \<open>C7: on every call whose lengths are the sizes of the buffers or less, the encoder never
  accesses memory outside them. It refuses, writing nothing, when the output has no room for
  the worst case; otherwise it returns the length of the frame and leaves the frame in front of
  the unchanged rest of the output, and the frame is the stuffed form of the input: it contains
  no zero byte but its last, and at most one byte more per 254 bytes, plus two.\<close>

theorem cobs_encode_spec:
  assumes "n \<le> length input" and "m \<le> length out"
  shows "let f = cobs_frame (take n input) in
    cobs_encode input n out m =
      (if m < n + n div 254 + 2 then Some (0, out) else Some (length f, f @ drop (length f) out)) \<and>
    0 \<notin> set (butlast f) \<and> last f = 0 \<and> length f \<le> n + n div 254 + 2"
proof -
  let ?f = "cobs_frame (take n input)"
  have "length ?f \<le> n + n div 254 + 2"
    using length_cobs_frame [of "take n input"] assms by simp
  moreover have "0 \<notin> set (butlast ?f)" "last ?f = 0"
    using zero_notin_cobs_body [of "[]" "take n input"] by (simp_all add: cobs_frame_def)
  moreover have "cobs_encode input n out m =
      (if m < n + n div 254 + 2 then Some (0, out) else Some (length ?f, ?f @ drop (length ?f) out))"
    using assms by (simp add: cobs_encode_too_small cobs_encode_frame)
  ultimately show ?thesis unfolding Let_def by blast
qed

theorem cobs_encode_spec_witness:
  "cobs_encode [1, 0, 2] 3 (replicate 6 9) 6 = Some (5, [2, 1, 2, 2, 0, 9])"
proof -
  have f: "cobs_frame (take 3 [1, 0, 2]) = [2, 1, 2, 2, 0]" by code_simp
  have "drop (length (cobs_frame (take 3 [1, 0, 2]))) (replicate 6 (9 :: u8)) = [9]"
    unfolding f by code_simp
  then show ?thesis
    using cobs_encode_spec [of 3 "[1, 0, 2]" 6 "replicate 6 9"]
    unfolding Let_def f by simp
qed

text \<open>C5: decoding what the encoder wrote gives back the input, for every input (zero bytes and
  blocks of 254 and more included) and every pair of buffers with enough room.\<close>

theorem cobs_round_trip:
  assumes "n \<le> length input" and "n + n div 254 + 2 \<le> m" and "m \<le> length out"
    and "n \<le> m'" and "m' \<le> length out'"
  shows "\<exists>k packet. cobs_encode input n out m = Some (k, packet) \<and> k \<le> m \<and>
    cobs_decode packet k out' m' = Some (n, take n input @ drop n out')"
proof -
  let ?f = "cobs_frame (take n input)"
  let ?p = "?f @ drop (length ?f) out"
  have l: "length ?f \<le> m" using length_cobs_frame [of "take n input"] assms by simp
  have "cobs_decode ?p (length ?f) out' m' = Some (length (take n input), take n input @ drop (length (take n input)) out')"
    using assms by (intro cobs_decode_accepts) simp_all
  then show ?thesis
    using assms l by (intro exI [of _ "length ?f"] exI [of _ ?p]) (simp add: cobs_encode_frame)
qed

theorem cobs_round_trip_witness:
  "\<exists>k packet. cobs_encode (replicate 300 7) 300 (replicate 303 0) 303 = Some (k, packet) \<and> k \<le> 303 \<and>
    cobs_decode packet k (replicate 300 0) 300 = Some (300, take 300 (replicate 300 7) @ drop 300 (replicate 300 0))"
  by (rule cobs_round_trip) simp_all

text \<open>C6: the decoder on arbitrary received bytes, valid or not: it never accesses memory
  outside its buffers, and it returns the data the packet stands for (whose length is the
  returned size) exactly when the packet ends in a zero byte, its blocks fill it without a zero
  byte inside, and the data fits; every other packet gives size zero. A positive result is
  shorter than the packet by two bytes or more.\<close>

theorem cobs_decode_spec:
  assumes "n \<le> length input" and "m \<le> length out"
  shows "\<exists>k out'. cobs_decode input n out m = Some (k, out') \<and> length out' = length out \<and> k \<le> m \<and>
    k \<le> n - 2 \<and>
    (if \<exists>d. cobs_accepts (take n input) m d
     then cobs_accepts (take n input) m (take k out') \<and> drop k out' = drop k out
     else k = 0)"
using assms
proof (cases rule: cobs_decode_cases)
  case (refused o')
  then show ?thesis by auto
next
  case (accepted d)
  then have "length d + 2 \<le> n" "length d \<le> m"
    using cobs_accepts_length [of "take n input" m d] assms by (auto simp: cobs_accepts_def)
  moreover have "cobs_decode input n out m = Some (length d, d @ drop (length d) out)"
    using assms accepted by (intro cobs_decode_accepts)
  ultimately show ?thesis using accepted assms
    by (intro exI [of _ "length d"] exI [of _ "d @ drop (length d) out"]) auto
qed

theorem cobs_decode_spec_witness:
  "\<exists>k out'. cobs_decode [3, 1] 2 [9, 9] 2 = Some (k, out') \<and> k = 0"
  using cobs_decode_spec [of 2 "[3, 1]" 2 "[9, 9]"] by (auto simp: cobs_accepts_def split: if_splits)

end
