(* ===== verification/Circular_Buffer.thy ===== *)
theory Circular_Buffer
  imports Fw_Prelude
begin

text \<open>
  \<^verbatim>\<open>include/util/circular_buffer.hpp\<close>: a ring of 256 bytes with one slot kept free. The contract
  of such a buffer, a bounded FIFO queue, is the locale \<open>bounded_queue\<close>; within it every
  sequence of calls is shown to answer as a list queue of the same capacity does, and the ring
  is an interpretation of it with capacity 255.
\<close>

subsection \<open>The contract\<close>

datatype 'a queue_op = Push 'a | Pop
datatype 'a queue_reply = Pushed bool | Popped "'a option"

text \<open>
  A sequence of calls on an implementation. \<^verbatim>\<open>pop\<close> writes through a reference that keeps its
  old value when the call fails, hence the extra argument.
\<close>

fun queue_run ::
  "('q \<Rightarrow> 'a \<Rightarrow> (bool \<times> 'q) option) \<Rightarrow> ('q \<Rightarrow> 'a \<Rightarrow> (bool \<times> 'a \<times> 'q) option) \<Rightarrow> 'a \<Rightarrow>
   'a queue_op list \<Rightarrow> 'q \<Rightarrow> ('a queue_reply list \<times> 'q) option"
where
  "queue_run push pop old [] q = Some ([], q)"
| "queue_run push pop old (Push x # ops) q = do {
     (ok, q) \<leftarrow> push q x;
     (rs, q) \<leftarrow> queue_run push pop old ops q;
     Some (Pushed ok # rs, q) }"
| "queue_run push pop old (Pop # ops) q = do {
     (ok, x, q) \<leftarrow> pop q old;
     (rs, q) \<leftarrow> queue_run push pop old ops q;
     Some (Popped (if ok then Some x else None) # rs, q) }"

text \<open>The same calls on a list of at most \<open>cap\<close> elements.\<close>

fun list_queue_run :: "nat \<Rightarrow> 'a queue_op list \<Rightarrow> 'a list \<Rightarrow> 'a queue_reply list \<times> 'a list" where
  "list_queue_run cap [] xs = ([], xs)"
| "list_queue_run cap (Push x # ops) xs =
     (if length xs < cap
      then map_prod (Cons (Pushed True)) id (list_queue_run cap ops (xs @ [x]))
      else map_prod (Cons (Pushed False)) id (list_queue_run cap ops xs))"
| "list_queue_run cap (Pop # ops) [] =
     map_prod (Cons (Popped None)) id (list_queue_run cap ops [])"
| "list_queue_run cap (Pop # ops) (x # xs) =
     map_prod (Cons (Popped (Some x))) id (list_queue_run cap ops xs)"

locale bounded_queue =
  fixes push :: "'q \<Rightarrow> 'a \<Rightarrow> (bool \<times> 'q) option"
    and pop :: "'q \<Rightarrow> 'a \<Rightarrow> (bool \<times> 'a \<times> 'q) option"
    and contents :: "'q \<Rightarrow> 'a list"
    and invar :: "'q \<Rightarrow> bool"
    and cap :: nat
  assumes bounded: "invar q \<Longrightarrow> length (contents q) \<le> cap"
    and push_room: "invar q \<Longrightarrow> length (contents q) < cap \<Longrightarrow>
      \<exists>q'. push q x = Some (True, q') \<and> invar q' \<and> contents q' = contents q @ [x]"
    and push_full: "invar q \<Longrightarrow> length (contents q) = cap \<Longrightarrow> push q x = Some (False, q)"
    and pop_empty: "invar q \<Longrightarrow> contents q = [] \<Longrightarrow> pop q old = Some (False, old, q)"
    and pop_next: "invar q \<Longrightarrow> contents q = x # xs \<Longrightarrow>
      \<exists>q'. pop q old = Some (True, x, q') \<and> invar q' \<and> contents q' = xs"
begin

lemma run_refines_list:
  "invar q \<Longrightarrow> \<exists>q'. queue_run push pop old ops q =
      Some (fst (list_queue_run cap ops (contents q)), q') \<and>
    invar q' \<and> contents q' = snd (list_queue_run cap ops (contents q))"
proof (induction ops arbitrary: q)
  case Nil
  then show ?case by simp
next
  case (Cons op ops)
  show ?case
  proof (cases op)
    case (Push x)
    show ?thesis
    proof (cases "length (contents q) < cap")
      case True
      then obtain q1 where "push q x = Some (True, q1)" "invar q1" "contents q1 = contents q @ [x]"
        using push_room Cons.prems by blast
      with True Push Cons.IH [of q1] show ?thesis by auto
    next
      case False
      then have "length (contents q) = cap" using bounded [OF Cons.prems] by simp
      with False Push push_full [OF Cons.prems, of x] Cons.IH [OF Cons.prems] show ?thesis by auto
    qed
  next
    case Pop
    show ?thesis
    proof (cases "contents q")
      case Nil
      with Pop Cons pop_empty [OF Cons.prems Nil] show ?thesis by fastforce
    next
      case (Cons x xs)
      then obtain q1 where "pop q old = Some (True, x, q1)" "invar q1" "contents q1 = xs"
        using pop_next \<open>invar q\<close> by blast
      with Cons Pop Cons.IH [of q1] show ?thesis by auto
    qed
  qed
qed

end

subsection \<open>The code\<close>

definition SIZE :: nat where
  "SIZE = 256"

record circular_buffer =
  cb_data :: buf
  cb_head :: nat
  cb_tail :: nat

text \<open>A new object: the indices are initialised, the bytes are not.\<close>

definition cb_new :: "(nat \<Rightarrow> u8) \<Rightarrow> circular_buffer" where
  "cb_new junk = \<lparr>cb_data = uninit junk SIZE, cb_head = 0, cb_tail = 0\<rparr>"

definition cb_push :: "circular_buffer \<Rightarrow> u8 \<Rightarrow> (bool \<times> circular_buffer) option" where
  "cb_push q byte =
     (let next = (cb_head q + 1) mod SIZE in
      if next = cb_tail q then Some (False, q)
      else do {
        d \<leftarrow> wr8 (cb_data q) (cb_head q) byte;
        Some (True, q\<lparr>cb_data := d, cb_head := next\<rparr>) })"

definition cb_pop :: "circular_buffer \<Rightarrow> u8 \<Rightarrow> (bool \<times> u8 \<times> circular_buffer) option" where
  "cb_pop q byte =
     (if cb_head q = cb_tail q then Some (False, byte, q)
      else do {
        byte \<leftarrow> rd8 (cb_data q) (cb_tail q);
        Some (True, byte, q\<lparr>cb_tail := (cb_tail q + 1) mod SIZE\<rparr>) })"

subsection \<open>The ring is a bounded queue\<close>

definition cb_inv :: "circular_buffer \<Rightarrow> bool" where
  "cb_inv q \<longleftrightarrow> length (cb_data q) = SIZE \<and> cb_head q < SIZE \<and> cb_tail q < SIZE"

definition cb_count :: "circular_buffer \<Rightarrow> nat" where
  "cb_count q = (cb_head q + SIZE - cb_tail q) mod SIZE"

definition cb_contents :: "circular_buffer \<Rightarrow> buf" where
  "cb_contents q = map (\<lambda>i. cb_data q ! ((cb_tail q + i) mod SIZE)) [0..<cb_count q]"

lemma length_cb_contents [simp]: "length (cb_contents q) = cb_count q"
  by (simp add: cb_contents_def)

text \<open>The arithmetic of two indices in a ring.\<close>

lemma ring_count:
  "h < SIZE \<Longrightarrow> t < SIZE \<Longrightarrow>
   (h + SIZE - t) mod SIZE = (if t \<le> h then h - t else h + SIZE - t)"
  by (auto simp: SIZE_def mod_if)

lemma ring_succ: "h < SIZE \<Longrightarrow> (h + 1) mod SIZE = (if h = 255 then 0 else h + 1)"
  by (auto simp: SIZE_def)

lemma ring_index:
  "t < SIZE \<Longrightarrow> i < SIZE \<Longrightarrow> (t + i) mod SIZE = (if t + i < SIZE then t + i else t + i - SIZE)"
  by (auto simp: SIZE_def mod_if)

lemma cb_count_alt:
  "cb_inv q \<Longrightarrow> cb_count q =
    (if cb_tail q \<le> cb_head q then cb_head q - cb_tail q else cb_head q + SIZE - cb_tail q)"
  by (simp only: cb_inv_def cb_count_def ring_count)

lemma cb_count_bound: "cb_inv q \<Longrightarrow> cb_count q \<le> 255"
  by (simp add: cb_count_alt) (auto simp: cb_inv_def SIZE_def)

lemma cb_full_iff: "cb_inv q \<Longrightarrow> (cb_head q + 1) mod SIZE = cb_tail q \<longleftrightarrow> cb_count q = 255"
  unfolding cb_inv_def cb_count_def by (simp only: ring_count ring_succ) (auto simp: SIZE_def)

lemma cb_empty_iff: "cb_inv q \<Longrightarrow> cb_head q = cb_tail q \<longleftrightarrow> cb_count q = 0"
  unfolding cb_inv_def cb_count_def by (simp only: ring_count) (auto simp: SIZE_def)

text \<open>The slot of the \<open>i\<close>-th queued byte, without the division.\<close>

lemma cb_slot:
  "cb_inv q \<Longrightarrow> i \<le> cb_count q \<Longrightarrow> (cb_tail q + i) mod SIZE =
     (if cb_tail q + i < SIZE then cb_tail q + i else cb_tail q + i - SIZE)"
  using cb_count_bound [of q] by (intro ring_index) (auto simp: cb_inv_def SIZE_def)

lemma cb_slot_head:
  assumes "cb_inv q" and "i \<le> cb_count q"
  shows "(cb_tail q + i) mod SIZE = cb_head q \<longleftrightarrow> i = cb_count q"
  using assms unfolding cb_slot [OF assms] by (auto simp: cb_count_alt cb_inv_def split: if_splits)

lemma cb_push_room:
  assumes "cb_inv q" and "cb_count q < 255"
  shows "\<exists>q'. cb_push q x = Some (True, q') \<and> cb_inv q' \<and> cb_contents q' = cb_contents q @ [x]"
proof -
  let ?q = "q\<lparr>cb_data := (cb_data q)[cb_head q := x], cb_head := (cb_head q + 1) mod SIZE\<rparr>"
  have push: "cb_push q x = Some (True, ?q)"
    using assms cb_full_iff [of q] by (auto simp: cb_push_def Let_def cb_inv_def)
  have inv: "cb_inv ?q" using assms by (simp add: cb_inv_def SIZE_def)
  have count: "cb_count ?q = Suc (cb_count q)"
    unfolding cb_count_alt [OF inv] using assms ring_succ [of "cb_head q"]
    by (simp add: cb_count_alt) (auto simp: cb_inv_def SIZE_def split: if_splits)
  have slot: "(cb_tail q + i) mod SIZE = cb_head q \<longleftrightarrow> i = cb_count q" if "i \<le> cb_count q" for i
    using assms(1) that by (rule cb_slot_head)
  then have last: "(cb_tail q + cb_count q) mod SIZE = cb_head q"
    and old: "\<And>i. i < cb_count q \<Longrightarrow> cb_head q \<noteq> (cb_tail q + i) mod SIZE"
    by (metis order_refl, metis less_imp_le_nat nat_neq_iff)
  have "cb_contents ?q = cb_contents q @ [x]"
    unfolding cb_contents_def count using last old assms by (auto simp: cb_inv_def)
  with push inv show ?thesis by blast
qed

lemma cb_pop_next:
  assumes "cb_inv q" and "cb_contents q = x # xs"
  shows "\<exists>q'. cb_pop q old = Some (True, x, q') \<and> cb_inv q' \<and> cb_contents q' = xs"
proof -
  let ?q = "q\<lparr>cb_tail := (cb_tail q + 1) mod SIZE\<rparr>"
  have ne: "cb_count q \<noteq> 0" using assms(2) by (metis length_0_conv length_cb_contents list.distinct(1))
  then obtain n where n: "cb_count q = Suc n" by (cases "cb_count q") auto
  have "[0..<Suc n] = 0 # map Suc [0..<n]" by (metis map_Suc_upt upt_conv_Cons zero_less_Suc)
  then have c: "cb_contents q = cb_data q ! (cb_tail q mod SIZE) #
      map (\<lambda>i. cb_data q ! ((cb_tail q + Suc i) mod SIZE)) [0..<n]"
    unfolding cb_contents_def n by (simp add: comp_def)
  have t: "cb_tail q mod SIZE = cb_tail q" using assms by (simp add: cb_inv_def)
  have pop: "cb_pop q old = Some (True, x, ?q)"
    using assms ne c t cb_empty_iff [of q] by (auto simp: cb_pop_def cb_inv_def)
  have inv: "cb_inv ?q" using assms by (simp add: cb_inv_def SIZE_def)
  have "cb_count ?q = n"
  proof -
    have tail: "(cb_tail q + 1) mod SIZE = (if cb_tail q = 255 then 0 else cb_tail q + 1)"
      using assms(1) by (intro ring_succ) (simp add: cb_inv_def)
    have "cb_count ?q = (if (cb_tail q + 1) mod SIZE \<le> cb_head q
        then cb_head q - (cb_tail q + 1) mod SIZE
        else cb_head q + SIZE - (cb_tail q + 1) mod SIZE)"
      using cb_count_alt [OF inv] by simp
    moreover have "cb_tail q < 256" "cb_head q < 256"
      using assms(1) by (simp_all add: cb_inv_def SIZE_def)
    moreover have "(if cb_tail q \<le> cb_head q then cb_head q - cb_tail q
        else cb_head q + 256 - cb_tail q) = Suc n"
      using n cb_count_alt [OF assms(1), unfolded SIZE_def] by simp
    ultimately show ?thesis
      unfolding tail by (auto simp: SIZE_def split: if_splits)
  qed
  moreover have "((cb_tail q + 1) mod SIZE + i) mod SIZE = (cb_tail q + Suc i) mod SIZE" for i
    by (simp add: mod_add_left_eq)
  ultimately have "cb_contents ?q = xs"
    using assms(2) c by (simp add: cb_contents_def)
  with pop inv show ?thesis by blast
qed

interpretation ring: bounded_queue cb_push cb_pop cb_contents cb_inv 255
proof
  fix q x y xs and old :: u8
  assume q: "cb_inv q"
  show "length (cb_contents q) \<le> 255"
    using q by (simp add: cb_count_bound)
  show "\<exists>q'. cb_push q x = Some (True, q') \<and> cb_inv q' \<and> cb_contents q' = cb_contents q @ [x]"
    if "length (cb_contents q) < 255"
    using q that by (simp add: cb_push_room)
  show "cb_push q x = Some (False, q)" if "length (cb_contents q) = 255"
    using q that cb_full_iff [OF q] by (simp add: cb_push_def)
  show "cb_pop q old = Some (False, old, q)" if "cb_contents q = []"
    using q that cb_empty_iff [OF q] length_cb_contents [of q] by (simp add: cb_pop_def)
  show "\<exists>q'. cb_pop q old = Some (True, y, q') \<and> cb_inv q' \<and> cb_contents q' = xs"
    if "cb_contents q = y # xs"
    using q that by (rule cb_pop_next)
qed

lemma cb_inv_new: "cb_inv (cb_new junk)" and cb_contents_new: "cb_contents (cb_new junk) = []"
  by (simp_all add: cb_inv_def cb_new_def cb_contents_def cb_count_def SIZE_def)

text \<open>C26: from a new ring, every sequence of pushes and pops answers exactly as a list queue of
  capacity 255 does: first in, first out, a push refused only at 255 bytes, a pop refused only
  when empty, and no access outside the array.\<close>

theorem ring_is_bounded_fifo:
  "\<exists>q. queue_run cb_push cb_pop old ops (cb_new junk) =
         Some (fst (list_queue_run 255 ops []), q) \<and>
       cb_contents q = snd (list_queue_run 255 ops [])"
  using ring.run_refines_list [OF cb_inv_new, of old ops junk] by (auto simp: cb_contents_new)

end
