(* ===== verification/Hal.thy ===== *)
theory Hal
  imports Fw_Prelude
begin

text \<open>
  The hardware-abstraction interfaces of \<^verbatim>\<open>include/hal\<close>. A pure virtual class is a record of
  its methods over the state \<open>'s\<close> behind the reference (the concrete object and the hardware it
  drives); a driver takes the record as its injected dependency. Every method returns the new
  state, and \<open>None\<close> where the call has no defined result: it never returns, or it accesses
  memory outside a buffer. A \<^verbatim>\<open>std::size_t&\<close> or an output buffer is an argument and a result.

  The locales state what the drivers rely on: \<open>spi_device\<close> (every call returns and keeps the
  receive buffer's size), \<open>spi_infallible\<close> (it also reports success), \<open>spi_selecting\<close> (it tracks
  the chip select), and \<open>rs485_line\<close> for the byte stream under the RS-485 protocol.
\<close>

subsection \<open>Status codes\<close>

text \<open>\<^verbatim>\<open>hal::Status\<close>, \<^verbatim>\<open>ISpi::Status\<close> and \<^verbatim>\<open>II2c::Status\<close>.\<close>

datatype status = St_OK | St_TIMEOUT | St_BUFFER_FULL | St_BUFFER_EMPTY | St_FRAMING_ERROR | St_HW_ERROR

datatype spi_status = Spi_OK | Spi_TIMEOUT | Spi_HW_ERROR | Spi_BUSY

datatype i2c_status = I2c_OK | I2c_TIMEOUT | I2c_HW_ERROR | I2c_NACK

subsection \<open>Interfaces\<close>

text \<open>\<^verbatim>\<open>IUart::BaudRate\<close>.\<close>

datatype baud_rate = BAUD_9600 | BAUD_19200 | BAUD_57600 | BAUD_115200 | BAUD_230400

record 's uart_dev =
  uart_init :: "baud_rate \<Rightarrow> 's \<Rightarrow> (status \<times> 's) option"
  uart_transmit :: "buf option \<Rightarrow> nat \<Rightarrow> u32 \<Rightarrow> 's \<Rightarrow> (status \<times> 's) option"
  uart_receive :: "buf option \<Rightarrow> nat \<Rightarrow> u32 \<Rightarrow> 's \<Rightarrow> (status \<times> buf \<times> 's) option"
  uart_bytes_available :: "'s \<Rightarrow> nat"

record 's spi_dev =
  spi_init :: "u32 \<Rightarrow> u8 \<Rightarrow> 's \<Rightarrow> (spi_status \<times> 's) option"
  spi_transfer :: "buf option \<Rightarrow> buf option \<Rightarrow> nat \<Rightarrow> u32 \<Rightarrow> 's \<Rightarrow> (spi_status \<times> buf \<times> 's) option"
  spi_select :: "u8 \<Rightarrow> 's \<Rightarrow> (spi_status \<times> 's) option"
  spi_deselect :: "u8 \<Rightarrow> 's \<Rightarrow> (spi_status \<times> 's) option"

record 's i2c_dev =
  i2c_init :: "u32 \<Rightarrow> 's \<Rightarrow> (i2c_status \<times> 's) option"
  i2c_write :: "u8 \<Rightarrow> buf option \<Rightarrow> nat \<Rightarrow> 's \<Rightarrow> (i2c_status \<times> 's) option"
  i2c_write_read :: "u8 \<Rightarrow> buf option \<Rightarrow> nat \<Rightarrow> buf option \<Rightarrow> nat \<Rightarrow> 's \<Rightarrow>
    (i2c_status \<times> buf \<times> 's) option"

record 's rs485_dev =
  rs_init :: "u32 \<Rightarrow> 's \<Rightarrow> (status \<times> 's) option"
  rs_send :: "buf option \<Rightarrow> nat \<Rightarrow> u32 \<Rightarrow> 's \<Rightarrow> (status \<times> 's) option"
  rs_recv :: "buf option \<Rightarrow> nat \<Rightarrow> u32 \<Rightarrow> 's \<Rightarrow> (status \<times> buf \<times> nat \<times> 's) option"

subsection \<open>Contracts\<close>

locale spi_device =
  fixes dev :: "'s spi_dev"
    and ready :: "'s \<Rightarrow> bool"
  assumes select_returns: "ready s \<Longrightarrow> \<exists>st s'. spi_select dev i s = Some (st, s') \<and> ready s'"
    and deselect_returns: "ready s \<Longrightarrow> \<exists>st s'. spi_deselect dev i s = Some (st, s') \<and> ready s'"
    and transfer_returns: "ready s \<Longrightarrow> n \<le> length tx \<Longrightarrow> n \<le> length rx \<Longrightarrow> n < 2 ^ 32 \<Longrightarrow> t = 100 \<Longrightarrow>
      \<exists>st rx' s'. spi_transfer dev (Some tx) (Some rx) n t s = Some (st, rx', s') \<and>
        length rx' = length rx \<and> ready s'"

locale spi_infallible = spi_device +
  assumes select_ok: "ready s \<Longrightarrow> spi_select dev i s = Some (st, s') \<Longrightarrow> st = Spi_OK"
    and transfer_ok: "ready s \<Longrightarrow> n \<le> length tx \<Longrightarrow> n \<le> length rx \<Longrightarrow> n < 2 ^ 32 \<Longrightarrow>
      spi_transfer dev (Some tx) (Some rx) n 100 s = Some (st, rx', s') \<Longrightarrow> st = Spi_OK"

locale spi_selecting = spi_device +
  fixes selected :: "'s \<Rightarrow> bool"
  assumes deselect_clears: "ready s \<Longrightarrow> spi_deselect dev i s = Some (st, s') \<Longrightarrow> \<not> selected s'"
    and select_sets: "ready s \<Longrightarrow> spi_select dev i s = Some (Spi_OK, s') \<Longrightarrow> selected s'"
    and select_fails: "ready s \<Longrightarrow> spi_select dev i s = Some (st, s') \<Longrightarrow> st \<noteq> Spi_OK \<Longrightarrow>
      selected s' = selected s"

text \<open>
  A half-duplex byte line with something at the other end: \<open>sent s\<close> are the bytes the port has
  put on the line, \<open>taken s\<close> counts the bytes it has handed to the driver, and \<open>peer xs\<close> is
  everything that arrives once \<open>xs\<close> has been sent: answers, damaged answers, noise or nothing,
  as long as what has arrived is not taken back. A driver that asks for a byte when all of
  them are taken gets an error status.
\<close>

locale rs485_line =
  fixes dev :: "'s rs485_dev"
    and ready :: "'s \<Rightarrow> bool"
    and sent :: "'s \<Rightarrow> buf"
    and taken :: "'s \<Rightarrow> nat"
    and peer :: "buf \<Rightarrow> buf"
  assumes peer_grows: "\<exists>zs. peer (xs @ ys) = peer xs @ zs"
    and taken_bound: "ready s \<Longrightarrow> taken s \<le> length (peer (sent s))"
    and recv_byte: "ready s \<Longrightarrow> taken s < length (peer (sent s)) \<Longrightarrow> t = 10 \<or> t = 100 \<Longrightarrow>
      \<exists>s'. rs_recv dev (Some [j]) 1 t s = Some (St_OK, [peer (sent s) ! taken s], 1, s') \<and>
        ready s' \<and> sent s' = sent s \<and> taken s' = Suc (taken s)"
    and recv_silent: "ready s \<Longrightarrow> length (peer (sent s)) \<le> taken s \<Longrightarrow> t = 10 \<or> t = 100 \<Longrightarrow>
      \<exists>st bs n s'. rs_recv dev (Some [j]) 1 t s = Some (st, bs, n, s') \<and> st \<noteq> St_OK \<and>
        ready s' \<and> sent s' = sent s \<and> taken s' = taken s"
    and send_all: "ready s \<Longrightarrow> 0 < n \<Longrightarrow> n \<le> length d \<Longrightarrow>
      \<exists>s'. rs_send dev (Some d) n 100 s = Some (St_OK, s') \<and>
        ready s' \<and> sent s' = sent s @ take n d \<and> taken s' = taken s"

subsection \<open>Machines that answer bytes\<close>

text \<open>Everything a byte-driven machine answers to a sequence of bytes, and its state afterwards.\<close>

fun machine_out :: "('m \<Rightarrow> u8 \<Rightarrow> buf \<times> 'm) \<Rightarrow> 'm \<Rightarrow> buf \<Rightarrow> buf" where
  "machine_out step m [] = []"
| "machine_out step m (b # bs) = fst (step m b) @ machine_out step (snd (step m b)) bs"

fun machine_end :: "('m \<Rightarrow> u8 \<Rightarrow> buf \<times> 'm) \<Rightarrow> 'm \<Rightarrow> buf \<Rightarrow> 'm" where
  "machine_end step m [] = m"
| "machine_end step m (b # bs) = machine_end step (snd (step m b)) bs"

lemma machine_out_append:
  "machine_out step m (xs @ ys) = machine_out step m xs @ machine_out step (machine_end step m xs) ys"
  by (induction xs arbitrary: m) simp_all

end
