(* ===== verification/Telemetry.thy ===== *)
theory Telemetry
  imports Hal Crc16
begin

text \<open>
  \<^verbatim>\<open>src/drivers/telemetry_protocol.cpp\<close>: frames \<open>[SOF, LEN, PAYLOAD, CRC-HI, CRC-LO]\<close> over an
  injected UART. The frame buffer is zero-initialised in the code (\<^verbatim>\<open>frame{}\<close>). The lemmas give
  the bytes on the wire, show that the 68-byte buffer is never overrun, and that a receiver
  which recomputes the checksum accepts a frame and rejects one damaged by a short burst.
\<close>

definition TEL_MAX_PAYLOAD :: nat where
  "TEL_MAX_PAYLOAD = 64"

definition TEL_SOF :: u8 where
  "TEL_SOF = 0xAA"

record telemetry =
  tel_initialized :: bool

definition tel_new :: telemetry where
  "tel_new = \<lparr>tel_initialized = False\<rparr>"

definition tel_init :: "'s uart_dev \<Rightarrow> telemetry \<Rightarrow> 's \<Rightarrow> (bool \<times> telemetry \<times> 's) option" where
  "tel_init uart p s = do {
     (st, s) \<leftarrow> uart_init uart BAUD_115200 s;
     let p = p\<lparr>tel_initialized := (st = St_OK)\<rparr>;
     Some (tel_initialized p, p, s) }"

text \<open>\<^verbatim>\<open>for (i = 0; i < len; i++) frame[2 + i] = payload[i]\<close>.\<close>

function tel_copy :: "buf \<Rightarrow> nat \<Rightarrow> nat \<Rightarrow> buf \<Rightarrow> buf option" where
  "tel_copy payload len i frame =
     (if i < len
      then do {
        x \<leftarrow> rd8 payload i;
        frame \<leftarrow> wr8 frame (2 + i) x;
        tel_copy payload len (Suc i) frame }
      else Some frame)"
  by pat_completeness auto
termination
  by (relation "measure (\<lambda>(payload, len, i, frame). len - i)") auto

declare tel_copy.simps [simp del]

definition tel_send_frame ::
  "'s uart_dev \<Rightarrow> buf option \<Rightarrow> nat \<Rightarrow> telemetry \<Rightarrow> 's \<Rightarrow> (bool \<times> 's) option"
where
  "tel_send_frame uart payload len p s =
     (if \<not> tel_initialized p then Some (False, s)
      else if TEL_MAX_PAYLOAD < len then Some (False, s)
      else if 0 < len \<and> payload = None then Some (False, s)
      else do {
        let frame = replicate 68 (0 :: u8);
        let frame_len = 1 + 1 + len + 2;
        frame \<leftarrow> wr8 frame 0 TEL_SOF;
        frame \<leftarrow> wr8 frame 1 (of_nat len);
        frame \<leftarrow> (case payload of None \<Rightarrow> Some frame | Some pl \<Rightarrow> tel_copy pl len 0 frame);
        crc \<leftarrow> crc16_ccitt (Some (drop 1 frame)) (1 + len);
        frame \<leftarrow> wr8 frame (2 + len) (hi8 crc);
        frame \<leftarrow> wr8 frame (3 + len) (lo8 crc);
        (st, s) \<leftarrow> uart_transmit uart (Some frame) frame_len 1000 s;
        Some (st = St_OK, s) })"

subsection \<open>The bytes on the wire\<close>

definition tel_body :: "buf \<Rightarrow> buf" where
  "tel_body pl = of_nat (length pl) # pl"

definition tel_frame :: "buf \<Rightarrow> buf" where
  "tel_frame pl = (let c = crc_list 0xFFFF (tel_body pl) in TEL_SOF # tel_body pl @ [hi8 c, lo8 c])"

lemma tel_copy_result:
  "len \<le> length pl \<Longrightarrow> len + 2 \<le> length frame \<Longrightarrow> i \<le> len \<Longrightarrow>
   tel_copy pl len i frame =
     Some (take (2 + i) frame @ take (len - i) (drop i pl) @ drop (2 + len) frame)"
proof (induction pl len i frame rule: tel_copy.induct)
  case (1 pl len i frame)
  show ?case
  proof (cases "i < len")
    case True
    let ?f = "frame[2 + i := pl ! i]"
    have "tel_copy pl len i frame = tel_copy pl len (Suc i) ?f"
      using True "1.prems" by (subst tel_copy.simps) simp
    moreover have "take (2 + Suc i) ?f = take (2 + i) frame @ [pl ! i]"
      using True "1.prems" take_update_last [of "2 + i" frame] by simp
    ultimately show ?thesis
      using "1.IH" [of "pl ! i" ?f] True "1.prems" by (simp add: take_diff_drop)
  next
    case False
    then show ?thesis using "1.prems" by (subst tel_copy.simps) simp
  qed
qed

text \<open>The 68-byte array handed to the UART: the frame, then the rest of the zeros.\<close>

text \<open>The payload bytes a call names: none for a null pointer.\<close>

definition tel_data :: "buf option \<Rightarrow> nat \<Rightarrow> buf" where
  "tel_data payload len = (case payload of None \<Rightarrow> [] | Some pl \<Rightarrow> take len pl)"

definition tel_readable :: "buf option \<Rightarrow> nat \<Rightarrow> bool" where
  "tel_readable payload len = (case payload of None \<Rightarrow> len = 0 | Some pl \<Rightarrow> len \<le> length pl)"

lemma length_tel_data: "tel_readable payload len \<Longrightarrow> length (tel_data payload len) = len"
  by (auto simp: tel_readable_def tel_data_def split: option.splits)

text \<open>The 68-byte array handed to the UART: the frame, then the rest of the zeros.\<close>

lemma tel_send_frame_eq:
  assumes "tel_initialized p" and len: "len \<le> 64" and readable: "tel_readable payload len"
  shows "tel_send_frame uart payload len p s = do {
      (st, s) \<leftarrow> uart_transmit uart
                  (Some (tel_frame (tel_data payload len) @ replicate (64 - len) 0)) (len + 4) 1000 s;
      Some (st = St_OK, s) }"
proof -
  define pl where "pl = tel_data payload len"
  have n: "length pl = len" using readable by (simp add: pl_def length_tel_data)
  let ?b = "of_nat len # pl"
  let ?c = "crc_list 0xFFFF ?b"
  have z: "replicate 68 (0 :: u8) = 0 # 0 # replicate 66 0"
    using replicate_add [of 2 66 "0 :: u8"] by (simp add: numeral_2_eq_2)
  have init: "wr8 (replicate 68 0) 0 TEL_SOF = Some (TEL_SOF # 0 # replicate 66 0)"
    "wr8 (TEL_SOF # 0 # replicate 66 0) 1 (of_nat len) = Some (TEL_SOF # of_nat len # replicate 66 0)"
    by (simp_all add: z)
  have null: "0 < len \<and> payload = None \<longleftrightarrow> False"
    using readable by (auto simp: tel_readable_def)
  have copy: "(case payload of None \<Rightarrow> Some (TEL_SOF # of_nat len # replicate 66 0)
      | Some d \<Rightarrow> tel_copy d len 0 (TEL_SOF # of_nat len # replicate 66 0)) =
      Some (TEL_SOF # ?b @ replicate (66 - len) 0)"
    using len readable
    by (auto simp: pl_def tel_data_def tel_readable_def tel_copy_result split: option.splits)
  have crc: "crc16_ccitt (Some (drop 1 (TEL_SOF # ?b @ replicate (66 - len) 0))) (1 + len) = Some ?c"
    by (subst crc16_ccitt_list) (simp_all add: n)
  have r: "replicate (66 - len) (0 :: u8) = 0 # 0 # replicate (64 - len) 0"
    using len by (simp flip: replicate_Suc add: Suc_diff_le)
  have hi: "wr8 (TEL_SOF # ?b @ replicate (66 - len) 0) (2 + len) (hi8 ?c) =
      Some (TEL_SOF # ?b @ hi8 ?c # 0 # replicate (64 - len) 0)"
    unfolding r by (simp add: list_update_append n)
  have lo: "wr8 (TEL_SOF # ?b @ hi8 ?c # 0 # replicate (64 - len) 0) (3 + len) (lo8 ?c) =
      Some (TEL_SOF # ?b @ hi8 ?c # lo8 ?c # replicate (64 - len) 0)"
    by (simp add: list_update_append numeral_3_eq_3 n)
  have e: "1 + 1 + len + 2 = len + 4" by simp
  show ?thesis
    unfolding tel_send_frame_def TEL_MAX_PAYLOAD_def Let_def option.case e null
    using assms(1,2)
    by (simp only: init copy crc hi lo Option.bind.simps if_False simp_thms not_le not_less)
       (simp add: tel_frame_def tel_body_def n Let_def flip: pl_def)
qed

lemma tel_send_frame_refused:
  assumes "\<not> tel_initialized p \<or> 64 < len \<or> 0 < len \<and> payload = None"
  shows "tel_send_frame uart payload len p s = Some (False, s)"
  using assms by (auto simp: tel_send_frame_def TEL_MAX_PAYLOAD_def)

lemma tel_frame_residue: "crc_list 0xFFFF (tl (tel_frame pl)) = 0"
  by (simp add: tel_frame_def Let_def crc_list_own_checksum [simplified] del: crc_list_simps(2))
     (metis crc_list_own_checksum crc_list_simps(3))

text \<open>C30: what \<^verbatim>\<open>send_frame\<close> does on every call whose payload is readable: it refuses, without
  touching the UART, before initialisation, above 64 bytes, and on a null pointer with a
  non-zero length; otherwise it transmits SOF, the length, the payload and the big-endian
  CRC-16 of length and payload in one call, and reports whether the UART accepted it. It never
  accesses memory outside its buffers.\<close>

theorem telemetry_send_frame:
  assumes "payload \<noteq> None \<Longrightarrow> len \<le> length (the payload)"
  shows "tel_send_frame uart payload len p s =
    (if \<not> tel_initialized p \<or> 64 < len \<or> 0 < len \<and> payload = None then Some (False, s)
     else do {
       (st, s) \<leftarrow> uart_transmit uart
          (Some (tel_frame (tel_data payload len) @ replicate (64 - len) 0)) (len + 4) 1000 s;
       Some (st = St_OK, s) })"
proof (cases "\<not> tel_initialized p \<or> 64 < len \<or> 0 < len \<and> payload = None")
  case True
  then show ?thesis by (simp add: tel_send_frame_refused)
next
  case False
  moreover from False have "tel_readable payload len"
    using assms by (cases payload) (auto simp: tel_readable_def)
  ultimately show ?thesis by (subst tel_send_frame_eq) auto
qed

theorem telemetry_send_frame_witness:
  "tel_send_frame \<lparr>uart_init = (\<lambda>_ s. Some (St_OK, s)),
       uart_transmit = (\<lambda>d n _ s. Some (St_OK, s @ take n (the d))),
       uart_receive = (\<lambda>_ _ _ _. None), uart_bytes_available = (\<lambda>_. 0)\<rparr>
     (Some [1, 2, 3]) 3 \<lparr>tel_initialized = True\<rparr> [] =
   Some (True, [0xAA, 3, 1, 2, 3, 0x7E, 0x2D])"
  by (subst telemetry_send_frame) (simp, code_simp)

text \<open>A receiver that runs the code's checksum over everything it received after SOF gets zero
  for a frame as sent, and not zero when the frame was damaged inside at most sixteen
  consecutive bits: the bits of the frame and of the received bytes agree around the windows
  \<open>v\<close> and \<open>v'\<close>.\<close>

theorem telemetry_frame_error_detection:
  assumes "concat (map bits_msb (tl (tel_frame pl))) = pre @ v @ post"
    and "concat (map bits_msb received) = pre @ v' @ post"
    and "length v' = length v" and "length v \<le> 16"
  shows "crc16_ccitt (Some received) (length received) = Some 0 \<longleftrightarrow> v' = v"
proof -
  have ok: "foldl crc_serial 0xFFFF (pre @ v @ post) = 0"
    using tel_frame_residue [of pl] assms(1) by (simp only: crc_list_serial)
  have "crc16_ccitt (Some received) (length received) = Some (foldl crc_serial 0xFFFF (pre @ v' @ post))"
    using assms(2) by (simp only: crc16_ccitt_list order_refl take_all crc_list_serial)
  then show ?thesis
    using crc_serial_burst [of v' v "0xFFFF" pre post] assms(3,4) ok by (metis option.inject)
qed

theorem telemetry_frame_error_detection_witness:
  "crc16_ccitt (Some (0x80 # tl (tl (tel_frame [])))) (length (0x80 # tl (tl (tel_frame [])))) \<noteq> Some 0"
proof -
  let ?bits = "concat (map bits_msb (tl (tel_frame [])))"
  have b: "?bits = [] @ [False] @ tl ?bits" by code_simp
  have r: "concat (map bits_msb (0x80 # tl (tl (tel_frame [])))) = [] @ [True] @ tl ?bits" by code_simp
  show ?thesis using telemetry_frame_error_detection [OF b r] by simp
qed

end
