(* ===== verification/Mcp2515.thy ===== *)
theory Mcp2515
  imports Hal
begin

text \<open>
  \<^verbatim>\<open>src/drivers/mcp2515.hpp\<close> and \<^verbatim>\<open>mcp2515.cpp\<close>: the CAN controller driver over an injected SPI
  device. Every method is one definition with its early returns; the polling loop of
  \<^verbatim>\<open>set_mode\<close> carries the number of attempts that are left. The lemmas give the instruction
  bytes of each method, the encoding of identifiers and payloads and its inverse, the bounds
  of a received frame, the start-up delay, and, inside the SPI contracts, that every method
  returns and leaves the chip deselected.
\<close>

datatype mode = NORMAL | SLEEP | LOOPBACK | LISTEN_ONLY | CONFIG

fun mode_code :: "mode \<Rightarrow> u8" where
  "mode_code NORMAL = 0"
| "mode_code SLEEP = 1"
| "mode_code LOOPBACK = 2"
| "mode_code LISTEN_ONLY = 3"
| "mode_code CONFIG = 4"

record frame =
  f_id :: u16
  f_dlc :: u8
  f_data :: buf

definition frame_new :: frame where
  "frame_new = \<lparr>f_id = 0, f_dlc = 0, f_data = replicate 8 0\<rparr>"

definition SPI_TIMEOUT_MS :: u32 where "SPI_TIMEOUT_MS = 100"
definition INSTR_RESET :: u8 where "INSTR_RESET = 0xC0"
definition INSTR_READ :: u8 where "INSTR_READ = 0x03"
definition INSTR_WRITE :: u8 where "INSTR_WRITE = 0x02"
definition INSTR_RTS_TXB0 :: u8 where "INSTR_RTS_TXB0 = 0x81"
definition INSTR_READ_RXB0 :: u8 where "INSTR_READ_RXB0 = 0x90"
definition INSTR_LOAD_TXB0 :: u8 where "INSTR_LOAD_TXB0 = 0x40"
definition REG_CANSTAT :: u8 where "REG_CANSTAT = 0x0E"
definition REG_CANCTRL :: u8 where "REG_CANCTRL = 0x0F"
definition REG_CNF3 :: u8 where "REG_CNF3 = 0x28"
definition REG_CANINTF :: u8 where "REG_CANINTF = 0x2C"

lemmas mcp_const_defs = SPI_TIMEOUT_MS_def INSTR_RESET_def INSTR_READ_def INSTR_WRITE_def
  INSTR_RTS_TXB0_def INSTR_READ_RXB0_def INSTR_LOAD_TXB0_def REG_CANSTAT_def REG_CANCTRL_def
  REG_CNF3_def REG_CANINTF_def

subsection \<open>SPI transactions\<close>

text \<open>
  The sequence every method repeats: select, give up without a transfer if that fails,
  transfer, deselect (its status is ignored), and whether the transfer reported success. The
  results are the success flag and the receive buffer.
\<close>

definition spi_transaction ::
  "'s spi_dev \<Rightarrow> u8 \<Rightarrow> buf \<Rightarrow> buf \<Rightarrow> nat \<Rightarrow> 's \<Rightarrow> (bool \<times> buf \<times> 's) option"
where
  "spi_transaction dev slave tx rx n s = do {
     (st, s) \<leftarrow> spi_select dev slave s;
     if st \<noteq> Spi_OK then Some (False, rx, s)
     else do {
       (st, rx, s) \<leftarrow> spi_transfer dev (Some tx) (Some rx) n SPI_TIMEOUT_MS s;
       (_, s) \<leftarrow> spi_deselect dev slave s;
       Some (st = Spi_OK, rx, s) } }"

definition mcp_reset :: "'s spi_dev \<Rightarrow> u8 \<Rightarrow> 's \<Rightarrow> (bool \<times> 's) option" where
  "mcp_reset dev slave s = do {
     (ok, rx, s) \<leftarrow> spi_transaction dev slave [INSTR_RESET] [0] 1 s;
     Some (ok, s) }"

definition mcp_write_reg :: "'s spi_dev \<Rightarrow> u8 \<Rightarrow> u8 \<Rightarrow> u8 \<Rightarrow> 's \<Rightarrow> (bool \<times> 's) option" where
  "mcp_write_reg dev slave reg v s = do {
     (ok, rx, s) \<leftarrow> spi_transaction dev slave [INSTR_WRITE, reg, v] [0, 0, 0] 3 s;
     Some (ok, s) }"

text \<open>\<^verbatim>\<open>value\<close> is a reference: it keeps its old contents when the call fails.\<close>

definition mcp_read_reg ::
  "'s spi_dev \<Rightarrow> u8 \<Rightarrow> u8 \<Rightarrow> u8 \<Rightarrow> 's \<Rightarrow> (bool \<times> u8 \<times> 's) option"
where
  "mcp_read_reg dev slave reg v s = do {
     (ok, rx, s) \<leftarrow> spi_transaction dev slave [INSTR_READ, reg, 0] [0, 0, 0] 3 s;
     if \<not> ok then Some (False, v, s)
     else do { v \<leftarrow> rd8 rx 2; Some (True, v, s) } }"

text \<open>The polling loop of \<^verbatim>\<open>set_mode\<close>, with \<open>n\<close> attempts left.\<close>

fun mcp_poll_mode :: "'s spi_dev \<Rightarrow> u8 \<Rightarrow> mode \<Rightarrow> nat \<Rightarrow> 's \<Rightarrow> (bool \<times> 's) option" where
  "mcp_poll_mode dev slave m 0 s = Some (False, s)"
| "mcp_poll_mode dev slave m (Suc n) s = do {
     (ok, canstat, s) \<leftarrow> mcp_read_reg dev slave REG_CANSTAT 0 s;
     if \<not> ok then Some (False, s)
     else if drop_bit 5 canstat AND 0x07 = mode_code m then Some (True, s)
     else mcp_poll_mode dev slave m n s }"

definition mcp_set_mode :: "'s spi_dev \<Rightarrow> u8 \<Rightarrow> mode \<Rightarrow> 's \<Rightarrow> (bool \<times> 's) option" where
  "mcp_set_mode dev slave m s = do {
     (ok, canctrl, s) \<leftarrow> mcp_read_reg dev slave REG_CANCTRL 0 s;
     if \<not> ok then Some (False, s)
     else do {
       let canctrl = (canctrl AND 0x1F) OR push_bit 5 (mode_code m);
       (ok, s) \<leftarrow> mcp_write_reg dev slave REG_CANCTRL canctrl s;
       if \<not> ok then Some (False, s)
       else mcp_poll_mode dev slave m 1000 s } }"

text \<open>The oscillator start-up wait, computed in 64 bits and cut to 32.\<close>

definition mcp_ost_us :: "u32 \<Rightarrow> u32" where
  "mcp_ost_us osc = ucast ((128 * 1000000 + (ucast osc :: u64) - 1) div ucast osc)"

text \<open>\<^verbatim>\<open>delay_us\<close> is a function of the caller and may change the state.\<close>

definition mcp_init ::
  "'s spi_dev \<Rightarrow> u8 \<Rightarrow> (u32 \<Rightarrow> 's \<Rightarrow> 's) \<Rightarrow> u8 \<Rightarrow> u8 \<Rightarrow> u8 \<Rightarrow> mode \<Rightarrow> u32 \<Rightarrow> 's \<Rightarrow> (bool \<times> 's) option"
where
  "mcp_init dev slave delay_us cnf1 cnf2 cnf3 m osc s = do {
     (ok, s) \<leftarrow> mcp_reset dev slave s;
     if \<not> ok then Some (False, s)
     else if osc = 0 then Some (False, s)
     else do {
       let s = delay_us (mcp_ost_us osc) s;
       (ok, s) \<leftarrow> mcp_write_reg dev slave REG_CNF3 cnf3 s;
       if \<not> ok then Some (False, s) else do {
       (ok, s) \<leftarrow> mcp_write_reg dev slave (REG_CNF3 + 1) cnf2 s;
       if \<not> ok then Some (False, s) else do {
       (ok, s) \<leftarrow> mcp_write_reg dev slave (REG_CNF3 + 2) cnf1 s;
       if \<not> ok then Some (False, s)
       else mcp_set_mode dev slave m s } } } }"

subsection \<open>Sending and receiving\<close>

text \<open>\<^verbatim>\<open>for (uint8_t i = 0; i < frame.dlc; i++) tx[6 + i] = frame.data[i]\<close>.\<close>

function mcp_load_data :: "buf \<Rightarrow> nat \<Rightarrow> nat \<Rightarrow> buf \<Rightarrow> buf option" where
  "mcp_load_data d dlc i tx =
     (if i < dlc
      then do { x \<leftarrow> rd8 d i; tx \<leftarrow> wr8 tx (6 + i) x; mcp_load_data d dlc (Suc i) tx }
      else Some tx)"
  by pat_completeness auto
termination
  by (relation "measure (\<lambda>(d, dlc, i, tx). dlc - i)") auto

declare mcp_load_data.simps [simp del]

definition mcp_tx_buffer :: "frame \<Rightarrow> buf option" where
  "mcp_tx_buffer f = do {
     let sidh = ucast (drop_bit 3 (f_id f));
     let sidl = ucast (push_bit 5 (f_id f AND 0x07));
     let tx = replicate 14 (0 :: u8);
     tx \<leftarrow> wr8 tx 0 INSTR_LOAD_TXB0;
     tx \<leftarrow> wr8 tx 1 sidh;
     tx \<leftarrow> wr8 tx 2 sidl;
     tx \<leftarrow> wr8 tx 3 0;
     tx \<leftarrow> wr8 tx 4 0;
     tx \<leftarrow> wr8 tx 5 (f_dlc f AND 0x0F);
     mcp_load_data (f_data f) (unat (f_dlc f)) 0 tx }"

definition mcp_send :: "'s spi_dev \<Rightarrow> u8 \<Rightarrow> frame \<Rightarrow> 's \<Rightarrow> (bool \<times> 's) option" where
  "mcp_send dev slave f s =
     (if 0x7FF < f_id f \<or> 8 < f_dlc f then Some (False, s)
      else do {
        tx \<leftarrow> mcp_tx_buffer f;
        (ok, rx, s) \<leftarrow> spi_transaction dev slave tx (replicate 14 0) (6 + unat (f_dlc f)) s;
        if \<not> ok then Some (False, s)
        else do {
          (ok, rx, s) \<leftarrow> spi_transaction dev slave [INSTR_RTS_TXB0] [0] 1 s;
          Some (ok, s) } })"

definition mcp_has_message :: "'s spi_dev \<Rightarrow> u8 \<Rightarrow> 's \<Rightarrow> (bool \<times> 's) option" where
  "mcp_has_message dev slave s = do {
     (ok, canintf, s) \<leftarrow> mcp_read_reg dev slave REG_CANINTF 0 s;
     if \<not> ok then Some (False, s) else Some (canintf AND 0x01 \<noteq> 0, s) }"

text \<open>The two loops that fill \<^verbatim>\<open>frame.data\<close>: bytes below \<open>dlc\<close> from \<open>rx\<close>, zeros up to eight.\<close>

function mcp_fill_data :: "buf \<Rightarrow> nat \<Rightarrow> nat \<Rightarrow> buf \<Rightarrow> buf option" where
  "mcp_fill_data rx dlc i d =
     (if i < dlc
      then do { x \<leftarrow> rd8 rx (6 + i); d \<leftarrow> wr8 d i x; mcp_fill_data rx dlc (Suc i) d }
      else Some d)"
  by pat_completeness auto
termination
  by (relation "measure (\<lambda>(rx, dlc, i, d). dlc - i)") auto

declare mcp_fill_data.simps [simp del]

function mcp_zero_data :: "nat \<Rightarrow> buf \<Rightarrow> buf option" where
  "mcp_zero_data i d = (if i < 8 then do { d \<leftarrow> wr8 d i 0; mcp_zero_data (Suc i) d } else Some d)"
  by pat_completeness auto
termination
  by (relation "measure (\<lambda>(i, d). 8 - i)") auto

declare mcp_zero_data.simps [simp del]

definition mcp_rx_frame :: "buf \<Rightarrow> frame \<Rightarrow> frame option" where
  "mcp_rx_frame rx f = do {
     sidh \<leftarrow> rd8 rx 1;
     sidl \<leftarrow> rd8 rx 2;
     b5 \<leftarrow> rd8 rx 5;
     let dlc = b5 AND 0x0F;
     let dlc = (if 8 < dlc then 8 else dlc);
     d \<leftarrow> mcp_fill_data rx (unat dlc) 0 (f_data f);
     d \<leftarrow> mcp_zero_data (unat dlc) d;
     Some \<lparr>f_id = push_bit 3 (ucast sidh) OR ucast (drop_bit 5 sidl), f_dlc = dlc, f_data = d\<rparr> }"

definition mcp_receive :: "'s spi_dev \<Rightarrow> u8 \<Rightarrow> frame \<Rightarrow> 's \<Rightarrow> (bool \<times> frame \<times> 's) option" where
  "mcp_receive dev slave f s = do {
     (ok, rx, s) \<leftarrow> spi_transaction dev slave (INSTR_READ_RXB0 # replicate 13 0) (replicate 14 0) 14 s;
     if \<not> ok then Some (False, f, s)
     else do { f \<leftarrow> mcp_rx_frame rx f; Some (True, f, s) } }"

subsection \<open>The frame encoding\<close>

text \<open>Frames the driver's callers hold: the array has eight bytes.\<close>

definition frame_ok :: "frame \<Rightarrow> bool" where
  "frame_ok f \<longleftrightarrow> f_id f \<le> 0x7FF \<and> f_dlc f \<le> 8 \<and> length (f_data f) = 8"

definition tx_header :: "frame \<Rightarrow> buf" where
  "tx_header f = [INSTR_LOAD_TXB0, ucast (drop_bit 3 (f_id f)), ucast (push_bit 5 (f_id f AND 0x07)),
     0, 0, f_dlc f]"

definition tx_payload :: "frame \<Rightarrow> buf" where
  "tx_payload f = take (unat (f_dlc f)) (f_data f)"

lemma dlc_bound: "f_dlc f \<le> 8 \<Longrightarrow> unat (f_dlc f) \<le> 8"
  by (simp add: word_le_nat_alt)

lemma mcp_load_data_result:
  "dlc \<le> length d \<Longrightarrow> 6 + dlc \<le> length tx \<Longrightarrow> i \<le> dlc \<Longrightarrow>
   mcp_load_data d dlc i tx =
     Some (take (6 + i) tx @ take (dlc - i) (drop i d) @ drop (6 + dlc) tx)"
proof (induction d dlc i tx rule: mcp_load_data.induct)
  case (1 d dlc i tx)
  show ?case
  proof (cases "i < dlc")
    case True
    let ?t = "tx[6 + i := d ! i]"
    have "mcp_load_data d dlc i tx = mcp_load_data d dlc (Suc i) ?t"
      using True "1.prems" by (subst mcp_load_data.simps) simp
    moreover have "take (6 + Suc i) ?t = take (6 + i) tx @ [d ! i]"
      using True "1.prems" take_update_last [of "6 + i" tx] by simp
    ultimately show ?thesis
      using "1.IH" [of "d ! i" ?t] True "1.prems" by (simp add: take_diff_drop)
  next
    case False
    then show ?thesis using "1.prems" by (subst mcp_load_data.simps) simp
  qed
qed

lemma mcp_fill_data_result:
  "6 + dlc \<le> length rx \<Longrightarrow> dlc \<le> length d \<Longrightarrow> i \<le> dlc \<Longrightarrow>
   mcp_fill_data rx dlc i d = Some (take i d @ take (dlc - i) (drop (6 + i) rx) @ drop dlc d)"
proof (induction rx dlc i d rule: mcp_fill_data.induct)
  case (1 rx dlc i d)
  show ?case
  proof (cases "i < dlc")
    case True
    let ?d = "d[i := rx ! (6 + i)]"
    have "mcp_fill_data rx dlc i d = mcp_fill_data rx dlc (Suc i) ?d"
      using True "1.prems" by (subst mcp_fill_data.simps) simp
    moreover have "take (Suc i) ?d = take i d @ [rx ! (6 + i)]"
      using True "1.prems" by (intro take_update_last) simp
    moreover have "take (dlc - i) (drop (6 + i) rx) =
        rx ! (6 + i) # take (dlc - Suc i) (drop (6 + Suc i) rx)"
      using True "1.prems" take_Suc_drop [of "6 + i" rx "dlc - Suc i"] by (simp add: Suc_diff_Suc)
    ultimately show ?thesis
      using "1.IH" [of "rx ! (6 + i)" ?d] True "1.prems" by simp
  next
    case False
    then show ?thesis using "1.prems" by (subst mcp_fill_data.simps) simp
  qed
qed

lemma mcp_zero_data_result:
  "length d = 8 \<Longrightarrow> i \<le> 8 \<Longrightarrow> mcp_zero_data i d = Some (take i d @ replicate (8 - i) 0)"
proof (induction i d rule: mcp_zero_data.induct)
  case (1 i d)
  show ?case
  proof (cases "i < 8")
    case True
    have "mcp_zero_data i d = mcp_zero_data (Suc i) (d[i := 0])"
      using True "1.prems" by (subst mcp_zero_data.simps) simp
    moreover have "take (Suc i) (d[i := 0]) = take i d @ [0]"
      using True "1.prems" by (intro take_update_last) simp
    moreover have "replicate (8 - i) (0 :: u8) = 0 # replicate (8 - Suc i) 0"
      using True by (simp flip: replicate_Suc add: Suc_diff_Suc)
    ultimately show ?thesis
      using "1.IH" [of "d[i := 0]"] True "1.prems" by simp
  next
    case False
    then show ?thesis using "1.prems" by (subst mcp_zero_data.simps) simp
  qed
qed

lemma and_0F: "x \<le> 8 \<Longrightarrow> x AND 0x0F = (x :: u8)"
  using less_mask_eq [of x 4] by (simp add: mask_eq_exp_minus_1 word_le_nat_alt word_less_nat_alt)

lemma mcp_tx_buffer_eq:
  assumes "frame_ok f"
  shows "mcp_tx_buffer f = Some (tx_header f @ tx_payload f @ replicate (8 - unat (f_dlc f)) 0)"
proof -
  have dlc: "unat (f_dlc f) \<le> 8" using assms by (simp add: frame_ok_def dlc_bound)
  have z: "replicate 14 (0 :: u8) = 0 # 0 # 0 # 0 # 0 # 0 # replicate 8 0"
    using replicate_add [of 6 8 "0 :: u8"] by (simp add: numeral_eq_Suc)
  have h: "mcp_tx_buffer f = mcp_load_data (f_data f) (unat (f_dlc f)) 0 (tx_header f @ replicate 8 0)"
    using assms by (simp add: mcp_tx_buffer_def Let_def z tx_header_def and_0F frame_ok_def wr8_def
        numeral_nat)
  have l: "length (tx_header f) = 6" by (simp add: tx_header_def)
  show ?thesis
    unfolding h using assms dlc l
    by (subst mcp_load_data_result) (simp_all add: frame_ok_def tx_payload_def)
qed

text \<open>The frame a receive buffer of fourteen bytes stands for.\<close>

definition rx_dlc :: "buf \<Rightarrow> u8" where
  "rx_dlc rx = (let dlc = rx ! 5 AND 0x0F in if 8 < dlc then 8 else dlc)"

definition rx_id :: "buf \<Rightarrow> u16" where
  "rx_id rx = push_bit 3 (ucast (rx ! 1)) OR ucast (drop_bit 5 (rx ! 2))"

definition rx_frame :: "buf \<Rightarrow> frame" where
  "rx_frame rx = (let n = unat (rx_dlc rx) in
     \<lparr>f_id = rx_id rx, f_dlc = rx_dlc rx, f_data = take n (drop 6 rx) @ replicate (8 - n) 0\<rparr>)"

lemma rx_dlc_bound: "rx_dlc rx \<le> 8"
  by (auto simp: rx_dlc_def Let_def)

lemma mcp_rx_frame_eq:
  assumes "length rx = 14" and "length (f_data f) = 8"
  shows "mcp_rx_frame rx f = Some (rx_frame rx)"
proof -
  let ?n = "unat (rx_dlc rx)"
  have n: "?n \<le> 8" using rx_dlc_bound [of rx] by (simp add: word_le_nat_alt)
  have fill: "mcp_fill_data rx ?n 0 (f_data f) = Some (take ?n (drop 6 rx) @ drop ?n (f_data f))"
    using assms n by (subst mcp_fill_data_result) simp_all
  have zero: "mcp_zero_data ?n (take ?n (drop 6 rx) @ drop ?n (f_data f)) =
      Some (take ?n (drop 6 rx) @ replicate (8 - ?n) 0)"
    using assms n by (subst mcp_zero_data_result) (simp_all add: min_def)
  have "mcp_rx_frame rx f = do {
      d \<leftarrow> mcp_fill_data rx ?n 0 (f_data f);
      d \<leftarrow> mcp_zero_data ?n d;
      Some \<lparr>f_id = rx_id rx, f_dlc = rx_dlc rx, f_data = d\<rparr> }"
    using assms(1) by (simp add: mcp_rx_frame_def rx_dlc_def rx_id_def Let_def)
  then show ?thesis
    by (simp add: fill zero rx_frame_def Let_def)
qed

lemma bit_id: "sid \<le> 0x7FF \<Longrightarrow> bit (sid :: u16) n \<Longrightarrow> n < 11"
proof -
  assume "sid \<le> 0x7FF"
  then have "sid < 2 ^ 11" by (simp add: word_le_nat_alt word_less_nat_alt)
  then have "sid AND mask 11 = sid" by (rule less_mask_eq)
  then show "bit sid n \<Longrightarrow> n < 11" by (metis bit_and_iff bit_mask_iff)
qed

lemma rx_id_bound: "rx_id rx \<le> 0x7FF"
proof -
  have "rx_id rx AND mask 11 = rx_id rx"
    by (rule bit_word_eqI)
       (auto simp: rx_id_def bit_and_iff bit_mask_iff bit_or_iff bit_push_bit_iff bit_drop_bit_eq
         bit_unsigned_iff dest: bit_imp_le_length)
  then have "rx_id rx \<le> mask 11" by (metis word_and_le1)
  then show ?thesis by (simp add: mask_eq_exp_minus_1)
qed

lemma rx_frame_ok: "length rx = 14 \<Longrightarrow> frame_ok (rx_frame rx)"
  using rx_dlc_bound [of rx] rx_id_bound [of rx] by (auto simp: frame_ok_def rx_frame_def Let_def word_le_nat_alt)

lemma bit_7: "bit (7 :: 'a::len word) n \<longleftrightarrow> n < 3 \<and> n < LENGTH('a)"
proof -
  have m: "(7 :: 'a word) = mask 3" by (simp add: mask_eq_exp_minus_1)
  show ?thesis by (simp only: m bit_mask_iff) auto
qed

lemma id_encoding:
  assumes "sid \<le> 0x7FF"
  shows "push_bit 3 (ucast (ucast (drop_bit 3 sid) :: u8)) OR
      ucast (drop_bit 5 (ucast (push_bit 5 (sid AND 0x07)) :: u8)) = (sid :: u16)"
proof (rule bit_word_eqI)
  fix n assume "n < LENGTH(16)"
  show "bit (push_bit 3 (ucast (ucast (drop_bit 3 sid) :: u8)) OR
      ucast (drop_bit 5 (ucast (push_bit 5 (sid AND 0x07)) :: u8)) :: u16) n = bit sid n"
    using bit_id [OF assms, of n]
    unfolding bit_or_iff bit_push_bit_iff bit_unsigned_iff bit_drop_bit_eq bit_and_iff bit_7 o_def
    by (cases "n < 3") auto
qed

text \<open>The receive buffer that gives back what was loaded: anything in the first byte.\<close>

lemma rx_frame_of_tx:
  assumes "frame_ok f"
  shows "rx_frame (x # tl (tx_header f) @ tx_payload f @ replicate (8 - unat (f_dlc f)) 0) =
    f\<lparr>f_data := tx_payload f @ replicate (8 - unat (f_dlc f)) 0\<rparr>"
proof -
  let ?rx = "x # tl (tx_header f) @ tx_payload f @ replicate (8 - unat (f_dlc f)) 0"
  have dlc: "rx_dlc ?rx = f_dlc f"
    using assms by (auto simp: rx_dlc_def tx_header_def frame_ok_def and_0F Let_def)
  have sid: "rx_id ?rx = f_id f"
    using assms id_encoding [of "f_id f"] by (simp add: rx_id_def tx_header_def frame_ok_def)
  have "drop 6 ?rx = tx_payload f @ replicate (8 - unat (f_dlc f)) 0"
    by (simp add: tx_header_def)
  moreover have "length (tx_payload f) = unat (f_dlc f)"
    using assms dlc_bound [of f] by (simp add: frame_ok_def tx_payload_def)
  ultimately show ?thesis
    by (simp only: rx_frame_def dlc sid Let_def) simp
qed

subsection \<open>Methods inside the SPI contracts\<close>

text \<open>
  All methods reach the device through transactions only. So one locale states what a
  transaction keeps, for any property \<open>keeps\<close> of the state, and the methods are treated once
  inside it; the SPI contracts are instances of it, with the plain invariant and with the
  invariant that the chip is deselected.
\<close>

locale spi_transactional =
  fixes dev :: "'s spi_dev"
    and keeps :: "'s \<Rightarrow> bool"
  assumes transaction: "keeps s \<Longrightarrow> n \<le> length tx \<Longrightarrow> n \<le> length rx \<Longrightarrow> n < 2 ^ 32 \<Longrightarrow>
    \<exists>ok rx' s'. spi_transaction dev i tx rx n s = Some (ok, rx', s') \<and>
      length rx' = length rx \<and> keeps s'"
begin

lemma write_reg_returns:
  assumes "keeps s" obtains ok s' where "mcp_write_reg dev i r v s = Some (ok, s')" "keeps s'"
proof -
  obtain ok rx s' where "spi_transaction dev i [INSTR_WRITE, r, v] [0, 0, 0] 3 s = Some (ok, rx, s')"
    "keeps s'"
    using transaction [OF assms, of 3 "[INSTR_WRITE, r, v]" "[0, 0, 0]" i] by auto
  then show ?thesis by (intro that [of ok s']) (simp_all add: mcp_write_reg_def)
qed

lemma read_reg_returns:
  assumes "keeps s" obtains ok v' s' where "mcp_read_reg dev i r v s = Some (ok, v', s')" "keeps s'"
proof -
  obtain ok rx s' where t: "spi_transaction dev i [INSTR_READ, r, 0] [0, 0, 0] 3 s = Some (ok, rx, s')"
    "length rx = 3" "keeps s'"
    using transaction [OF assms, of 3 "[INSTR_READ, r, 0]" "[0, 0, 0]" i] by auto
  then have "mcp_read_reg dev i r v s = Some (ok, if ok then rx ! 2 else v, s')"
    by (simp add: mcp_read_reg_def)
  with t that show ?thesis by blast
qed

lemma poll_mode_returns:
  assumes "keeps s" shows "\<exists>ok s'. mcp_poll_mode dev i m n s = Some (ok, s') \<and> keeps s'"
  using assms
proof (induction n arbitrary: s)
  case (Suc n)
  obtain ok v s1 where r: "mcp_read_reg dev i REG_CANSTAT 0 s = Some (ok, v, s1)" "keeps s1"
    by (rule read_reg_returns [OF Suc.prems])
  with Suc.IH [OF r(2)] show ?case by auto
qed simp

lemma reset_returns:
  assumes "keeps s" obtains ok s' where "mcp_reset dev i s = Some (ok, s')" "keeps s'"
proof -
  obtain ok rx s' where "spi_transaction dev i [INSTR_RESET] [0] 1 s = Some (ok, rx, s')" "keeps s'"
    using transaction [OF assms, of 1 "[INSTR_RESET]" "[0]" i] by auto
  then show ?thesis by (intro that [of ok s']) (simp_all add: mcp_reset_def)
qed

lemma set_mode_returns:
  assumes "keeps s" obtains ok s' where "mcp_set_mode dev i m s = Some (ok, s')" "keeps s'"
proof -
  obtain ok v s1 where r: "mcp_read_reg dev i REG_CANCTRL 0 s = Some (ok, v, s1)" "keeps s1"
    by (rule read_reg_returns [OF assms])
  obtain ok2 s2 where w: "mcp_write_reg dev i REG_CANCTRL ((v AND 0x1F) OR push_bit 5 (mode_code m)) s1 =
      Some (ok2, s2)" "keeps s2"
    by (rule write_reg_returns [OF r(2)])
  obtain ok3 s3 where p: "mcp_poll_mode dev i m 1000 s2 = Some (ok3, s3)" "keeps s3"
    using poll_mode_returns [OF w(2)] by blast
  have "mcp_set_mode dev i m s = Some (ok \<and> ok2 \<and> ok3,
      if \<not> ok then s1 else if \<not> ok2 then s2 else s3)"
    using r w p by (simp add: mcp_set_mode_def Let_def)
  with r w p that show ?thesis by simp
qed

lemma init_returns:
  assumes "keeps s" and delay: "\<And>us s. keeps s \<Longrightarrow> keeps (delay us s)"
  obtains ok s' where "mcp_init dev i delay cnf1 cnf2 cnf3 m osc s = Some (ok, s')" "keeps s'"
proof -
  obtain ok0 s0 where 0: "mcp_reset dev i s = Some (ok0, s0)" "keeps s0"
    by (rule reset_returns [OF assms(1)])
  let ?d = "delay (mcp_ost_us osc) s0"
  have d: "keeps ?d" using 0(2) by (rule delay)
  obtain ok1 s1 where 1: "mcp_write_reg dev i REG_CNF3 cnf3 ?d = Some (ok1, s1)" "keeps s1"
    by (rule write_reg_returns [OF d])
  obtain ok2 s2 where 2: "mcp_write_reg dev i (REG_CNF3 + 1) cnf2 s1 = Some (ok2, s2)" "keeps s2"
    by (rule write_reg_returns [OF 1(2)])
  obtain ok3 s3 where 3: "mcp_write_reg dev i (REG_CNF3 + 2) cnf1 s2 = Some (ok3, s3)" "keeps s3"
    by (rule write_reg_returns [OF 2(2)])
  obtain ok4 s4 where 4: "mcp_set_mode dev i m s3 = Some (ok4, s4)" "keeps s4"
    by (rule set_mode_returns [OF 3(2)])
  have "mcp_init dev i delay cnf1 cnf2 cnf3 m osc s =
    (if \<not> ok0 \<or> osc = 0 then Some (False, s0) else if \<not> ok1 then Some (False, s1)
     else if \<not> ok2 then Some (False, s2) else if \<not> ok3 then Some (False, s3) else Some (ok4, s4))"
    using 0 1 2 3 4 by (simp add: mcp_init_def Let_def)
  then have "\<exists>ok s'. mcp_init dev i delay cnf1 cnf2 cnf3 m osc s = Some (ok, s') \<and> keeps s'"
    using 0 1 2 3 4 by (simp split: if_splits)
  with that show ?thesis by blast
qed

lemma send_returns:
  assumes "keeps s" and f: "length (f_data f) = 8"
  obtains ok s' where "mcp_send dev i f s = Some (ok, s')" "keeps s'"
proof (cases "frame_ok f")
  case False
  then have "mcp_send dev i f s = Some (False, s)"
    using f by (auto simp: mcp_send_def frame_ok_def)
  with assms that show ?thesis by blast
next
  case True
  let ?tx = "tx_header f @ tx_payload f @ replicate (8 - unat (f_dlc f)) 0"
  have len: "6 + unat (f_dlc f) \<le> 14" using True dlc_bound [of f] by (simp add: frame_ok_def)
  moreover have "length ?tx = 14"
    using True dlc_bound [of f] by (simp add: frame_ok_def tx_header_def tx_payload_def)
  ultimately obtain ok1 rx1 s1 where 1: "spi_transaction dev i ?tx (replicate 14 0)
      (6 + unat (f_dlc f)) s = Some (ok1, rx1, s1)" "keeps s1"
    using transaction [OF assms(1), of "6 + unat (f_dlc f)" ?tx "replicate 14 0" i] by auto
  obtain ok2 rx2 s2 where 2: "spi_transaction dev i [INSTR_RTS_TXB0] [0] 1 s1 = Some (ok2, rx2, s2)"
    "keeps s2"
    using transaction [OF 1(2), of 1 "[INSTR_RTS_TXB0]" "[0]" i] by auto
  have "mcp_send dev i f s = (if \<not> ok1 then Some (False, s1) else Some (ok2, s2))"
    using True 1 2 by (auto simp: mcp_send_def mcp_tx_buffer_eq frame_ok_def)
  then have "\<exists>ok s'. mcp_send dev i f s = Some (ok, s') \<and> keeps s'"
    using 1 2 by (simp split: if_splits)
  with that show ?thesis by blast
qed

lemma has_message_returns:
  assumes "keeps s" obtains ok s' where "mcp_has_message dev i s = Some (ok, s')" "keeps s'"
proof -
  obtain ok v s1 where r: "mcp_read_reg dev i REG_CANINTF 0 s = Some (ok, v, s1)" "keeps s1"
    by (rule read_reg_returns [OF assms])
  then have "mcp_has_message dev i s = Some (ok \<and> v AND 0x01 \<noteq> 0, s1)"
    by (simp add: mcp_has_message_def)
  with r that show ?thesis by blast
qed

text \<open>A received frame is always well formed, whatever the bus delivered.\<close>

lemma receive_returns:
  assumes "keeps s" and f: "length (f_data f) = 8"
  obtains ok f' s' where "mcp_receive dev i f s = Some (ok, f', s')" "keeps s'"
    "ok \<Longrightarrow> frame_ok f'" "\<not> ok \<Longrightarrow> f' = f"
proof -
  obtain ok rx s1 where 1: "spi_transaction dev i (INSTR_READ_RXB0 # replicate 13 0) (replicate 14 0)
      14 s = Some (ok, rx, s1)" "length rx = 14" "keeps s1"
    using transaction [OF assms(1), of 14 "INSTR_READ_RXB0 # replicate 13 0" "replicate 14 0" i] by auto
  have "mcp_receive dev i f s = Some (ok, if ok then rx_frame rx else f, s1)"
    using 1 f by (simp add: mcp_receive_def mcp_rx_frame_eq)
  moreover have "frame_ok (rx_frame rx)" using 1(2) by (rule rx_frame_ok)
  ultimately show ?thesis using 1(3) that by auto
qed

end

sublocale spi_device < plain: spi_transactional dev ready
proof
  fix s n i and tx rx :: buf
  assume s: "ready s" and n: "n \<le> length tx" "n \<le> length rx" "n < 2 ^ 32"
  obtain st s1 where sel: "spi_select dev i s = Some (st, s1)" "ready s1"
    using select_returns s by blast
  obtain st2 rx2 s2 where t: "spi_transfer dev (Some tx) (Some rx) n 100 s1 = Some (st2, rx2, s2)"
    "length rx2 = length rx" "ready s2"
    using transfer_returns [OF sel(2) n refl] by blast
  obtain st3 s3 where d: "spi_deselect dev i s2 = Some (st3, s3)" "ready s3"
    using deselect_returns t(3) by blast
  have "spi_transaction dev i tx rx n s = Some (if st \<noteq> Spi_OK then (False, rx, s1)
      else (st2 = Spi_OK, rx2, s3))"
    using sel t d by (simp add: spi_transaction_def SPI_TIMEOUT_MS_def)
  then show "\<exists>ok rx' s'. spi_transaction dev i tx rx n s = Some (ok, rx', s') \<and>
      length rx' = length rx \<and> ready s'"
    using sel t d by auto
qed

sublocale spi_selecting < idle: spi_transactional dev "\<lambda>s. ready s \<and> \<not> selected s"
proof
  fix s n i and tx rx :: buf
  assume s: "ready s \<and> \<not> selected s" and n: "n \<le> length tx" "n \<le> length rx" "n < 2 ^ 32"
  obtain st s1 where sel: "spi_select dev i s = Some (st, s1)" "ready s1"
    using select_returns s by blast
  obtain st2 rx2 s2 where t: "spi_transfer dev (Some tx) (Some rx) n 100 s1 = Some (st2, rx2, s2)"
    "length rx2 = length rx" "ready s2"
    using transfer_returns [OF sel(2) n refl] by blast
  obtain st3 s3 where d: "spi_deselect dev i s2 = Some (st3, s3)" "ready s3"
    using deselect_returns t(3) by blast
  have off: "\<not> selected s3" using deselect_clears [OF t(3) d(1)] .
  have fail: "\<not> selected s1" if "st \<noteq> Spi_OK" using select_fails [OF _ sel(1) that] s by simp
  have "spi_transaction dev i tx rx n s = Some (if st \<noteq> Spi_OK then (False, rx, s1)
      else (st2 = Spi_OK, rx2, s3))"
    using sel t d by (simp add: spi_transaction_def SPI_TIMEOUT_MS_def)
  then show "\<exists>ok rx' s'. spi_transaction dev i tx rx n s = Some (ok, rx', s') \<and>
      length rx' = length rx \<and> ready s' \<and> \<not> selected s'"
    using sel t d off fail by auto
qed

subsection \<open>Properties\<close>

text \<open>The mode a CANSTAT value shows, and \<open>n\<close> successful reads of CANSTAT with their values.\<close>

definition canstat_mode :: "u8 \<Rightarrow> u8" where
  "canstat_mode c = drop_bit 5 c AND 0x07"

fun canstat_reads :: "'s spi_dev \<Rightarrow> u8 \<Rightarrow> nat \<Rightarrow> 's \<Rightarrow> (buf \<times> 's) option" where
  "canstat_reads dev slave 0 s = Some ([], s)"
| "canstat_reads dev slave (Suc n) s = do {
     (ok, c, s) \<leftarrow> mcp_read_reg dev slave REG_CANSTAT 0 s;
     (cs, s) \<leftarrow> canstat_reads dev slave n s;
     if ok then Some (c # cs, s) else None }"

lemma poll_mode_confirmed:
  "mcp_poll_mode dev i m n s = Some (True, s') \<Longrightarrow>
   \<exists>k cs c. canstat_reads dev i k s = Some (cs @ [c], s') \<and> k \<le> n \<and>
     canstat_mode c = mode_code m \<and> (\<forall>c' \<in> set cs. canstat_mode c' \<noteq> mode_code m)"
proof (induction n arbitrary: s)
  case (Suc n)
  from Suc.prems obtain c s1 where r: "mcp_read_reg dev i REG_CANSTAT 0 s = Some (True, c, s1)"
    by (auto simp: bind_eq_Some_conv split: if_splits)
  show ?case
  proof (cases "canstat_mode c = mode_code m")
    case True
    then show ?thesis
      using r Suc.prems by (intro exI [of _ 1] exI [of _ "[]"] exI [of _ c]) (simp add: canstat_mode_def)
  next
    case False
    then have "mcp_poll_mode dev i m n s1 = Some (True, s')"
      using r Suc.prems by (simp add: canstat_mode_def)
    from Suc.IH [OF this] obtain k cs d where "canstat_reads dev i k s1 = Some (cs @ [d], s')"
      "k \<le> n" "canstat_mode d = mode_code m" "\<forall>c' \<in> set cs. canstat_mode c' \<noteq> mode_code m"
      by blast
    with r False show ?thesis by (intro exI [of _ "Suc k"] exI [of _ "c # cs"] exI [of _ d]) simp
  qed
qed simp

lemma bit_1F: "bit (0x1F :: u8) n \<longleftrightarrow> n < 5"
proof -
  have m: "(0x1F :: u8) = mask 5" by (simp add: mask_eq_exp_minus_1)
  show ?thesis by (simp only: m bit_mask_iff) auto
qed

lemma mode_code_bits: "bit (mode_code m) n \<Longrightarrow> n < 3"
proof -
  have "mode_code m AND 7 = mode_code m" by (cases m) simp_all
  then show "bit (mode_code m) n \<Longrightarrow> n < 3" by (metis bit_7 bit_and_iff)
qed

lemma canctrl_fields:
  "((v AND 0x1F) OR push_bit 5 (mode_code m)) AND 0x1F = v AND 0x1F"
  "drop_bit 5 ((v AND 0x1F) OR push_bit 5 (mode_code m)) = mode_code m"
proof -
  show "((v AND 0x1F) OR push_bit 5 (mode_code m)) AND 0x1F = v AND 0x1F"
    by (rule bit_word_eqI) (auto simp only: bit_and_iff bit_or_iff bit_1F bit_push_bit_iff)
  show "drop_bit 5 ((v AND 0x1F) OR push_bit 5 (mode_code m)) = mode_code m"
  proof (rule bit_word_eqI)
    fix n assume "n < LENGTH(8)"
    show "bit (drop_bit 5 ((v AND 0x1F) OR push_bit 5 (mode_code m))) n = bit (mode_code m) n"
      unfolding bit_drop_bit_eq o_def bit_or_iff bit_and_iff bit_1F bit_push_bit_iff
      using mode_code_bits [of m n] by auto
  qed
qed

text \<open>The fields of a decoded frame as numbers.\<close>

lemma rx_dlc_nat: "unat (rx_dlc rx) = min 8 (unat (rx ! 5) mod 16)"
proof -
  have "(0x0F :: u8) = mask 4" by (simp add: mask_eq_exp_minus_1)
  then have "rx ! 5 AND 0x0F = take_bit 4 (rx ! 5)" by (simp only: take_bit_eq_mask)
  then have "unat (rx ! 5 AND 0x0F) = unat (rx ! 5) mod 16"
    by (simp add: take_bit_eq_mod unat_mod)
  then show ?thesis by (simp add: rx_dlc_def Let_def word_less_nat_alt min_def)
qed

lemma rx_id_nat: "unat (rx_id rx) = 8 * unat (rx ! 1) + unat (rx ! 2) div 32"
proof -
  let ?h = "push_bit 3 (ucast (rx ! 1)) :: u16" and ?l = "ucast (drop_bit 5 (rx ! 2)) :: u16"
  have b: "unat (rx ! 1) < 256" "unat (rx ! 2) < 256"
    using unsigned_less [of "rx ! 1", where 'a = nat] unsigned_less [of "rx ! 2", where 'a = nat] by simp_all
  have "?h AND ?l = 0"
    by (rule bit_word_eqI) (auto simp: bit_and_iff bit_push_bit_iff bit_unsigned_iff bit_drop_bit_eq dest: bit_imp_le_length)
  then have "rx_id rx = ?h + ?l" unfolding rx_id_def by (rule disjunctive_add_eq_or [symmetric])
  moreover have "unat ?h = 8 * unat (rx ! 1)"
    using b by (simp add: push_bit_eq_mult unat_word_ariths unsigned_ucast_eq take_bit_nat_eq_self)
  moreover have "unat ?l = unat (rx ! 2) div 32"
    using b
    by (simp add: unsigned_ucast_eq drop_bit_eq_div unat_div take_bit_nat_eq_self)
  moreover have "8 * unat (rx ! 1) + unat (rx ! 2) div 32 < 2 ^ 16"
    using b by simp
  ultimately show ?thesis by (simp add: unat_word_ariths)
qed

text \<open>What \<^verbatim>\<open>send\<close> loads for a well-formed frame fills its array.\<close>

lemma tx_buffer_fits:
  assumes "frame_ok f" obtains tx where "mcp_tx_buffer f = Some tx" "length tx = 14"
proof (rule that)
  show "mcp_tx_buffer f = Some (tx_header f @ tx_payload f @ replicate (8 - unat (f_dlc f)) 0)"
    by (rule mcp_tx_buffer_eq [OF assms])
  show "length (tx_header f @ tx_payload f @ replicate (8 - unat (f_dlc f)) 0) = 14"
    using assms dlc_bound [of f] by (simp add: tx_header_def tx_payload_def frame_ok_def)
qed

text \<open>
  C24: a frame variable keeps its type, and \<^verbatim>\<open>receive\<close> never leaves its arrays. Whatever fourteen bytes the SPI
  device delivers (a length code of 9 to 15 is possible on the bus), \<^verbatim>\<open>receive\<close> returns: after a failed transfer
  the frame is unchanged; after a successful one the identifier is the eleven bits of the two header bytes, the
  length is the code cut to eight, that many data bytes are copied and the rest are zeros. Either way the frame is well formed
  (an 11-bit identifier, at most eight bytes of length, an array of eight): one that the guard of \<^verbatim>\<open>send\<close> accepts, and
  whose bytes stay inside the fourteen-byte transmit array.
\<close>

theorem frames_stay_well_formed:
  assumes "frame_ok f" and "spi_transaction dev i (0x90 # replicate 13 0) (replicate 14 0) 14 s = Some (ok, rx, s')"
    and "length rx = 14"
  shows "\<exists>f' tx. mcp_receive dev i f s = Some (ok, f', s') \<and>
    (if ok then unat (f_id f') = 8 * unat (rx ! 1) + unat (rx ! 2) div 32 \<and>
        unat (f_dlc f') = min 8 (unat (rx ! 5) mod 16) \<and>
        f_data f' = take (unat (f_dlc f')) (drop 6 rx) @ replicate (8 - unat (f_dlc f')) 0
     else f' = f) \<and>
    frame_ok f' \<and> mcp_tx_buffer f' = Some tx \<and> length tx = 14"
proof -
  let ?f = "if ok then rx_frame rx else f"
  have "length (f_data f) = 8" using assms(1) by (simp add: frame_ok_def)
  then have r: "mcp_receive dev i f s = Some (ok, ?f, s')"
    using assms(2,3) by (simp add: mcp_receive_def mcp_rx_frame_eq INSTR_READ_RXB0_def)
  have ok: "frame_ok ?f" using assms(1) rx_frame_ok [OF assms(3)] by simp
  obtain tx where "mcp_tx_buffer ?f = Some tx" "length tx = 14" by (rule tx_buffer_fits [OF ok])
  then show ?thesis
    using ok r by (intro exI [of _ ?f] exI [of _ tx]) (simp add: rx_frame_def Let_def rx_dlc_nat rx_id_nat)
qed

text \<open>C23: when \<^verbatim>\<open>set_mode\<close> reports success, CANCTRL was read and written back with its low five
  bits as they were and the requested mode in the high three, both without an error, and then
  CANSTAT was read at most 1000 times: every value but the last showed another mode, and the
  last one, the driver's final SPI access, shows the requested mode. This holds on every SPI
  device.\<close>

theorem mcp_set_mode_confirmed:
  assumes "mcp_set_mode dev i m s = Some (True, s')"
  shows "\<exists>v w s1 s2 k cs c.
    mcp_read_reg dev i REG_CANCTRL 0 s = Some (True, v, s1) \<and>
    mcp_write_reg dev i REG_CANCTRL w s1 = Some (True, s2) \<and>
    w AND 0x1F = v AND 0x1F \<and> drop_bit 5 w = mode_code m \<and>
    canstat_reads dev i k s2 = Some (cs @ [c], s') \<and> k \<le> 1000 \<and>
    canstat_mode c = mode_code m \<and> (\<forall>c' \<in> set cs. canstat_mode c' \<noteq> mode_code m)"
proof -
  let ?w = "\<lambda>v. (v AND 0x1F) OR push_bit 5 (mode_code m)"
  obtain v s1 where 1: "mcp_read_reg dev i REG_CANCTRL 0 s = Some (True, v, s1)"
    using assms by (auto simp: mcp_set_mode_def bind_eq_Some_conv split: if_splits)
  moreover obtain s2 where 2: "mcp_write_reg dev i REG_CANCTRL (?w v) s1 = Some (True, s2)"
    using assms 1 by (auto simp: mcp_set_mode_def Let_def bind_eq_Some_conv split: if_splits)
  moreover have "mcp_poll_mode dev i m 1000 s2 = Some (True, s')"
    using assms 1 2 by (simp add: mcp_set_mode_def Let_def)
  ultimately show ?thesis
    using poll_mode_confirmed [of dev i m 1000 s2 s'] canctrl_fields [of v m] by blast
qed

text \<open>A chip that answers every read with the value last written, and accepts everything.\<close>

definition echo_dev :: "u8 spi_dev" where
  "echo_dev = \<lparr>spi_init = (\<lambda>_ _ s. Some (Spi_OK, s)),
     spi_transfer = (\<lambda>tx rx n _ s. Some (Spi_OK, replicate n s,
       if hd (the tx) = INSTR_WRITE then the tx ! 2 else s)),
     spi_select = (\<lambda>_ s. Some (Spi_OK, s)), spi_deselect = (\<lambda>_ s. Some (Spi_OK, s))\<rparr>"

theorem mcp_set_mode_confirmed_witness:
  "\<exists>w s1 s2. mcp_write_reg echo_dev 0 REG_CANCTRL w s1 = Some (True, s2) \<and>
    w AND 0x1F = 0x07 \<and> drop_bit 5 w = 2"
proof -
  have r: "mcp_set_mode echo_dev 0 LOOPBACK 0x87 = Some (True, 0x47)" by code_simp
  have v: "mcp_read_reg echo_dev 0 REG_CANCTRL 0 0x87 = Some (True, 0x87, 0x87)" by code_simp
  have "(0x87 :: u8) AND 0x1F = 0x07" by simp
  then show ?thesis
    using mcp_set_mode_confirmed [OF r] v by auto
qed

text \<open>A length code of fifteen is received as eight.\<close>

theorem frames_stay_well_formed_witness:
  "\<exists>f'. mcp_receive echo_dev 0 frame_new 0xFF = Some (True, f', 0xFF) \<and> unat (f_dlc f') = 8 \<and> unat (f_id f') = 0x7FF \<and>
    frame_ok f'"
proof -
  have f: "frame_ok frame_new" by (simp add: frame_ok_def frame_new_def)
  have t: "spi_transaction echo_dev 0 (0x90 # replicate 13 0) (replicate 14 0) 14 0xFF = Some (True, replicate 14 0xFF, 0xFF)"
    by code_simp
  from frames_stay_well_formed [OF f t] show ?thesis by auto
qed

text \<open>For every oscillator frequency but zero, the start-up wait that \<^verbatim>\<open>init\<close> passes to the delay
  function is the ceiling of 128 oscillator periods in microseconds: it is never shorter than
  the 128 cycles the chip needs, by less than one microsecond longer, and neither the 64-bit
  sum nor the cut to 32 bits loses anything.\<close>

theorem mcp_ost_wait:
  assumes "0 < osc"
  shows "unat (mcp_ost_us osc) = (128 * 1000000 + unat osc - 1) div unat osc \<and>
    128 * 1000000 \<le> unat (mcp_ost_us osc) * unat osc \<and>
    unat (mcp_ost_us osc) * unat osc < 128 * 1000000 + unat osc"
proof -
  let ?n = "unat osc"
  have n: "0 < ?n" "?n < 2 ^ 32" using assms unsigned_less [of osc] by (simp_all add: word_less_nat_alt)
  have u: "unat (ucast osc :: u64) = ?n" using n by (simp add: unsigned_ucast_eq take_bit_nat_eq_self)
  have s: "unat (128 * 1000000 + (ucast osc :: u64) - 1) = 128 * 1000000 + ?n - 1"
  proof -
    have "128 * 1000000 + (ucast osc :: u64) - 1 = 127999999 + ucast osc" by simp
    moreover have "unat (127999999 + (ucast osc :: u64)) = 127999999 + ?n"
      using n u by (subst unat_plus_if') simp_all
    ultimately show ?thesis by simp
  qed
  have q: "(128 * 1000000 + ?n - 1) div ?n \<le> 128 * 1000000"
    using n by (intro less_Suc_eq_le [THEN iffD1] div_less_iff_less_mult [THEN iffD2]) (auto simp: algebra_simps)
  have "unat (mcp_ost_us osc) = (128 * 1000000 + ?n - 1) div ?n"
    unfolding mcp_ost_us_def using q s u by (simp add: unsigned_ucast_eq unat_div take_bit_nat_eq_self)
  moreover have "128 * 1000000 \<le> ((128 * 1000000 + ?n - 1) div ?n) * ?n"
    using n div_mult_mod_eq [of "128 * 1000000 + ?n - 1" ?n] mod_less_divisor [of ?n "128 * 1000000 + ?n - 1"]
    by linarith
  moreover have "((128 * 1000000 + ?n - 1) div ?n) * ?n < 128 * 1000000 + ?n"
    using n div_mult_mod_eq [of "128 * 1000000 + ?n - 1" ?n] by linarith
  ultimately show ?thesis by simp
qed

theorem mcp_ost_wait_witness: "unat (mcp_ost_us 12000000) = 11"
  using mcp_ost_wait [of 12000000] by simp

text \<open>C25: every standard frame survives the register format. The bytes \<^verbatim>\<open>send\<close> loads are the
  instruction, five header bytes and the payload, inside the fourteen-byte array; and when a receive
  buffer holds the same header and payload bytes at their places (whatever its first byte and
  the bytes behind the payload are), \<^verbatim>\<open>receive\<close> decodes the same identifier, length and payload and
  fills the rest of the eight data bytes with zeros.\<close>

theorem can_frame_round_trip:
  assumes "frame_ok f" and "length rx = 14" and "length (f_data g) = 8"
    and "mcp_tx_buffer f = Some tx"
    and "\<And>k. 1 \<le> k \<Longrightarrow> k < 6 + unat (f_dlc f) \<Longrightarrow> rx ! k = tx ! k"
  shows "length tx = 14 \<and> mcp_rx_frame rx g =
    Some \<lparr>f_id = f_id f, f_dlc = f_dlc f,
      f_data = take (unat (f_dlc f)) (f_data f) @ replicate (8 - unat (f_dlc f)) 0\<rparr>"
proof -
  let ?n = "unat (f_dlc f)"
  have n: "?n \<le> 8" using assms(1) by (simp add: frame_ok_def dlc_bound)
  let ?t = "tx_header f @ tx_payload f @ replicate (8 - ?n) 0"
  have tx: "tx = ?t" using assms(4) mcp_tx_buffer_eq [OF assms(1)] by simp
  have l: "length (tx_header f) = 6" "length (tx_payload f) = ?n"
    using assms(1) n by (simp_all add: tx_header_def tx_payload_def frame_ok_def)
  have same: "rx ! k = ?t ! k" if "1 \<le> k" "k < 6 + ?n" for k using assms(5) [OF that] tx by simp
  let ?r = "hd ?t # tl ?t"
  have hdr: "rx ! 1 = ?t ! 1" "rx ! 2 = ?t ! 2" "rx ! 5 = ?t ! 5" by (rule same; simp)+
  have pay: "take ?n (drop 6 rx) = take ?n (drop 6 ?t)"
  proof (rule nth_equalityI)
    show "length (take ?n (drop 6 rx)) = length (take ?n (drop 6 ?t))" using assms(2) l n by simp
    fix k assume "k < length (take ?n (drop 6 rx))"
    then have k: "k < ?n" by simp
    have "take ?n (drop 6 rx) ! k = rx ! (6 + k)" using k n assms(2) by simp
    also have "\<dots> = ?t ! (6 + k)" using same [of "6 + k"] k by simp
    also have "\<dots> = drop 6 ?t ! k" using l by (subst nth_drop) simp_all
    finally show "take ?n (drop 6 rx) ! k = take ?n (drop 6 ?t) ! k"
      using k by (simp only: nth_take)
  qed
  have dlc: "rx_dlc rx = rx_dlc ?t" "rx_id rx = rx_id ?t"
    unfolding rx_dlc_def rx_id_def hdr by (rule refl)+
  have t: "?t = hd ?t # tl (tx_header f) @ tx_payload f @ replicate (8 - ?n) 0"
    by (simp add: tx_header_def)
  have ft: "rx_frame ?t = f\<lparr>f_data := tx_payload f @ replicate (8 - ?n) 0\<rparr>"
    by (subst t) (rule rx_frame_of_tx [OF assms(1)])
  have "rx_dlc ?t = f_dlc f" using arg_cong [OF ft, of f_dlc] by (simp add: rx_frame_def Let_def)
  then have "rx_frame rx = rx_frame ?t"
    by (simp only: rx_frame_def dlc pay Let_def)
  then show ?thesis
    using mcp_rx_frame_eq [OF assms(2,3)] tx l n ft by (simp add: tx_payload_def)
qed

theorem can_frame_round_trip_witness:
  "mcp_rx_frame [0xFF, 0x24, 0x60, 0, 0, 2, 0xCA, 0xFE, 9, 9, 9, 9, 9, 9] frame_new =
    Some \<lparr>f_id = 0x123, f_dlc = 2, f_data = [0xCA, 0xFE, 0, 0, 0, 0, 0, 0]\<rparr>"
proof -
  let ?f = "\<lparr>f_id = 0x123, f_dlc = 2, f_data = [0xCA, 0xFE, 1, 2, 3, 4, 5, 6]\<rparr>"
  let ?tx = "[0x40, 0x24, 0x60, 0, 0, 2, 0xCA, 0xFE, 0, 0, 0, 0, 0, 0] :: buf"
  let ?rx = "[0xFF, 0x24, 0x60, 0, 0, 2, 0xCA, 0xFE, 9, 9, 9, 9, 9, 9] :: buf"
  have tx: "mcp_tx_buffer ?f = Some ?tx"
    by (subst mcp_tx_buffer_eq) (simp_all add: frame_ok_def tx_header_def tx_payload_def INSTR_LOAD_TXB0_def, code_simp)
  have same: "?rx ! k = ?tx ! k" if "1 \<le> k" "k < 6 + unat (f_dlc ?f)" for k
  proof -
    have "k \<in> {1, 2, 3, 4, 5, 6, 7}" using that by auto
    then show ?thesis by auto
  qed
  have ok: "frame_ok ?f" "length ?rx = 14" "length (f_data frame_new) = 8"
    by (simp_all add: frame_ok_def frame_new_def)
  have "take (unat (2 :: u8)) [0xCA, 0xFE, 1, 2, 3, 4, 5, 6] @ replicate (8 - unat (2 :: u8)) 0 =
      ([0xCA, 0xFE, 0, 0, 0, 0, 0, 0] :: buf)" by code_simp
  then show ?thesis using can_frame_round_trip [OF ok tx same] by (simp only: frame.select_convs)
qed

text \<open>\<^verbatim>\<open>send\<close> refuses an identifier above eleven bits or a length above eight without
  touching the SPI device, whatever that device is; and any other frame is sent as exactly two
  transactions, the load of header and payload and, only after its success, the request to
  send.\<close>

theorem mcp_send_guarded:
  assumes "length (f_data f) = 8"
  shows "mcp_send dev i f s =
    (if 0x7FF < f_id f \<or> 8 < f_dlc f then Some (False, s)
     else do {
       (ok, rx, s) \<leftarrow> spi_transaction dev i
          (tx_header f @ tx_payload f @ replicate (8 - unat (f_dlc f)) 0) (replicate 14 0)
          (6 + unat (f_dlc f)) s;
       if \<not> ok then Some (False, s)
       else do { (ok, rx, s) \<leftarrow> spi_transaction dev i [0x81] [0] 1 s; Some (ok, s) } })"
proof (cases "frame_ok f")
  case True
  show ?thesis
    unfolding mcp_send_def mcp_tx_buffer_eq [OF True] INSTR_RTS_TXB0_def Option.bind.simps
    by (rule refl)
next
  case False
  with assms show ?thesis by (auto simp: mcp_send_def frame_ok_def)
qed

theorem mcp_send_guarded_witness:
  "mcp_send echo_dev 0 \<lparr>f_id = 0x800, f_dlc = 0, f_data = replicate 8 0\<rparr> 7 = Some (False, 7)"
  by (subst mcp_send_guarded) simp_all

end
