(* ===== verification/Mmio.thy ===== *)
theory Mmio
  imports Fw_Prelude
begin

text \<open>
  Memory-mapped registers. The code's only effects on the LPC1768 are its volatile accesses,
  so the state of the hardware is the history of them, oldest first, together with delay
  loops, barriers and calls into the RTOS. What a read returns is a parameter \<open>env\<close>: any function of
  the whole history and the address. Every behaviour of the peripherals, and of whatever is
  wired to the pins, is one such function, so a theorem for all \<open>env\<close> holds for all of them.
\<close>

datatype hw_event =
    Rd u32 u32          \<comment> \<open>a read of an address, and the value it returned\<close>
  | Wr u32 u32          \<comment> \<open>a write of a value to an address\<close>
  | Spin u32            \<comment> \<open>an empty delay loop of so many turns\<close>
  | Dsb | Isb           \<comment> \<open>barrier instructions\<close>
  | Task_delay u32      \<comment> \<open>\<^verbatim>\<open>vTaskDelay\<close>\<close>

type_synonym trace = "hw_event list"
type_synonym env = "trace \<Rightarrow> u32 \<Rightarrow> u32"

definition reg_rd :: "env \<Rightarrow> u32 \<Rightarrow> trace \<Rightarrow> u32 \<times> trace" where
  "reg_rd env a tr = (let v = env tr a in (v, tr @ [Rd a v]))"

definition reg_wr :: "u32 \<Rightarrow> u32 \<Rightarrow> trace \<Rightarrow> trace" where
  "reg_wr a v tr = tr @ [Wr a v]"

text \<open>A read through \<^verbatim>\<open>volatile uint8_t*\<close>: only the low byte is seen. A write of a byte.\<close>

definition reg_rd8 :: "env \<Rightarrow> u32 \<Rightarrow> trace \<Rightarrow> u8 \<times> trace" where
  "reg_rd8 env a tr = (let v = ucast (env tr a) in (v, tr @ [Rd a (ucast v)]))"

definition reg_wr8 :: "u32 \<Rightarrow> u8 \<Rightarrow> trace \<Rightarrow> trace" where
  "reg_wr8 a v tr = tr @ [Wr a (ucast v)]"

text \<open>\<^verbatim>\<open>R |= m\<close>, \<^verbatim>\<open>R &= ~m\<close> and, in general, \<^verbatim>\<open>R = f(R)\<close> on a volatile register.\<close>

definition reg_update :: "env \<Rightarrow> u32 \<Rightarrow> (u32 \<Rightarrow> u32) \<Rightarrow> trace \<Rightarrow> trace" where
  "reg_update env a f tr = (let (v, tr) = reg_rd env a tr in reg_wr a (f v) tr)"

definition reg_or :: "env \<Rightarrow> u32 \<Rightarrow> u32 \<Rightarrow> trace \<Rightarrow> trace" where
  "reg_or env a m = reg_update env a (\<lambda>v. v OR m)"

definition reg_clear :: "env \<Rightarrow> u32 \<Rightarrow> u32 \<Rightarrow> trace \<Rightarrow> trace" where
  "reg_clear env a m = reg_update env a (\<lambda>v. v AND NOT m)"

text \<open>The writes of a history, and the values read at one address.\<close>

fun writes :: "trace \<Rightarrow> (u32 \<times> u32) list" where
  "writes [] = []"
| "writes (Wr a v # tr) = (a, v) # writes tr"
| "writes (_ # tr) = writes tr"

fun reads_at :: "u32 \<Rightarrow> trace \<Rightarrow> u32 list" where
  "reads_at a [] = []"
| "reads_at a (Rd b v # tr) = (if a = b then v # reads_at a tr else reads_at a tr)"
| "reads_at a (_ # tr) = reads_at a tr"

lemma writes_append [simp]: "writes (tr @ tr') = writes tr @ writes tr'"
  by (induction tr rule: writes.induct) simp_all

lemma reads_at_append [simp]: "reads_at a (tr @ tr') = reads_at a tr @ reads_at a tr'"
  by (induction a tr rule: reads_at.induct) simp_all

lemma reg_rd_simp [simp]: "reg_rd env a tr = (env tr a, tr @ [Rd a (env tr a)])"
  by (simp add: reg_rd_def Let_def)

lemma reg_wr_simp [simp]: "reg_wr a v tr = tr @ [Wr a v]"
  by (simp add: reg_wr_def)

lemma reg_rd8_simp [simp]: "reg_rd8 env a tr = (ucast (env tr a), tr @ [Rd a (ucast (ucast (env tr a) :: u8))])"
  by (simp add: reg_rd8_def Let_def)

lemma reg_wr8_simp [simp]: "reg_wr8 a v tr = tr @ [Wr a (ucast v)]"
  by (simp add: reg_wr8_def)

lemma reg_update_simp [simp]:
  "reg_update env a f tr = tr @ [Rd a (env tr a), Wr a (f (env tr a))]"
  by (simp add: reg_update_def)

subsection \<open>An output pin driven through a set and a clear register\<close>

text \<open>
  The level the code last gave to the pins in \<open>pins\<close>: a write to the set register that names
  one of them drives it high, a write to the clear register low. \<open>lvl\<close> is the level before
  the history.
\<close>

fun pin_level :: "u32 \<Rightarrow> u32 \<Rightarrow> u32 \<Rightarrow> bool \<Rightarrow> trace \<Rightarrow> bool" where
  "pin_level set_a clr_a pins lvl [] = lvl"
| "pin_level set_a clr_a pins lvl (Wr a v # tr) =
     (if a = set_a \<and> v AND pins \<noteq> 0 then pin_level set_a clr_a pins True tr
      else if a = clr_a \<and> v AND pins \<noteq> 0 then pin_level set_a clr_a pins False tr
      else pin_level set_a clr_a pins lvl tr)"
| "pin_level set_a clr_a pins lvl (_ # tr) = pin_level set_a clr_a pins lvl tr"

lemma pin_level_append [simp]:
  "pin_level s c m init (tr @ tr') = pin_level s c m (pin_level s c m init tr) tr'"
  by (induction s c m init tr rule: pin_level.induct) simp_all

lemma pin_level_no_writes: "writes tr = [] \<Longrightarrow> pin_level s c m lvl tr = lvl"
  by (induction s c m lvl tr rule: pin_level.induct) simp_all

subsection \<open>Counting loops with a limit\<close>

text \<open>The limit of a counting loop is even, so the counter passes it before it wraps.\<close>

lemma ticks_less: "unat (t * 2000 :: u32) + 1 < 2 ^ 32"
proof -
  have "even (unat (t * 2000))"
  proof -
    have "unat (t * 2000) = (unat t * 2000) mod 2 ^ 32"
      by (simp add: unat_word_ariths)
    moreover have "even ((unat t * 2000) mod 2 ^ 32)" by (rule dvd_mod) simp_all
    ultimately show ?thesis by simp
  qed
  moreover have "unat (t * 2000) < 2 ^ 32" using unsigned_less [of "t * 2000"] by simp
  ultimately show ?thesis by (cases "unat (t * 2000) = 2 ^ 32 - 1") auto
qed

lemma ticks_step:
  "\<not> t * 2000 < (e :: u32) + 1 \<Longrightarrow> e \<le> t * 2000 \<Longrightarrow>
   unat (e + 1) = unat e + 1 \<and> e + 1 \<le> t * 2000"
  using ticks_less [of t]
  by (simp add: word_less_nat_alt word_le_nat_alt unat_word_ariths)

end
