(* ===== verification/Spi_Shift.thy ===== *)
theory Spi_Shift
  imports Hal Crc16
begin

text \<open>
  The two nested loops of a bit-banged SPI transfer, which both ports (\<^verbatim>\<open>bitbang_spi_lpc1768.cpp\<close>
  and \<^verbatim>\<open>bitbang_spi_rp2040.cpp\<close>) have in the same form, over the body of the bit loop as a
  parameter. The locale \<open>bit_shifter\<close> states what a body has to do for one bit; inside it the
  loops are shown to do it for every bit of every byte.
\<close>

text \<open>\<^verbatim>\<open>rxb = (uint8_t)((rxb << 1) | get_miso())\<close>\<close>

definition shift_in :: "u8 \<Rightarrow> bool \<Rightarrow> u8" where
  "shift_in rxb b = push_bit 1 rxb OR (if b then 1 else 0)"

text \<open>\<^verbatim>\<open>for (bit = 7; bit >= 0; bit--)\<close>: \<open>n\<close> turns are left, the next one sends bit \<open>n - 1\<close>.\<close>

fun shift_bits :: "(bool \<Rightarrow> u8 \<Rightarrow> 's \<Rightarrow> u8 \<times> 's) \<Rightarrow> u8 \<Rightarrow> nat \<Rightarrow> u8 \<Rightarrow> 's \<Rightarrow> u8 \<times> 's" where
  "shift_bits step txb 0 rxb s = (rxb, s)"
| "shift_bits step txb (Suc n) rxb s =
     (let (rxb, s) = step (bit txb n) rxb s in shift_bits step txb n rxb s)"

function shift_bytes ::
  "(bool \<Rightarrow> u8 \<Rightarrow> 's \<Rightarrow> u8 \<times> 's) \<Rightarrow> buf \<Rightarrow> nat \<Rightarrow> nat \<Rightarrow> buf \<Rightarrow> 's \<Rightarrow> (buf \<times> 's) option"
where
  "shift_bytes step tx len i rx s =
     (if i < len
      then do {
        txb \<leftarrow> rd8 tx i;
        let (rxb, s) = shift_bits step txb 8 0 s;
        rx \<leftarrow> wr8 rx i rxb;
        shift_bytes step tx len (Suc i) rx s }
      else Some (rx, s))"
  by pat_completeness auto
termination
  by (relation "measure (\<lambda>(step, tx, len, i, rx, s). len - i)") auto

declare shift_bytes.simps [simp del]

text \<open>The bits of a sequence of bytes, most significant first.\<close>

definition bytes_bits :: "buf \<Rightarrow> bool list" where
  "bytes_bits bs = concat (map bits_msb bs)"

lemma bytes_bits_simps [simp]:
  "bytes_bits [] = []" "bytes_bits (b # bs) = bits_msb b @ bytes_bits bs"
  by (simp_all add: bytes_bits_def)

lemma bits_msb_rev: "bits_msb b = map (bit b) (rev [0..<8])"
  by (simp add: bits_msb_def upt_rec numeral_eq_Suc)

lemma bit_shift_in: "bit (shift_in r b) n \<longleftrightarrow> (if n = 0 then b else n < 8 \<and> bit r (n - 1))"
  unfolding shift_in_def bit_or_iff bit_push_bit_iff by (cases n; cases b) (auto simp: bit_1_iff)

lemma bit_foldl_shift_in:
  "length levels \<le> 8 \<Longrightarrow> n < length levels \<Longrightarrow>
   bit (foldl shift_in r levels) n \<longleftrightarrow> levels ! (length levels - 1 - n)"
proof (induction levels arbitrary: n rule: rev_induct)
  case (snoc b levels)
  then show ?case by (cases n) (auto simp: bit_shift_in nth_append)
qed simp

lemma bits_msb_shift_in: "length levels = 8 \<Longrightarrow> bits_msb (foldl shift_in r levels) = levels"
  by (rule nth_equalityI) (auto simp: bits_msb_def bit_foldl_shift_in)

text \<open>
  \<open>sent s s' bits levels\<close>: from \<open>s\<close> to \<open>s'\<close> the port has shown \<open>bits\<close> to the slave and read
  \<open>levels\<close> from it.
\<close>

locale bit_shifter =
  fixes step :: "bool \<Rightarrow> u8 \<Rightarrow> 's \<Rightarrow> u8 \<times> 's"
    and sent :: "'s \<Rightarrow> 's \<Rightarrow> bool list \<Rightarrow> bool list \<Rightarrow> bool"
  assumes sent_none: "sent s s [] []"
    and sent_trans: "sent s s' bs ls \<Longrightarrow> sent s' s'' bs' ls' \<Longrightarrow> sent s s'' (bs @ bs') (ls @ ls')"
    and sent_bit: "\<exists>b s'. step m r s = (shift_in r b, s') \<and> sent s s' [m] [b]"
begin

lemma bits_sent:
  "\<exists>s' levels. shift_bits step txb n rxb s = (foldl shift_in rxb levels, s') \<and>
     length levels = n \<and> sent s s' (map (bit txb) (rev [0..<n])) levels"
proof (induction n arbitrary: rxb s)
  case 0
  show ?case by (simp add: sent_none)
next
  case (Suc n)
  obtain b s1 where 1: "step (bit txb n) rxb s = (shift_in rxb b, s1)" "sent s s1 [bit txb n] [b]"
    using sent_bit by blast
  obtain s2 levels where 2: "shift_bits step txb n (shift_in rxb b) s1 = (foldl shift_in (shift_in rxb b) levels, s2)"
    "length levels = n" "sent s1 s2 (map (bit txb) (rev [0..<n])) levels"
    using Suc.IH by blast
  have "sent s s2 (map (bit txb) (rev [0..<Suc n])) (b # levels)"
    using sent_trans [OF 1(2) 2(3)] by simp
  then show ?case
    using 1(1) 2(1,2) by (intro exI [of _ s2] exI [of _ "b # levels"]) simp
qed

lemma byte_sent:
  obtains x s' where "shift_bits step txb 8 0 s = (x, s')" "sent s s' (bits_msb txb) (bits_msb x)"
  using bits_sent [of txb 8 0 s] bits_msb_shift_in unfolding bits_msb_rev [of txb, symmetric] by metis

lemma bytes_sent:
  "len \<le> length tx \<Longrightarrow> len \<le> length rx \<Longrightarrow> i \<le> len \<Longrightarrow>
   \<exists>rxs s'. shift_bytes step tx len i rx s = Some (take i rx @ rxs @ drop len rx, s') \<and>
     length rxs = len - i \<and> sent s s' (bytes_bits (take (len - i) (drop i tx))) (bytes_bits rxs)"
proof (induction "len - i" arbitrary: i rx s)
  case 0
  then show ?case by (subst shift_bytes.simps) (simp add: sent_none)
next
  case (Suc k)
  then have i: "i < len" and k: "k = len - Suc i" by simp_all
  obtain x s1 where b: "shift_bits step (tx ! i) 8 0 s = (x, s1)" "sent s s1 (bits_msb (tx ! i)) (bits_msb x)"
    by (rule byte_sent)
  obtain rxs s2 where IH: "shift_bytes step tx len (Suc i) (rx[i := x]) s1 =
      Some (take (Suc i) (rx[i := x]) @ rxs @ drop len (rx[i := x]), s2)" "length rxs = len - Suc i"
    "sent s1 s2 (bytes_bits (take (len - Suc i) (drop (Suc i) tx))) (bytes_bits rxs)"
    using Suc.hyps(1) [OF k, of "rx[i := x]" s1] Suc.prems i by auto
  have "take (Suc i) (rx[i := x]) = take i rx @ [x]" using i Suc.prems by (intro take_update_last) simp
  then have "shift_bytes step tx len i rx s = Some (take i rx @ (x # rxs) @ drop len rx, s2)"
    using b(1) IH(1) i Suc.prems by (subst shift_bytes.simps) simp
  moreover have "sent s s2 (bytes_bits (take (len - i) (drop i tx))) (bytes_bits (x # rxs))"
    using sent_trans [OF b(2) IH(3)] i Suc.prems by (simp add: take_diff_drop)
  moreover have "length (x # rxs) = len - i" using IH(2) i by simp
  ultimately show ?case by blast
qed

end

end
