(* ===== verification/Can_Wire.thy ===== *)
theory Can_Wire
  imports Mcp2515 Spi_Shift
begin

text \<open>
  The CAN driver over an SPI port whose chip-select frames can be observed. The locale
  \<open>spi_framed\<close> states that a transaction always succeeds and is one frame; inside it every driver
  method is a fixed sequence of frames, and what it reports is decoded from the bytes the chip
  answered. Both bit-banged ports interpret it.
\<close>

text \<open>
  \<open>framed s s' out inp\<close>: from \<open>s\<close> to \<open>s'\<close> the chip was selected once per element of \<open>out\<close>, was
  sent those bytes, and answered \<open>inp\<close>.
\<close>

locale spi_framed =
  fixes dev :: "'s spi_dev"
    and framed :: "'s \<Rightarrow> 's \<Rightarrow> buf list \<Rightarrow> buf list \<Rightarrow> bool"
  assumes framed_transaction: "n \<le> length tx \<Longrightarrow> n \<le> length rx \<Longrightarrow>
      \<exists>rxs s'. spi_transaction dev i tx rx n s = Some (True, rxs @ drop n rx, s') \<and>
        length rxs = n \<and> framed s s' [take n tx] [rxs]"
    and framed_none: "framed s s [] []"
    and framed_trans: "framed s s' xs ys \<Longrightarrow> framed s' s'' xs' ys' \<Longrightarrow> framed s s'' (xs @ xs') (ys @ ys')"
begin

lemma send_framed:
  assumes "frame_ok f"
  obtains s' y1 y2 where "mcp_send dev i f s = Some (True, s')"
    "framed s s' [tx_header f @ tx_payload f, [0x81]] [y1, y2]"
proof -
  let ?n = "unat (f_dlc f)"
  let ?tx = "tx_header f @ tx_payload f @ replicate (8 - ?n) 0"
  have l: "length (tx_header f) = 6" "length (tx_payload f) = ?n" "?n \<le> 8"
    using assms by (simp_all add: tx_header_def tx_payload_def frame_ok_def dlc_bound)
  obtain y1 s1 where 1: "spi_transaction dev i ?tx (replicate 14 0) (6 + ?n) s =
      Some (True, y1 @ drop (6 + ?n) (replicate 14 0), s1)" "framed s s1 [take (6 + ?n) ?tx] [y1]"
    using framed_transaction [of "6 + ?n" ?tx "replicate 14 0" i s] l by auto
  obtain y2 s2 where 2: "spi_transaction dev i [INSTR_RTS_TXB0] [0] 1 s1 =
      Some (True, y2 @ drop 1 [0], s2)" "framed s1 s2 [take 1 [INSTR_RTS_TXB0]] [y2]"
    using framed_transaction [of 1 "[INSTR_RTS_TXB0]" "[0]" i s1] by auto
  have "mcp_send dev i f s = Some (True, s2)"
    using 1(1) 2(1) assms by (simp add: mcp_send_def mcp_tx_buffer_eq frame_ok_def not_less)
  moreover have "framed s s2 [tx_header f @ tx_payload f, [0x81]] [y1, y2]"
    using framed_trans [OF 1(2) 2(2)] l by (simp add: INSTR_RTS_TXB0_def)
  ultimately show ?thesis by (rule that)
qed

text \<open>\<^verbatim>\<open>receive\<close> reads the buffer and reports success whatever the interrupt flags are.\<close>

lemma receive_framed:
  assumes "length (f_data f) = 8"
  obtains s' y where "mcp_receive dev i f s = Some (True, rx_frame y, s')" "length y = 14"
    "framed s s' [0x90 # replicate 13 0] [y]"
proof -
  obtain y s1 where "spi_transaction dev i (INSTR_READ_RXB0 # replicate 13 0) (replicate 14 0) 14 s =
      Some (True, y, s1)" "length y = 14" "framed s s1 [0x90 # replicate 13 0] [y]"
    using framed_transaction [of 14 "INSTR_READ_RXB0 # replicate 13 0" "replicate 14 0" i s]
    by (auto simp: INSTR_READ_RXB0_def)
  then show ?thesis
    using assms by (intro that [of y s1]) (simp_all add: mcp_receive_def mcp_rx_frame_eq)
qed

lemma has_message_framed:
  obtains s' y where "mcp_has_message dev i s = Some (y ! 2 AND 0x01 \<noteq> 0, s')" "length y = 3"
    "framed s s' [[0x03, 0x2C, 0]] [y]"
proof -
  obtain y s1 where "spi_transaction dev i [INSTR_READ, REG_CANINTF, 0] [0, 0, 0] 3 s = Some (True, y, s1)"
    "length y = 3" "framed s s1 [[0x03, 0x2C, 0]] [y]"
    using framed_transaction [of 3 "[INSTR_READ, REG_CANINTF, 0]" "[0, 0, 0]" i s]
    by (auto simp: INSTR_READ_def REG_CANINTF_def)
  then show ?thesis
    by (intro that [of y s1]) (simp_all add: mcp_has_message_def mcp_read_reg_def)
qed

end

end
