(* ===== verification/Bitbang_Spi_Lpc.thy ===== *)
theory Bitbang_Spi_Lpc
  imports Can_Wire Mmio
begin

text \<open>
  \<^verbatim>\<open>src/hal/lpc1768/bitbang_spi_lpc1768.cpp\<close>: SPI on four pins of GPIO port 2. The object's
  fields and the register history form the state. An independent observer of the wires, which
  knows nothing of the code, collects the bits a slave would sample; the lemmas show that it
  sees exactly the bytes to be sent, framed by chip select, in all four modes, and that the
  received bytes are the levels read from the input pin.
\<close>

subsection \<open>Registers and pins\<close>

definition FIO2DIR :: u32 where "FIO2DIR = 0x2009C040"
definition FIO2PIN :: u32 where "FIO2PIN = 0x2009C054"
definition FIO2SET :: u32 where "FIO2SET = 0x2009C058"
definition FIO2CLR :: u32 where "FIO2CLR = 0x2009C05C"
definition PINSEL4 :: u32 where "PINSEL4 = 0x4002C010"

definition SCK_MASK :: u32 where "SCK_MASK = 1"
definition MOSI_MASK :: u32 where "MOSI_MASK = 2"
definition MISO_MASK :: u32 where "MISO_MASK = 4"
definition CS_MASK :: u32 where "CS_MASK = 8"

lemmas bb_spi_regs = FIO2DIR_def FIO2PIN_def FIO2SET_def FIO2CLR_def PINSEL4_def
  SCK_MASK_def MOSI_MASK_def MISO_MASK_def CS_MASK_def

record bb_spi =
  bb_delay :: u32
  bb_cpol :: u8
  bb_cpha :: u8
  bb_pwron :: u8
  bb_hw :: trace

definition bb_spi_new :: "trace \<Rightarrow> bb_spi" where
  "bb_spi_new hw = \<lparr>bb_delay = 0, bb_cpol = 0, bb_cpha = 0, bb_pwron = 0, bb_hw = hw\<rparr>"

subsection \<open>The code\<close>

definition set_sck :: "bool \<Rightarrow> trace \<Rightarrow> trace" where
  "set_sck v = (if v then reg_wr FIO2SET SCK_MASK else reg_wr FIO2CLR SCK_MASK)"

definition set_mosi :: "bool \<Rightarrow> trace \<Rightarrow> trace" where
  "set_mosi v = (if v then reg_wr FIO2SET MOSI_MASK else reg_wr FIO2CLR MOSI_MASK)"

definition get_miso :: "env \<Rightarrow> trace \<Rightarrow> bool \<times> trace" where
  "get_miso env tr = (let (v, tr) = reg_rd env FIO2PIN tr in (v AND MISO_MASK \<noteq> 0, tr))"

text \<open>\<^verbatim>\<open>while (n--) nop\<close>\<close>

definition delay_half_period :: "u32 \<Rightarrow> trace \<Rightarrow> trace" where
  "delay_half_period n tr = tr @ [Spin n]"

definition bb_init :: "env \<Rightarrow> u32 \<Rightarrow> u8 \<Rightarrow> bb_spi \<Rightarrow> (spi_status \<times> bb_spi) option" where
  "bb_init env clock_hz mode ob =
     (if clock_hz = 0 \<or> 4000000 < clock_hz \<or> 3 < mode then Some (Spi_HW_ERROR, ob)
      else
        let ob = ob\<lparr>bb_cpol := drop_bit 1 mode AND 1, bb_cpha := mode AND 1\<rparr>;
            half_period_ns = 500000000 div clock_hz;
            d = (half_period_ns * 24) div 1000;
            d = (if d < 1 then 1 else d);
            tr = reg_clear env PINSEL4
                   (push_bit 0 3 OR push_bit 2 3 OR push_bit 4 3 OR push_bit 6 3) (bb_hw ob);
            tr = reg_or env FIO2DIR (SCK_MASK OR MOSI_MASK OR CS_MASK) tr;
            tr = reg_clear env FIO2DIR MISO_MASK tr;
            tr = set_sck (bb_cpol ob \<noteq> 0) tr;
            tr = reg_wr FIO2SET CS_MASK tr
        in Some (Spi_OK, ob\<lparr>bb_delay := d, bb_hw := tr\<rparr>))"

text \<open>The body of the bit loop.\<close>

definition bb_bit :: "env \<Rightarrow> bb_spi \<Rightarrow> bool \<Rightarrow> u8 \<Rightarrow> trace \<Rightarrow> u8 \<times> trace" where
  "bb_bit env ob mosi rxb tr =
     (let cpol = (bb_cpol ob \<noteq> 0);
          tr = set_mosi mosi tr
      in if bb_cpha ob = 0 then
           let tr = delay_half_period (bb_delay ob) tr;
               tr = set_sck (\<not> cpol) tr;
               (b, tr) = get_miso env tr;
               tr = delay_half_period (bb_delay ob) tr;
               tr = set_sck cpol tr
           in (shift_in rxb b, tr)
         else
           let tr = set_sck (\<not> cpol) tr;
               tr = delay_half_period (bb_delay ob) tr;
               tr = set_sck cpol tr;
               (b, tr) = get_miso env tr;
               tr = delay_half_period (bb_delay ob) tr
           in (shift_in rxb b, tr))"

definition bb_transfer ::
  "env \<Rightarrow> buf option \<Rightarrow> buf option \<Rightarrow> nat \<Rightarrow> u32 \<Rightarrow> bb_spi \<Rightarrow> (spi_status \<times> buf \<times> bb_spi) option"
where
  "bb_transfer env tx rx len timeout_ms ob =
     (case (tx, rx) of
        (Some t, Some r) \<Rightarrow> do {
          (r, tr) \<leftarrow> shift_bytes (bb_bit env ob) t len 0 r (bb_hw ob);
          Some (Spi_OK, r, ob\<lparr>bb_hw := tr\<rparr>) }
      | (_, r) \<Rightarrow> Some (Spi_HW_ERROR, (case r of None \<Rightarrow> [] | Some r \<Rightarrow> r), ob))"

definition bb_select :: "u8 \<Rightarrow> bb_spi \<Rightarrow> (spi_status \<times> bb_spi) option" where
  "bb_select i ob = Some (Spi_OK, ob\<lparr>bb_hw := reg_wr FIO2CLR CS_MASK (bb_hw ob)\<rparr>)"

definition bb_deselect :: "u8 \<Rightarrow> bb_spi \<Rightarrow> (spi_status \<times> bb_spi) option" where
  "bb_deselect i ob = Some (Spi_OK, ob\<lparr>bb_hw := reg_wr FIO2SET CS_MASK (bb_hw ob)\<rparr>)"

text \<open>The class as an \<^verbatim>\<open>ISpi\<close>.\<close>

definition bb_spi_dev :: "env \<Rightarrow> bb_spi spi_dev" where
  "bb_spi_dev env = \<lparr>spi_init = bb_init env, spi_transfer = bb_transfer env,
     spi_select = bb_select, spi_deselect = bb_deselect\<rparr>"

lemma bb_spi_dev_simps [simp]:
  "spi_init (bb_spi_dev env) = bb_init env"
  "spi_transfer (bb_spi_dev env) = bb_transfer env"
  "spi_select (bb_spi_dev env) = bb_select"
  "spi_deselect (bb_spi_dev env) = bb_deselect"
  by (simp_all add: bb_spi_dev_def)

subsection \<open>An observer of the wires\<close>

text \<open>
  The levels of the clock, the data line and chip select (true is high), the bits sampled since
  chip select fell, and the finished frames, one per period of chip select low.
\<close>

record wire =
  w_sck :: bool
  w_mosi :: bool
  w_cs :: bool
  w_bits :: "bool list"
  w_frames :: "bool list list"

definition pin_after :: "u32 \<Rightarrow> hw_event \<Rightarrow> bool \<Rightarrow> bool" where
  "pin_after pins ev lvl = pin_level FIO2SET FIO2CLR pins lvl [ev]"

text \<open>A slave that samples the data line on clock edges towards \<open>edge\<close> (true: rising).\<close>

definition wire_step :: "bool \<Rightarrow> wire \<Rightarrow> hw_event \<Rightarrow> wire" where
  "wire_step edge w ev =
     (let sck = pin_after SCK_MASK ev (w_sck w);
          mosi = pin_after MOSI_MASK ev (w_mosi w);
          cs = pin_after CS_MASK ev (w_cs w);
          sample = (\<not> cs \<and> \<not> w_cs w \<and> sck \<noteq> w_sck w \<and> sck = edge);
          bits = (if cs \<noteq> w_cs w then [] else if sample then w_bits w @ [mosi] else w_bits w);
          frames = (if cs \<and> \<not> w_cs w then w_frames w @ [w_bits w] else w_frames w)
      in \<lparr>w_sck = sck, w_mosi = mosi, w_cs = cs, w_bits = bits, w_frames = frames\<rparr>)"

definition wire_run :: "bool \<Rightarrow> wire \<Rightarrow> trace \<Rightarrow> wire" where
  "wire_run edge = foldl (wire_step edge)"

lemma wire_run_simps [simp]:
  "wire_run edge w [] = w"
  "wire_run edge w (ev # tr) = wire_run edge (wire_step edge w ev) tr"
  "wire_run edge w (tr @ tr') = wire_run edge (wire_run edge w tr) tr'"
  by (simp_all add: wire_run_def)

text \<open>The sampling edge of an SPI mode: rising in modes 0 and 3.\<close>

definition sampling_edge :: "bb_spi \<Rightarrow> bool" where
  "sampling_edge ob \<longleftrightarrow> (bb_cpol ob \<noteq> 0) = (bb_cpha ob \<noteq> 0)"

definition idle_clock :: "bb_spi \<Rightarrow> wire \<Rightarrow> bool" where
  "idle_clock ob w \<longleftrightarrow> w_sck w = (bb_cpol ob \<noteq> 0)"

subsection \<open>What one bit, one byte and one transfer do\<close>

definition miso_levels :: "trace \<Rightarrow> bool list" where
  "miso_levels tr = map (\<lambda>v. v AND MISO_MASK \<noteq> 0) (reads_at FIO2PIN tr)"

lemma miso_levels_simps [simp]:
  "miso_levels [] = []"
  "miso_levels (tr @ tr') = miso_levels tr @ miso_levels tr'"
  by (simp_all add: miso_levels_def)

text \<open>
  \<open>sends ob evs bits levels\<close>: for a slave that is selected and sees an idle clock, the events
  \<open>evs\<close> deliver exactly \<open>bits\<close>, leave the clock idle and the slave selected, and read
  \<open>levels\<close> from the input pin.
\<close>

definition sends :: "bb_spi \<Rightarrow> trace \<Rightarrow> bool list \<Rightarrow> bool list \<Rightarrow> bool" where
  "sends ob evs bits levels \<longleftrightarrow> miso_levels evs = levels \<and>
     (\<forall>w. idle_clock ob w \<longrightarrow> \<not> w_cs w \<longrightarrow>
        idle_clock ob (wire_run (sampling_edge ob) w evs) \<and>
        \<not> w_cs (wire_run (sampling_edge ob) w evs) \<and>
        w_frames (wire_run (sampling_edge ob) w evs) = w_frames w \<and>
        w_bits (wire_run (sampling_edge ob) w evs) = w_bits w @ bits)"

lemma sends_Nil: "sends ob [] [] []"
  by (simp add: sends_def)

lemma sends_append:
  "sends ob evs bits levels \<Longrightarrow> sends ob evs' bits' levels' \<Longrightarrow>
   sends ob (evs @ evs') (bits @ bits') (levels @ levels')"
  by (simp add: sends_def)

lemma bb_bit_sends:
  "\<exists>evs b. bb_bit env ob m rxb tr = (shift_in rxb b, tr @ evs) \<and> sends ob evs [m] [b]"
  unfolding bb_bit_def sends_def set_sck_def set_mosi_def get_miso_def delay_half_period_def Let_def
  by (cases m; cases "bb_cpha ob = 0"; cases "bb_cpol ob = 0")
     (auto simp: miso_levels_def idle_clock_def sampling_edge_def wire_step_def pin_after_def
       Let_def bb_spi_regs)

interpretation bbs: bit_shifter "bb_bit env ob"
  "\<lambda>tr tr' bits levels. \<exists>evs. tr' = tr @ evs \<and> sends ob evs bits levels" for env ob
proof
  fix tr tr' tr'' :: trace and bs ls bs' ls' m r
  show "\<exists>evs. tr = tr @ evs \<and> sends ob evs [] []" by (simp add: sends_Nil)
  show "\<exists>evs. tr'' = tr @ evs \<and> sends ob evs (bs @ bs') (ls @ ls')"
    if "\<exists>evs. tr' = tr @ evs \<and> sends ob evs bs ls" "\<exists>evs. tr'' = tr' @ evs \<and> sends ob evs bs' ls'"
    using that sends_append by fastforce
  show "\<exists>b s'. bb_bit env ob m r tr = (shift_in r b, s') \<and> (\<exists>evs. s' = tr @ evs \<and> sends ob evs [m] [b])"
    using bb_bit_sends [of env ob m r tr] by blast
qed

lemma bb_transfer_sends:
  assumes "len \<le> length tx" and "len \<le> length rx"
  obtains rxs evs where
    "bb_transfer env (Some tx) (Some rx) len t ob =
       Some (Spi_OK, rxs @ drop len rx, ob\<lparr>bb_hw := bb_hw ob @ evs\<rparr>)"
    "length rxs = len"
    "sends ob evs (bytes_bits (take len tx)) (bytes_bits rxs)"
  using bbs.bytes_sent [OF assms le0, of env ob "bb_hw ob"] that
  by (auto simp: bb_transfer_def)

subsection \<open>The class meets the SPI contracts\<close>

definition bb_selected :: "bb_spi \<Rightarrow> bool" where
  "bb_selected ob \<longleftrightarrow> \<not> pin_level FIO2SET FIO2CLR CS_MASK True (bb_hw ob)"

interpretation bb: spi_infallible "bb_spi_dev env" "\<lambda>_. True" for env
proof
  fix s :: bb_spi and i n and tx rx :: buf and t st rx' s'
  show "\<exists>st s'. spi_select (bb_spi_dev env) i s = Some (st, s') \<and> True"
    "\<exists>st s'. spi_deselect (bb_spi_dev env) i s = Some (st, s') \<and> True"
    by (simp_all add: bb_select_def bb_deselect_def)
  show "st = Spi_OK" if "spi_select (bb_spi_dev env) i s = Some (st, s')"
    using that by (simp add: bb_select_def)
  assume n: "n \<le> length tx" "n \<le> length rx"
  show "\<exists>st rx' s'. spi_transfer (bb_spi_dev env) (Some tx) (Some rx) n t s = Some (st, rx', s') \<and>
      length rx' = length rx \<and> True"
    by (rule bb_transfer_sends [OF n, of env t s]) (use n in auto)
  show "st = Spi_OK"
    if "spi_transfer (bb_spi_dev env) (Some tx) (Some rx) n 100 s = Some (st, rx', s')"
    by (rule bb_transfer_sends [OF n, of env 100 s]) (use that in auto)
qed

interpretation bb: spi_selecting "bb_spi_dev env" "\<lambda>_. True" bb_selected for env
  by unfold_locales
     (auto simp: bb_select_def bb_deselect_def bb_selected_def bb_spi_regs)

subsection \<open>Transactions on the wire\<close>

text \<open>
  \<open>frames_on ob evs fs\<close>: a slave that is deselected and sees an idle clock receives exactly the
  frames \<open>fs\<close> during \<open>evs\<close>, and is deselected with an idle clock again at the end.
\<close>

definition frames_on :: "bb_spi \<Rightarrow> trace \<Rightarrow> bool list list \<Rightarrow> bool" where
  "frames_on ob evs fs \<longleftrightarrow> (\<forall>w. idle_clock ob w \<longrightarrow> w_cs w \<longrightarrow>
     idle_clock ob (wire_run (sampling_edge ob) w evs) \<and>
     w_cs (wire_run (sampling_edge ob) w evs) \<and>
     w_frames (wire_run (sampling_edge ob) w evs) = w_frames w @ fs)"

lemma frames_on_append:
  "frames_on ob evs fs \<Longrightarrow> frames_on ob evs' fs' \<Longrightarrow> frames_on ob (evs @ evs') (fs @ fs')"
  by (simp add: frames_on_def)

lemma frames_on_framed:
  assumes "sends ob evs bits levels"
  shows "frames_on ob (Wr FIO2CLR CS_MASK # evs @ [Wr FIO2SET CS_MASK]) [bits]"
  unfolding frames_on_def
proof (intro allI impI)
  fix w assume w: "idle_clock ob w" "w_cs w"
  let ?e = "sampling_edge ob"
  define w1 where "w1 = wire_step ?e w (Wr FIO2CLR CS_MASK)"
  define w2 where "w2 = wire_run ?e w1 evs"
  have 1: "idle_clock ob w1" "\<not> w_cs w1" "w_bits w1 = []" "w_frames w1 = w_frames w"
    using w by (auto simp: w1_def wire_step_def pin_after_def Let_def bb_spi_regs idle_clock_def)
  have 2: "idle_clock ob w2" "\<not> w_cs w2" "w_frames w2 = w_frames w" "w_bits w2 = bits"
    using assms 1 unfolding w2_def sends_def by auto
  have "idle_clock ob (wire_step ?e w2 (Wr FIO2SET CS_MASK)) \<and>
      w_cs (wire_step ?e w2 (Wr FIO2SET CS_MASK)) \<and>
      w_frames (wire_step ?e w2 (Wr FIO2SET CS_MASK)) = w_frames w @ [bits]"
    using 2 by (auto simp: wire_step_def pin_after_def Let_def bb_spi_regs idle_clock_def)
  then show "idle_clock ob (wire_run ?e w (Wr FIO2CLR CS_MASK # evs @ [Wr FIO2SET CS_MASK])) \<and>
      w_cs (wire_run ?e w (Wr FIO2CLR CS_MASK # evs @ [Wr FIO2SET CS_MASK])) \<and>
      w_frames (wire_run ?e w (Wr FIO2CLR CS_MASK # evs @ [Wr FIO2SET CS_MASK])) = w_frames w @ [bits]"
    by (simp add: w1_def w2_def)
qed

text \<open>The same object with a longer history: fields that a transfer reads are unchanged.\<close>

lemma with_hw_simps [simp]:
  "frames_on (ob\<lparr>bb_hw := h\<rparr>) = frames_on ob"
  "sends (ob\<lparr>bb_hw := h\<rparr>) = sends ob"
  by (simp_all add: fun_eq_iff frames_on_def sends_def idle_clock_def sampling_edge_def)

lemma bb_transaction:
  assumes "n \<le> length tx" and "n \<le> length rx"
  obtains rxs evs where
    "spi_transaction (bb_spi_dev env) i tx rx n ob =
       Some (True, rxs @ drop n rx, ob\<lparr>bb_hw := bb_hw ob @ evs\<rparr>)"
    "length rxs = n" "bytes_bits rxs = miso_levels evs"
    "frames_on ob evs [bytes_bits (take n tx)]"
proof -
  let ?ob = "ob\<lparr>bb_hw := bb_hw ob @ [Wr FIO2CLR CS_MASK]\<rparr>"
  obtain rxs evs where t: "bb_transfer env (Some tx) (Some rx) n 100 ?ob =
       Some (Spi_OK, rxs @ drop n rx, ?ob\<lparr>bb_hw := bb_hw ?ob @ evs\<rparr>)" "length rxs = n"
    and s: "sends ob evs (bytes_bits (take n tx)) (bytes_bits rxs)"
    by (rule bb_transfer_sends [OF assms, of env 100 ?ob]) auto
  let ?evs = "Wr FIO2CLR CS_MASK # evs @ [Wr FIO2SET CS_MASK]"
  show ?thesis
  proof (rule that)
    show "spi_transaction (bb_spi_dev env) i tx rx n ob =
       Some (True, rxs @ drop n rx, ob\<lparr>bb_hw := bb_hw ob @ ?evs\<rparr>)"
      using t by (simp add: spi_transaction_def SPI_TIMEOUT_MS_def bb_select_def bb_deselect_def)
    show "length rxs = n" by (fact t(2))
    show "bytes_bits rxs = miso_levels ?evs"
      using s by (simp add: sends_def miso_levels_def)
    show "frames_on ob ?evs [bytes_bits (take n tx)]"
      using frames_on_framed [OF s] by simp
  qed
qed

definition bb_framed :: "bb_spi \<Rightarrow> bb_spi \<Rightarrow> buf list \<Rightarrow> buf list \<Rightarrow> bool" where
  "bb_framed ob ob' out inp \<longleftrightarrow> (\<exists>evs. ob' = ob\<lparr>bb_hw := bb_hw ob @ evs\<rparr> \<and>
     frames_on ob evs (map bytes_bits out) \<and> miso_levels evs = concat (map bytes_bits inp))"

interpretation bbf: spi_framed "bb_spi_dev env" bb_framed for env
proof
  fix n i and tx rx :: buf and s s' s'' :: bb_spi and xs ys xs' ys'
  show "bb_framed s s [] []"
    unfolding bb_framed_def by (intro exI [of _ "[]"]) (simp add: frames_on_def)
  show "bb_framed s s'' (xs @ xs') (ys @ ys')" if f: "bb_framed s s' xs ys" "bb_framed s' s'' xs' ys'"
  proof -
    obtain e where 1: "s' = s\<lparr>bb_hw := bb_hw s @ e\<rparr>" "frames_on s e (map bytes_bits xs)"
      "miso_levels e = concat (map bytes_bits ys)" using f(1) unfolding bb_framed_def by (elim exE conjE) (rule that)
    obtain e' where 2: "s'' = s'\<lparr>bb_hw := bb_hw s' @ e'\<rparr>" "frames_on s' e' (map bytes_bits xs')"
      "miso_levels e' = concat (map bytes_bits ys')" using f(2) unfolding bb_framed_def by (elim exE conjE) (rule that)
    show ?thesis
      unfolding bb_framed_def using 1 2 frames_on_append [OF 1(2), of e']
      by (intro exI [of _ "e @ e'"]) simp
  qed
  show "\<exists>rxs s'. spi_transaction (bb_spi_dev env) i tx rx n s = Some (True, rxs @ drop n rx, s') \<and>
      length rxs = n \<and> bb_framed s s' [take n tx] [rxs]" if "n \<le> length tx" "n \<le> length rx"
    by (rule bb_transaction [OF that, of env i s]) (auto simp: bb_framed_def)
qed

text \<open>A chip that keeps its output low answers zeros.\<close>

lemma low_step: "fst (bb_bit (\<lambda>_ _. 0) ob m r tr) = shift_in r False"
  by (auto simp: bb_bit_def set_sck_def set_mosi_def get_miso_def delay_half_period_def Let_def)

lemma low_bits: "fst (shift_bits (bb_bit (\<lambda>_ _. 0) ob) txb n 0 tr) = 0"
proof (induction n arbitrary: tr)
  case (Suc n)
  have "fst (bb_bit (\<lambda>_ _. 0) ob (bit txb n) 0 tr) = 0"
    using low_step [of ob "bit txb n" 0 tr] by (simp add: shift_in_def)
  then show ?case using Suc by (simp add: Let_def split_beta)
qed simp

lemma low_bytes:
  "len \<le> length tx \<Longrightarrow> len \<le> length rx \<Longrightarrow> i \<le> len \<Longrightarrow>
   \<exists>tr'. shift_bytes (bb_bit (\<lambda>_ _. 0) ob) tx len i rx tr =
     Some (take i rx @ replicate (len - i) 0 @ drop len rx, tr')"
proof (induction "len - i" arbitrary: i rx tr)
  case 0
  then show ?case by (subst shift_bytes.simps) simp
next
  case (Suc k)
  then have i: "i < len" and k: "k = len - Suc i" and d: "len - i = Suc k" by simp_all
  have "take (Suc i) (rx[i := 0]) = take i rx @ [0]" using i Suc.prems by (intro take_update_last) simp
  then show ?case
    using Suc.hyps(1) [OF k, of "rx[i := 0]" "snd (shift_bits (bb_bit (\<lambda>_ _. 0) ob) (tx ! i) 8 0 tr)"]
      Suc.prems i k low_bits [of ob "tx ! i" 8 tr]
    unfolding d by (subst shift_bytes.simps) (simp add: Let_def split_beta)
qed

lemma bb_low_transaction:
  assumes "n \<le> length tx" and "n \<le> length rx"
  obtains ob' where "spi_transaction (bb_spi_dev (\<lambda>_ _. 0)) i tx rx n ob =
    Some (True, replicate n 0 @ drop n rx, ob')"
proof -
  let ?ob = "ob\<lparr>bb_hw := bb_hw ob @ [Wr FIO2CLR CS_MASK]\<rparr>"
  obtain tr' where "shift_bytes (bb_bit (\<lambda>_ _. 0) ?ob) tx n 0 rx (bb_hw ?ob) =
      Some (take 0 rx @ replicate (n - 0) 0 @ drop n rx, tr')"
    using low_bytes [OF assms le0] by blast
  then have "spi_transaction (bb_spi_dev (\<lambda>_ _. 0)) i tx rx n ob = Some (True, replicate n 0 @ drop n rx,
      ?ob\<lparr>bb_hw := tr' @ [Wr FIO2SET CS_MASK]\<rparr>)"
    by (simp add: spi_transaction_def SPI_TIMEOUT_MS_def bb_select_def bb_transfer_def bb_deselect_def)
  then show ?thesis by (rule that)
qed

lemma rx_frame_low: "rx_frame (replicate 14 0) = frame_new"
  by (simp add: rx_frame_def rx_dlc_def rx_id_def frame_new_def Let_def)

subsection \<open>Properties\<close>

text \<open>For every clock polarity and phase, every buffer and every behaviour of the input pin, a
  transfer succeeds, and a slave that samples on the mode's edge, selected and with an idle
  clock, receives exactly the transmitted bytes, most significant bit first, and still sees the
  clock idle; the received bytes are the levels read from the input pin, in order, and the rest
  of the receive buffer is unchanged.\<close>

theorem bitbang_transfer_on_wire:
  assumes "len \<le> length tx" and "len \<le> length rx"
  shows "\<exists>rxs evs. bb_transfer env (Some tx) (Some rx) len t ob =
      Some (Spi_OK, rxs @ drop len rx, ob\<lparr>bb_hw := bb_hw ob @ evs\<rparr>) \<and>
    length rxs = len \<and> bytes_bits rxs = miso_levels evs \<and>
    (\<forall>w. idle_clock ob w \<and> \<not> w_cs w \<longrightarrow>
      w_bits (wire_run (sampling_edge ob) w evs) = w_bits w @ bytes_bits (take len tx) \<and>
      idle_clock ob (wire_run (sampling_edge ob) w evs))"
proof (rule bb_transfer_sends [OF assms, of env t ob])
  fix rxs evs
  assume "bb_transfer env (Some tx) (Some rx) len t ob =
      Some (Spi_OK, rxs @ drop len rx, ob\<lparr>bb_hw := bb_hw ob @ evs\<rparr>)" "length rxs = len"
    and "sends ob evs (bytes_bits (take len tx)) (bytes_bits rxs)"
  then show ?thesis
    by (intro exI [of _ rxs] exI [of _ evs]) (simp add: sends_def)
qed

theorem bitbang_transfer_on_wire_witness:
  "\<exists>rxs evs. bb_transfer (\<lambda>_ _. 4) (Some [0xA5, 1]) (Some [0, 7]) 1 100 (bb_spi_new []) =
      Some (Spi_OK, rxs @ [7], (bb_spi_new [])\<lparr>bb_hw := evs\<rparr>) \<and>
    bytes_bits rxs = miso_levels evs \<and>
    w_bits (wire_run True \<lparr>w_sck = False, w_mosi = False, w_cs = False, w_bits = [], w_frames = []\<rparr> evs) =
      bytes_bits [0xA5]"
proof -
  let ?w = "\<lparr>w_sck = False, w_mosi = False, w_cs = False, w_bits = [], w_frames = []\<rparr>"
  obtain rxs evs where "bb_transfer (\<lambda>_ _. 4) (Some [0xA5, 1]) (Some [0, 7]) 1 100 (bb_spi_new []) =
      Some (Spi_OK, rxs @ drop 1 [0, 7], (bb_spi_new [])\<lparr>bb_hw := bb_hw (bb_spi_new []) @ evs\<rparr>)"
    "bytes_bits rxs = miso_levels evs"
    "idle_clock (bb_spi_new []) ?w \<and> \<not> w_cs ?w \<longrightarrow>
      w_bits (wire_run (sampling_edge (bb_spi_new [])) ?w evs) = w_bits ?w @ bytes_bits (take 1 [0xA5, 1])"
    using bitbang_transfer_on_wire [of 1 "[0xA5, 1]" "[0, 7]" "\<lambda>_ _. 4" 100 "bb_spi_new []"] by auto
  then show ?thesis
    by (intro exI [of _ rxs] exI [of _ evs])
       (simp add: bb_spi_new_def idle_clock_def sampling_edge_def)
qed

text \<open>C14: sending a CAN frame over the bit-banged bus, whatever the input pin does, succeeds and
  shows a slave exactly two frames between chip selects: the load instruction with the header
  and payload bytes, then the single byte 0x81; chip select and clock are idle afterwards.\<close>

theorem can_send_on_wire:
  assumes "frame_ok f"
  shows "\<exists>evs. mcp_send (bb_spi_dev env) i f ob = Some (True, ob\<lparr>bb_hw := bb_hw ob @ evs\<rparr>) \<and>
    frames_on ob evs [bytes_bits (tx_header f @ tx_payload f), bytes_bits [0x81]]"
  by (rule bbf.send_framed [OF assms, of env i ob]) (auto simp: bb_framed_def)

theorem can_send_on_wire_witness:
  "\<exists>evs. mcp_send (bb_spi_dev (\<lambda>_ _. 0)) 0 \<lparr>f_id = 1, f_dlc = 1, f_data = replicate 8 7\<rparr> (bb_spi_new []) =
      Some (True, (bb_spi_new [])\<lparr>bb_hw := bb_hw (bb_spi_new []) @ evs\<rparr>)"
  using can_send_on_wire [of "\<lparr>f_id = 1, f_dlc = 1, f_data = replicate 8 7\<rparr>" "\<lambda>_ _. 0" 0 "bb_spi_new []"]
  by (auto simp: frame_ok_def)

text \<open>
  \<^verbatim>\<open>Mcp2515::receive\<close> reports a frame whether or not one is waiting: over the bit-banged bus, for every
  chip and in every state, it returns true with whatever the receive buffer's image decodes
  to. A chip that keeps its output low has no message, by \<^verbatim>\<open>has_message\<close>, and still \<^verbatim>\<open>receive\<close> delivers a
  frame, of identifier 0 and without data. (The declaration promises true only if the flag is set.)
\<close>

theorem can_receive_ignores_flag:
  assumes "length (f_data f) = 8"
  shows "(\<exists>y ob'. mcp_receive (bb_spi_dev env) i f ob = Some (True, rx_frame y, ob') \<and> length y = 14 \<and>
      bb_framed ob ob' [0x90 # replicate 13 0] [y]) \<and>
    (\<exists>ob'. mcp_has_message (bb_spi_dev (\<lambda>_ _. 0)) i ob = Some (False, ob')) \<and>
    (\<exists>ob'. mcp_receive (bb_spi_dev (\<lambda>_ _. 0)) i f ob = Some (True, frame_new, ob'))"
proof (intro conjI)
  show "\<exists>y ob'. mcp_receive (bb_spi_dev env) i f ob = Some (True, rx_frame y, ob') \<and> length y = 14 \<and>
      bb_framed ob ob' [0x90 # replicate 13 0] [y]"
    by (rule bbf.receive_framed [OF assms, of env i ob]) blast
  show "\<exists>ob'. mcp_has_message (bb_spi_dev (\<lambda>_ _. 0)) i ob = Some (False, ob')"
    by (rule bb_low_transaction [of 3 "[INSTR_READ, REG_CANINTF, 0]" "[0, 0, 0]" i ob])
      (simp_all add: mcp_has_message_def mcp_read_reg_def eval_nat_numeral)
  show "\<exists>ob'. mcp_receive (bb_spi_dev (\<lambda>_ _. 0)) i f ob = Some (True, frame_new, ob')"
    by (rule bb_low_transaction [of 14 "INSTR_READ_RXB0 # replicate 13 0" "replicate 14 0" i ob])
      (use assms in \<open>simp_all add: mcp_receive_def mcp_rx_frame_eq rx_frame_low\<close>)
qed

theorem can_receive_ignores_flag_witness:
  "\<exists>ob'. mcp_receive (bb_spi_dev (\<lambda>_ _. 0)) 0 frame_new (bb_spi_new []) = Some (True, frame_new, ob')"
  using can_receive_ignores_flag [of frame_new "\<lambda>_ _. 0" 0 "bb_spi_new []"] by (simp add: frame_new_def)

text \<open>C29: every method of the CAN driver over the bit-banged bus returns (no loop runs forever, no
  array is overrun) and leaves the chip deselected, whatever the hardware does; a frame it
  reports as received is always well formed, and a failed receive leaves the caller's frame.\<close>

theorem can_driver_total_on_bitbang:
  assumes "\<not> bb_selected ob" and "length (f_data f) = 8"
    and "\<And>us ob. bb_selected (delay us ob) = bb_selected ob"
  shows "(\<exists>ok ob'. mcp_init (bb_spi_dev env) i delay c1 c2 c3 m osc ob = Some (ok, ob') \<and> \<not> bb_selected ob') \<and>
    (\<exists>ok ob'. mcp_send (bb_spi_dev env) i f ob = Some (ok, ob') \<and> \<not> bb_selected ob') \<and>
    (\<exists>ok ob'. mcp_has_message (bb_spi_dev env) i ob = Some (ok, ob') \<and> \<not> bb_selected ob') \<and>
    (\<exists>ok f' ob'. mcp_receive (bb_spi_dev env) i f ob = Some (ok, f', ob') \<and> \<not> bb_selected ob' \<and>
      (if ok then frame_ok f' else f' = f))"
proof (intro conjI)
  have idle: "True \<and> \<not> bb_selected ob" using assms(1) by simp
  show "\<exists>ok ob'. mcp_init (bb_spi_dev env) i delay c1 c2 c3 m osc ob = Some (ok, ob') \<and> \<not> bb_selected ob'"
    by (rule bb.idle.init_returns [OF idle, of delay env i c1 c2 c3 m osc]) (use assms(3) in auto)
  show "\<exists>ok ob'. mcp_send (bb_spi_dev env) i f ob = Some (ok, ob') \<and> \<not> bb_selected ob'"
    by (rule bb.idle.send_returns [OF idle assms(2), of env i]) auto
  show "\<exists>ok ob'. mcp_has_message (bb_spi_dev env) i ob = Some (ok, ob') \<and> \<not> bb_selected ob'"
    by (rule bb.idle.has_message_returns [OF idle, of env i]) auto
  show "\<exists>ok f' ob'. mcp_receive (bb_spi_dev env) i f ob = Some (ok, f', ob') \<and> \<not> bb_selected ob' \<and>
      (if ok then frame_ok f' else f' = f)"
    by (rule bb.idle.receive_returns [OF idle assms(2), of env i]) auto
qed

theorem can_driver_total_on_bitbang_witness:
  "\<exists>ok ob'. mcp_init (bb_spi_dev (\<lambda>_ _. 0)) 0 (\<lambda>us ob. ob\<lparr>bb_hw := bb_hw ob @ [Spin us]\<rparr>) 3 0xB6 4
      NORMAL 12000000 (bb_spi_new []) = Some (ok, ob') \<and> \<not> bb_selected ob'"
  using can_driver_total_on_bitbang [of "bb_spi_new []" frame_new
      "\<lambda>us ob. ob\<lparr>bb_hw := bb_hw ob @ [Spin us]\<rparr>"]
  by (simp add: bb_selected_def bb_spi_new_def frame_new_def)

text \<open>C31: \<^verbatim>\<open>init\<close> accepts exactly the clocks from 1 Hz to 4 MHz and the four modes, and changes nothing
  otherwise. On success the pins idle (clock at its polarity, chip select high), and the
  half-period loop count is the intended quotient \<open>12000000 / clock\<close> in effect (24 turns per
  microsecond of half period, at least one) for every clock of 3 Hz and more; for 1 and 2 Hz, and
  only for these, the 32-bit product wraps and the count is another one.\<close>

theorem bitbang_spi_init:
  "if clock_hz = 0 \<or> 4000000 < clock_hz \<or> 3 < m
   then bb_init env clock_hz m ob = Some (Spi_HW_ERROR, ob)
   else \<exists>ob'. bb_init env clock_hz m ob = Some (Spi_OK, ob') \<and>
     bb_cpol ob' = drop_bit 1 m AND 1 \<and> bb_cpha ob' = m AND 1 \<and>
     pin_level FIO2SET FIO2CLR SCK_MASK lvl (bb_hw ob') = (bb_cpol ob' \<noteq> 0) \<and> \<not> bb_selected ob' \<and>
     (unat (bb_delay ob') = max 1 ((500000000 div unat clock_hz) * 24 div 1000) \<longleftrightarrow> 3 \<le> clock_hz)"
proof (cases "clock_hz = 0 \<or> 4000000 < clock_hz \<or> 3 < m")
  case True
  then show ?thesis by (simp add: bb_init_def)
next
  case False
  let ?c = "unat clock_hz"
  let ?d = "((500000000 div clock_hz) * 24) div 1000 :: u32"
  have c: "0 < ?c" "?c \<le> 4000000"
    using False by (simp_all add: unat_gt_0 word_less_nat_alt)
  have h: "unat (500000000 div clock_hz) = 500000000 div ?c" by (simp add: unat_div)
  have three: "3 \<le> clock_hz \<longleftrightarrow> 3 \<le> ?c" by (simp add: word_le_nat_alt)
  have m: "unat (if ?d < 1 then 1 else ?d) = max 1 (unat ?d)"
    by (simp add: word_less_nat_alt max_def)
  have d: "max 1 (unat ?d) = max 1 ((500000000 div ?c) * 24 div 1000) \<longleftrightarrow> 3 \<le> clock_hz"
  proof (cases "3 \<le> ?c")
    case True
    then have "500000000 div ?c \<le> 500000000 div 3" by (intro div_le_mono2) simp_all
    then have "unat ((500000000 div clock_hz) * 24) = (500000000 div ?c) * 24"
      using h by (subst unat_mult_lem [THEN iffD1]) simp_all
    then show ?thesis using True three by (simp add: unat_div)
  next
    case False
    then consider "?c = 1" | "?c = 2" using c by linarith
    then have "clock_hz = 1 \<or> clock_hz = 2" by cases (simp_all add: word_unat_eq_iff)
    then show ?thesis by (auto simp: word_le_nat_alt)
  qed
  show ?thesis
    using False m d
    by (auto simp: bb_init_def Let_def reg_or_def reg_clear_def set_sck_def bb_selected_def bb_spi_regs)
qed

end
