(* ===== verification/Rs485_Protocol.thy ===== *)
theory Rs485_Protocol
  imports Hal Crc16 Cobs
begin

text \<open>
  \<^verbatim>\<open>src/drivers/rs485_protocol.cpp\<close>: stop-and-wait frames
  \<open>[SOF, COBS([TYPE, SEQ, PAYLOAD..., CRC-HI, CRC-LO]), 0]\<close> over an injected RS-485 port. The
  two byte-by-byte read loops of the source are one definition with the buffer size and the
  receive timeout as parameters; they may wait forever on a line that never falls silent and
  never carries a start byte, so they are partial functions. Arrays without an initialiser
  hold arbitrary bytes \<open>junk k i\<close> (array \<open>k\<close>, index \<open>i\<close>).
\<close>

subsection \<open>The code\<close>

definition MAX_PAYLOAD :: nat where "MAX_PAYLOAD = 128"
definition SOF :: u8 where "SOF = 0x55"
definition MAX_RETRIES :: nat where "MAX_RETRIES = 3"
definition ACK_TIMEOUT_MS :: u32 where "ACK_TIMEOUT_MS = 100"

datatype frame_type = DATA | ACK | NACK

fun frame_type_code :: "frame_type \<Rightarrow> u8" where
  "frame_type_code DATA = 1"
| "frame_type_code ACK = 2"
| "frame_type_code NACK = 3"

record rs485_proto =
  rp_seq :: u8

definition rs485_proto_new :: rs485_proto where
  "rs485_proto_new = \<lparr>rp_seq = 0\<rparr>"

definition rp_init :: "'s rs485_dev \<Rightarrow> u32 \<Rightarrow> 's \<Rightarrow> (bool \<times> 's) option" where
  "rp_init dev baud s = do { (st, s) \<leftarrow> rs_init dev baud s; Some (st = St_OK, s) }"

definition send_raw :: "'s rs485_dev \<Rightarrow> buf \<Rightarrow> nat \<Rightarrow> 's \<Rightarrow> (bool \<times> 's) option" where
  "send_raw dev b len s = do { (st, s) \<leftarrow> rs_send dev (Some b) len ACK_TIMEOUT_MS s; Some (st = St_OK, s) }"

definition compute_crc :: "buf \<Rightarrow> nat \<Rightarrow> u16 option" where
  "compute_crc b len = crc16_ccitt (Some b) len"

text \<open>
  The loops that read one packet from the line: bytes before the first start byte are
  skipped, the following ones are stored up to and including a zero byte, or until the buffer
  is full. The flag is \<open>False\<close> when the port reported anything but success.
\<close>

partial_function (option) read_packet ::
  "'s rs485_dev \<Rightarrow> nat \<Rightarrow> u32 \<Rightarrow> u8 \<Rightarrow> buf \<Rightarrow> nat \<Rightarrow> bool \<Rightarrow> 's \<Rightarrow> (bool \<times> buf \<times> nat \<times> 's) option"
where
  "read_packet dev cap timeout junk cobs_packet cobs_idx sof_found s =
     (if cobs_idx < cap then do {
        (st, bytes, n, s) \<leftarrow> rs_recv dev (Some [junk]) 1 timeout s;
        if st \<noteq> St_OK then Some (False, cobs_packet, cobs_idx, s)
        else do {
          byte \<leftarrow> rd8 bytes 0;
          if \<not> sof_found then
            read_packet dev cap timeout junk cobs_packet cobs_idx (byte = SOF) s
          else do {
            cobs_packet \<leftarrow> wr8 cobs_packet cobs_idx byte;
            if byte = 0 then Some (True, cobs_packet, cobs_idx + 1, s)
            else read_packet dev cap timeout junk cobs_packet (cobs_idx + 1) True s } } }
      else Some (True, cobs_packet, cobs_idx, s))"

text \<open>\<open>(raw[n - 2] << 8) | raw[n - 1]\<close>, the checksum a decoded frame carries.\<close>

definition rx_crc :: "buf \<Rightarrow> nat \<Rightarrow> u16 option" where
  "rx_crc raw n = do { h \<leftarrow> rd8 raw (n - 2); l \<leftarrow> rd8 raw (n - 1); Some (be16 h l) }"

definition wait_for_ack ::
  "'s rs485_dev \<Rightarrow> (nat \<Rightarrow> nat \<Rightarrow> u8) \<Rightarrow> u8 \<Rightarrow> 's \<Rightarrow> (bool \<times> 's) option"
where
  "wait_for_ack dev junk expected_seq s = do {
     (ok, cobs_packet, cobs_idx, s) \<leftarrow>
       read_packet dev 16 ACK_TIMEOUT_MS (junk 2 0) (uninit (junk 3) 16) 0 False s;
     if \<not> ok then Some (False, s)
     else do {
       (decoded_len, raw) \<leftarrow> cobs_decode cobs_packet cobs_idx (uninit (junk 4) 16) 16;
       if decoded_len < 4 then Some (False, s)
       else do {
         rx \<leftarrow> rx_crc raw decoded_len;
         calc \<leftarrow> compute_crc raw (decoded_len - 2);
         if calc \<noteq> rx then Some (False, s)
         else do {
           ty \<leftarrow> rd8 raw 0;
           sq \<leftarrow> rd8 raw 1;
           Some (ty = frame_type_code ACK \<and> sq = expected_seq, s) } } } }"

text \<open>\<^verbatim>\<open>for (attempt = 0; attempt <= MAX_RETRIES; attempt++)\<close>, \<open>k\<close> attempts left.\<close>

fun send_attempts ::
  "'s rs485_dev \<Rightarrow> (nat \<Rightarrow> nat \<Rightarrow> u8) \<Rightarrow> buf \<Rightarrow> nat \<Rightarrow> u8 \<Rightarrow> nat \<Rightarrow> 's \<Rightarrow> (bool \<times> 's) option"
where
  "send_attempts dev junk tx n sq 0 s = Some (False, s)"
| "send_attempts dev junk tx n sq (Suc k) s = do {
     (ok, s) \<leftarrow> send_raw dev tx n s;
     if \<not> ok then send_attempts dev junk tx n sq k s
     else do {
       (ok, s) \<leftarrow> wait_for_ack dev junk sq s;
       if ok then Some (True, s) else send_attempts dev junk tx n sq k s } }"

definition rp_send_frame ::
  "'s rs485_dev \<Rightarrow> (nat \<Rightarrow> nat \<Rightarrow> u8) \<Rightarrow> buf option \<Rightarrow> nat \<Rightarrow> rs485_proto \<Rightarrow> 's \<Rightarrow>
   (bool \<times> rs485_proto \<times> 's) option"
where
  "rp_send_frame dev junk payload len p s =
     (case payload of
        None \<Rightarrow> Some (False, p, s)
      | Some pl \<Rightarrow>
        if MAX_PAYLOAD < len then Some (False, p, s)
        else do {
          let raw = uninit (junk 0) (3 + MAX_PAYLOAD + 2);
          raw \<leftarrow> wr8 raw 0 (frame_type_code DATA);
          raw \<leftarrow> wr8 raw 1 (rp_seq p);
          raw \<leftarrow> memcpy8 raw 2 pl 0 len;
          let m = 2 + len;
          crc \<leftarrow> compute_crc raw m;
          raw \<leftarrow> wr8 raw m (hi8 crc);
          raw \<leftarrow> wr8 raw (m + 1) (lo8 crc);
          let total = m + 2;
          let tx = uninit (junk 1) (3 + MAX_PAYLOAD + 8);
          tx \<leftarrow> wr8 tx 0 SOF;
          (cobs_len, out) \<leftarrow> cobs_encode raw total (tl tx) (length tx - 1);
          if cobs_len = 0 then Some (False, p, s)
          else do {
            (ok, s) \<leftarrow> send_attempts dev junk (hd tx # out) (1 + cobs_len) (rp_seq p) (MAX_RETRIES + 1) s;
            Some (ok, if ok then p\<lparr>rp_seq := rp_seq p + 1\<rparr> else p, s) } })"

text \<open>The short answer frames built inside \<^verbatim>\<open>recv_frame\<close> (ACK and NACK alike).\<close>

definition send_reply ::
  "'s rs485_dev \<Rightarrow> frame_type \<Rightarrow> u8 \<Rightarrow> 's \<Rightarrow> (bool \<times> 's) option"
where
  "send_reply dev ty sq s = do {
     let f = [frame_type_code ty, sq, 0, 0];
     c \<leftarrow> compute_crc f 2;
     f \<leftarrow> wr8 f 2 (hi8 c);
     f \<leftarrow> wr8 f 3 (lo8 c);
     let resp = SOF # replicate 7 0;
     (r_len, out) \<leftarrow> cobs_encode f 4 (tl resp) (length resp - 1);
     send_raw dev (hd resp # out) (1 + r_len) s }"

text \<open>\<open>payload\<close> is the caller's buffer and \<open>len\<close> its size on entry, the payload's on success.\<close>

definition rp_recv_frame ::
  "'s rs485_dev \<Rightarrow> (nat \<Rightarrow> nat \<Rightarrow> u8) \<Rightarrow> buf \<Rightarrow> nat \<Rightarrow> 's \<Rightarrow> (bool \<times> buf \<times> nat \<times> 's) option"
where
  "rp_recv_frame dev junk payload len s = do {
     (ok, cobs_packet, cobs_idx, s) \<leftarrow>
       read_packet dev 256 10 (junk 5 0) (uninit (junk 6) 256) 0 False s;
     if \<not> ok then Some (False, payload, len, s)
     else if cobs_idx < 6 then Some (False, payload, len, s)
     else do {
       (decoded_len, raw) \<leftarrow> cobs_decode cobs_packet cobs_idx (uninit (junk 7) 256) 256;
       if decoded_len < 4 then Some (False, payload, len, s)
       else do {
         rx \<leftarrow> rx_crc raw decoded_len;
         calc \<leftarrow> compute_crc raw (decoded_len - 2);
         ty \<leftarrow> rd8 raw 0;
         sq \<leftarrow> rd8 raw 1;
         if rx \<noteq> calc then do {
           (_, s) \<leftarrow> send_reply dev NACK sq s;
           Some (False, payload, len, s) }
         else if ty = frame_type_code DATA then do {
           (_, s) \<leftarrow> send_reply dev ACK sq s;
           let payload_len = decoded_len - 4;
           if len < payload_len then Some (False, payload, len, s)
           else do {
             payload \<leftarrow> memcpy8 payload 0 raw 2 payload_len;
             Some (True, payload, payload_len, s) } }
         else Some (False, payload, len, s) } } }"

subsection \<open>Frames\<close>

text \<open>The unstuffed frame, the bytes on the wire, and the test both receivers apply.\<close>

definition proto_raw :: "frame_type \<Rightarrow> u8 \<Rightarrow> buf \<Rightarrow> buf" where
  "proto_raw ty sq pl = (let b = frame_type_code ty # sq # pl; c = crc_list 0xFFFF b in b @ [hi8 c, lo8 c])"

definition proto_wire :: "frame_type \<Rightarrow> u8 \<Rightarrow> buf \<Rightarrow> buf" where
  "proto_wire ty sq pl = SOF # cobs_frame (proto_raw ty sq pl)"

definition crc_ok :: "buf \<Rightarrow> bool" where
  "crc_ok raw \<longleftrightarrow> be16 (raw ! (length raw - 2)) (raw ! (length raw - 1)) =
     crc_list 0xFFFF (take (length raw - 2) raw)"

lemma length_proto_raw [simp]: "length (proto_raw ty sq pl) = length pl + 4"
  by (simp add: proto_raw_def Let_def)

lemma proto_raw_nth [simp]:
  "proto_raw ty sq pl ! 0 = frame_type_code ty"
  "proto_raw ty sq pl ! Suc 0 = sq"
  by (simp_all add: proto_raw_def Let_def)

lemma proto_raw_payload [simp]: "take (length pl) (drop 2 (proto_raw ty sq pl)) = pl"
  by (simp add: proto_raw_def Let_def)

lemma crc_ok_proto_raw [simp]: "crc_ok (proto_raw ty sq pl)"
proof -
  let ?b = "frame_type_code ty # sq # pl"
  let ?c = "crc_list 0xFFFF ?b"
  have r: "proto_raw ty sq pl = ?b @ [hi8 ?c, lo8 ?c]" by (simp add: proto_raw_def Let_def)
  have "take (length (proto_raw ty sq pl) - 2) (proto_raw ty sq pl) = ?b" by (simp add: r)
  moreover have "proto_raw ty sq pl ! (length (proto_raw ty sq pl) - 2) = hi8 ?c"
    "proto_raw ty sq pl ! (length (proto_raw ty sq pl) - 1) = lo8 ?c"
    by (simp_all add: r nth_append del: append_Cons)
  ultimately show ?thesis by (simp only: crc_ok_def be16_hi8_lo8)
qed

lemma length_cobs_frame_short: "length xs < 254 \<Longrightarrow> length (cobs_frame xs) \<le> length xs + 2"
  using length_cobs_frame [of xs] by simp

lemma length_cobs_frame_pos: "2 \<le> length (cobs_frame xs)"
  using length_cobs_body_ge [of "[]" xs] by (simp add: cobs_frame_def)

lemma rx_crc_result:
  "4 \<le> length d \<Longrightarrow> rx_crc (d @ r) (length d) =
     Some (be16 (d ! (length d - 2)) (d ! (length d - 1)))"
  by (cases "d = []") (simp_all add: rx_crc_def nth_append)

lemma compute_crc_result:
  "compute_crc (d @ r) (length d - 2) = Some (crc_list 0xFFFF (take (length d - 2) d))"
  by (simp add: compute_crc_def crc16_ccitt_list)

subsection \<open>What is read from a stream of bytes\<close>

text \<open>The bytes after the first start byte; then those up to the first zero, \<open>k\<close> at most.\<close>

fun after_sof :: "buf \<Rightarrow> buf option" where
  "after_sof [] = None"
| "after_sof (b # q) = (if b = SOF then Some q else after_sof q)"

fun collect :: "nat \<Rightarrow> buf \<Rightarrow> buf option" where
  "collect 0 q = Some []"
| "collect (Suc k) [] = None"
| "collect (Suc k) (b # q) = (if b = 0 then Some [b] else map_option (Cons b) (collect k q))"

text \<open>The packet at the front of a stream and what follows it.\<close>

definition next_packet :: "nat \<Rightarrow> buf \<Rightarrow> (buf \<times> buf) option" where
  "next_packet cap q = do {
     r \<leftarrow> after_sof q;
     p \<leftarrow> collect cap r;
     Some (p, drop (length p) r) }"

lemma collect_length: "collect k q = Some p \<Longrightarrow> length p \<le> k \<and> length p \<le> length q \<and> p = take (length p) q"
  by (induction k q arbitrary: p rule: collect.induct) (fastforce split: if_splits)+

lemma collect_terminated:
  "0 \<notin> set b \<Longrightarrow> collect k (b @ [0] @ q) = (if length b < k then Some (b @ [0]) else Some (take k b))"
proof (induction b arbitrary: k)
  case Nil
  then show ?case by (cases k) simp_all
next
  case (Cons x b)
  then show ?case by (cases k) simp_all
qed

lemma after_sof_append: "SOF \<notin> set n \<Longrightarrow> after_sof (n @ SOF # q) = Some q"
  by (induction n) auto

lemma next_packet_wire:
  assumes "SOF \<notin> set noise" and "length (cobs_frame raw) \<le> cap"
  shows "next_packet cap (noise @ SOF # cobs_frame raw @ q) = Some (cobs_frame raw, q)"
proof -
  have "length (cobs_body [] raw) < cap" using assms(2) by (simp add: cobs_frame_def)
  moreover have "0 \<notin> set (cobs_body [] raw)" by (simp add: zero_notin_cobs_body)
  ultimately have "collect cap (cobs_frame raw @ q) = Some (cobs_frame raw)"
    using collect_terminated [of "cobs_body [] raw" cap q] by (simp add: cobs_frame_def)
  then show ?thesis using assms(1) by (simp add: next_packet_def after_sof_append)
qed

text \<open>
  The frame a received packet stands for, when it decodes to at least four bytes of at most
  \<open>m\<close>, and the acknowledgements among the packets.
\<close>

definition unframe :: "nat \<Rightarrow> buf \<Rightarrow> buf option" where
  "unframe m packet =
     (if 2 \<le> length packet \<and> last packet = 0 then
        (case cobs_unstuff (butlast packet) of
           None \<Rightarrow> None
         | Some d \<Rightarrow> if length d \<le> m \<and> 4 \<le> length d then Some d else None)
      else None)"

definition acks :: "u8 \<Rightarrow> buf \<Rightarrow> bool" where
  "acks sq packet = (case unframe 16 packet of
     None \<Rightarrow> False | Some d \<Rightarrow> crc_ok d \<and> d ! 0 = frame_type_code ACK \<and> d ! 1 = sq)"

lemma unframe_iff: "unframe m p = Some d \<longleftrightarrow> cobs_accepts p m d \<and> 4 \<le> length d"
  by (auto simp: unframe_def cobs_accepts_def split: option.splits)

lemma unframe_wire:
  "length pl + 4 \<le> m \<Longrightarrow> unframe m (cobs_frame (proto_raw ty sq pl)) = Some (proto_raw ty sq pl)"
  by (simp add: unframe_iff)

lemma acks_ack_frame [simp]: "acks sq (cobs_frame (proto_raw ACK sq' [])) \<longleftrightarrow> sq' = sq"
  by (simp add: acks_def unframe_wire)

lemma length_ctrl_frame [simp]: "length (cobs_frame (proto_raw ty sq [])) = 6"
  using length_cobs_frame_short [of "proto_raw ty sq []"]
    cobs_accepts_length [of "cobs_frame (proto_raw ty sq [])" 4 "proto_raw ty sq []"]
  by simp

text \<open>A decoded packet in the array the decoder filled.\<close>

lemma unframe_decode:
  assumes "length packet \<le> length cb" and "m \<le> length raw" and "cb = packet @ rest"
  shows "case unframe m packet of
      None \<Rightarrow> \<exists>k raw'. cobs_decode cb (length packet) raw m = Some (k, raw') \<and> k < 4
    | Some d \<Rightarrow> cobs_decode cb (length packet) raw m = Some (length d, d @ drop (length d) raw)"
proof (cases rule: cobs_decode_cases [OF assms(1,2)])
  case (1 o')
  then have "unframe m packet = None" using assms(3) by (cases "unframe m packet") (auto simp: unframe_iff)
  with 1 show ?thesis by auto
next
  case (2 d)
  then have a: "cobs_accepts packet m d" using assms(3) by simp
  show ?thesis
  proof (cases "4 \<le> length d")
    case True
    with a have "unframe m packet = Some d" by (simp add: unframe_iff)
    with 2 show ?thesis by simp
  next
    case False
    then have "unframe m packet = None"
      using a by (cases "unframe m packet") (auto simp: unframe_iff dest: cobs_accepts_det)
    with 2 False show ?thesis by auto
  qed
qed

lemma crc_test:
  assumes "4 \<le> length d"
  shows "rx_crc (d @ r) (length d) = Some (be16 (d ! (length d - 2)) (d ! (length d - 1)))"
    "compute_crc (d @ r) (length d - 2) = Some (crc_list 0xFFFF (take (length d - 2) d))"
    "rd8 (d @ r) 0 = Some (d ! 0)" "rd8 (d @ r) 1 = Some (d ! 1)"
proof -
  show "rd8 (d @ r) 0 = Some (d ! 0)" using assms by (cases d) simp_all
qed (use assms in \<open>simp_all add: rx_crc_result compute_crc_result nth_append\<close>)

subsection \<open>The abstract protocol\<close>

text \<open>
  The sender on streams of bytes: \<open>out\<close> is what was sent so far, \<open>inp\<close> what has arrived and is
  not yet read, and sending \<open>w\<close> makes \<open>reply_to peer out w\<close> arrive. One attempt sends the wire
  bytes and reads one packet; anything but the acknowledgement costs an attempt.
\<close>

definition reply_to :: "(buf \<Rightarrow> buf) \<Rightarrow> buf \<Rightarrow> buf \<Rightarrow> buf" where
  "reply_to peer out w = drop (length (peer out)) (peer (out @ w))"

fun stop_and_wait :: "(buf \<Rightarrow> buf) \<Rightarrow> nat \<Rightarrow> buf \<Rightarrow> u8 \<Rightarrow> buf \<Rightarrow> buf \<Rightarrow> bool \<times> buf \<times> buf" where
  "stop_and_wait peer 0 w sq out inp = (False, out, inp)"
| "stop_and_wait peer (Suc k) w sq out inp =
     (case next_packet 16 (inp @ reply_to peer out w) of
        None \<Rightarrow> stop_and_wait peer k w sq (out @ w) []
      | Some (p, q) \<Rightarrow>
          if acks sq p then (True, out @ w, q) else stop_and_wait peer k w sq (out @ w) q)"

text \<open>The receiver: the payload delivered, the bytes answered and the bytes left unread.\<close>

definition receive_step :: "nat \<Rightarrow> buf \<Rightarrow> buf option \<times> buf \<times> buf" where
  "receive_step room inp =
     (case next_packet 256 inp of
        None \<Rightarrow> (None, [], [])
      | Some (packet, q) \<Rightarrow>
          (case unframe 256 packet of
             None \<Rightarrow> (None, [], q)
           | Some d \<Rightarrow>
               if \<not> crc_ok d then (None, proto_wire NACK (d ! 1) [], q)
               else if d ! 0 = frame_type_code DATA then
                 (if length d - 4 \<le> room then Some (take (length d - 4) (drop 2 d)) else None,
                  proto_wire ACK (d ! 1) [], q)
               else (None, [], q)))"

text \<open>
  The same attempt by attempt: attempt \<open>k\<close> (from 0) finds what the earlier ones have left unread and what the peer answers to
  the next copy; it is acknowledged if the first packet in these bytes is an acknowledgement of \<open>sq\<close>.
\<close>

fun unread_before :: "(buf \<Rightarrow> buf) \<Rightarrow> buf \<Rightarrow> buf \<Rightarrow> buf \<Rightarrow> nat \<Rightarrow> buf" where
  "unread_before peer w out inp 0 = inp"
| "unread_before peer w out inp (Suc k) =
     (case next_packet 16 (unread_before peer w out inp k @ reply_to peer (out @ concat (replicate k w)) w) of
        None \<Rightarrow> [] | Some (p, q) \<Rightarrow> q)"

definition attempt_acked :: "(buf \<Rightarrow> buf) \<Rightarrow> buf \<Rightarrow> u8 \<Rightarrow> buf \<Rightarrow> buf \<Rightarrow> nat \<Rightarrow> bool" where
  "attempt_acked peer w sq out inp k \<longleftrightarrow>
     (case next_packet 16 (unread_before peer w out inp k @ reply_to peer (out @ concat (replicate k w)) w) of
        None \<Rightarrow> False | Some (p, q) \<Rightarrow> acks sq p)"

lemma unread_before_shift:
  "unread_before peer w (out @ w) (unread_before peer w out inp (Suc 0)) k = unread_before peer w out inp (Suc k)"
  by (induction k) simp_all

lemma attempt_acked_shift:
  "attempt_acked peer w sq (out @ w) (unread_before peer w out inp (Suc 0)) k = attempt_acked peer w sq out inp (Suc k)"
  unfolding attempt_acked_def unread_before_shift by simp

text \<open>The sender stops behind the first acknowledged attempt, or behind the last one, and reports which.\<close>

lemma stop_and_wait_attempts:
  "stop_and_wait peer (Suc k) w sq out inp = (ok, out', inp') \<Longrightarrow>
   \<exists>j \<le> k. (\<forall>i < j. \<not> attempt_acked peer w sq out inp i) \<and> ok = attempt_acked peer w sq out inp j \<and> (ok \<or> j = k) \<and>
     out' = out @ concat (replicate (Suc j) w) \<and> inp' = unread_before peer w out inp (Suc j)"
proof (induction k arbitrary: out inp)
  case 0
  then show ?case by (auto simp: attempt_acked_def split: option.splits if_splits)
next
  case (Suc k)
  let ?q = "unread_before peer w out inp (Suc 0)"
  show ?case
  proof (cases "attempt_acked peer w sq out inp 0")
    case True
    then show ?thesis using Suc.prems by (intro exI [of _ 0]) (auto simp: attempt_acked_def split: option.splits if_splits)
  next
    case False
    then have "stop_and_wait peer (Suc k) w sq (out @ w) ?q = (ok, out', inp')"
      using Suc.prems by (auto simp: attempt_acked_def simp del: stop_and_wait.simps(2)
          simp: stop_and_wait.simps(2) [of _ "Suc k"] split: option.splits)
    from Suc.IH [OF this] obtain j where j: "j \<le> k" "\<forall>i < j. \<not> attempt_acked peer w sq out inp (Suc i)"
      "ok = attempt_acked peer w sq out inp (Suc j)" "ok \<or> j = k"
      "out' = (out @ w) @ concat (replicate (Suc j) w)" "inp' = unread_before peer w out inp (Suc (Suc j))"
      unfolding attempt_acked_shift unread_before_shift by blast
    have "\<forall>i < Suc j. \<not> attempt_acked peer w sq out inp i" using False j(2) by (simp add: All_less_Suc2)
    then show ?thesis using j by (intro exI [of _ "Suc j"]) simp
  qed
qed

text \<open>The frame as it stands in the transmit buffer.\<close>

lemma rp_send_frame_eq:
  assumes "len \<le> 128" and "len \<le> length pl"
  obtains rest where "rp_send_frame dev junk (Some pl) len p s = do {
      (ok, s) \<leftarrow> send_attempts dev junk (proto_wire DATA (rp_seq p) (take len pl) @ rest)
         (length (proto_wire DATA (rp_seq p) (take len pl))) (rp_seq p) 4 s;
      Some (ok, if ok then p\<lparr>rp_seq := rp_seq p + 1\<rparr> else p, s) }"
proof -
  define r0 where "r0 = uninit (junk 0) 133"
  define t0 where "t0 = uninit (junk 1) 139"
  have lr: "length r0 = 133" and lt: "length t0 = 139" by (simp_all add: r0_def t0_def)
  let ?d = "take len pl" and ?sq = "rp_seq p"
  let ?b = "1 # ?sq # ?d"
  let ?c = "crc_list 0xFFFF ?b"
  let ?raw = "?b @ [hi8 ?c, lo8 ?c]"
  let ?m = "2 + len"
  have ld: "length ?d = len" using assms by simp
  have raw: "proto_raw DATA ?sq ?d = ?raw" by (simp add: proto_raw_def Let_def)
  have w01: "r0[0 := 1, 1 := ?sq] = 1 # ?sq # drop 2 r0"
    using lr by (cases r0; cases "tl r0") auto
  have cpy: "memcpy8 (1 # ?sq # drop 2 r0) 2 pl 0 len = Some (?b @ drop ?m r0)"
    using assms lr by (simp add: memcpy8_def)
  have crc: "compute_crc (?b @ drop ?m r0) ?m = Some ?c"
    unfolding compute_crc_def using assms lr by (subst crc16_ccitt_list) simp_all
  have lb: "length ?b = ?m" using ld by simp
  have hi: "wr8 (?b @ drop ?m r0) ?m (hi8 ?c) = Some ((?b @ [hi8 ?c]) @ drop (Suc ?m) r0)"
    using wr_next [of ?m ?b r0 "hi8 ?c"] lb lr assms by (simp del: append_Cons)
  have lo: "wr8 ((?b @ [hi8 ?c]) @ drop (Suc ?m) r0) (?m + 1) (lo8 ?c) =
      Some (?raw @ drop (Suc (Suc ?m)) r0)"
    using wr_next [of "Suc ?m" "?b @ [hi8 ?c]" r0 "lo8 ?c"] lb lr assms
    by (simp del: append_Cons)
  let ?f = "cobs_frame ?raw"
  have lraw: "length ?raw = len + 4" using ld by simp
  have enc: "cobs_encode (?raw @ drop (Suc (Suc ?m)) r0) (?m + 2) (tl t0) 138 =
      Some (length ?f, ?f @ drop (length ?f) (tl t0))"
  proof -
    have "cobs_encode (?raw @ drop (Suc (Suc ?m)) r0) (?m + 2) (tl t0) 138 =
      Some (length (cobs_frame (take (?m + 2) (?raw @ drop (Suc (Suc ?m)) r0))),
        cobs_frame (take (?m + 2) (?raw @ drop (Suc (Suc ?m)) r0)) @
        drop (length (cobs_frame (take (?m + 2) (?raw @ drop (Suc (Suc ?m)) r0)))) (tl t0))"
      using assms lr lt by (intro cobs_encode_frame) simp_all
    moreover have "take (?m + 2) (?raw @ drop (Suc (Suc ?m)) r0) = ?raw" using lraw by simp
    ultimately show ?thesis by simp
  qed
  have pos: "length ?f \<noteq> 0" using length_cobs_frame_pos [of ?raw] by linarith
  obtain t1 ts where t0: "t0 = t1 # ts" using lt by (cases t0) auto
  have "rp_send_frame dev junk (Some pl) len p s = do {
      (ok, s) \<leftarrow> send_attempts dev junk (SOF # ?f @ drop (length ?f) ts) (1 + length ?f) ?sq 4 s;
      Some (ok, if ok then p\<lparr>rp_seq := ?sq + 1\<rparr> else p, s) }"
    using assms enc pos cpy crc hi lo w01 lr lt
    by (simp add: rp_send_frame_def MAX_PAYLOAD_def MAX_RETRIES_def Let_def
          r0_def [symmetric] t0_def [symmetric, simplified] t0)
  then show ?thesis
    by (intro that [of "drop (length ?f) ts"]) (simp add: proto_wire_def raw)
qed

text \<open>An ACK or NACK frame in its eight-byte array.\<close>

lemma send_reply_eq: "send_reply dev ty sq s = send_raw dev (proto_wire ty sq [] @ [0]) 7 s"
proof -
  let ?h = "frame_type_code ty"
  let ?c = "crc_list 0xFFFF [?h, sq]"
  let ?raw = "[?h, sq, hi8 ?c, lo8 ?c]"
  have raw: "proto_raw ty sq [] = ?raw" by (simp add: proto_raw_def Let_def)
  have crc: "compute_crc [?h, sq, 0, 0] 2 = Some ?c"
    by (simp add: compute_crc_def crc16_ccitt_list numeral_2_eq_2)
  have lf: "length (cobs_frame ?raw) = 6" using length_ctrl_frame [of ty sq] by (simp only: raw)
  have "cobs_encode ?raw 4 (replicate 7 0) 7 =
      Some (length (cobs_frame (take 4 ?raw)),
        cobs_frame (take 4 ?raw) @ drop (length (cobs_frame (take 4 ?raw))) (replicate 7 0))"
    by (intro cobs_encode_frame) simp_all
  then have enc: "cobs_encode ?raw 4 (replicate 7 0) 7 = Some (6, cobs_frame ?raw @ [0])"
    using lf by simp
  show ?thesis
    using crc enc
    by (simp add: send_reply_def Let_def proto_wire_def raw numeral_3_eq_3 numeral_2_eq_2)
qed

lemma length_ctrl_wire [simp]: "length (proto_wire ty sq []) = 7"
  by (simp add: proto_wire_def)

subsection \<open>The protocol on a line\<close>

context rs485_line begin

definition pending :: "'s \<Rightarrow> buf" where
  "pending s = drop (taken s) (peer (sent s))"

text \<open>\<open>reads s s' q\<close>: from \<open>s\<close> to \<open>s'\<close> the driver only took bytes and \<open>q\<close> are left.\<close>

definition reads :: "'s \<Rightarrow> 's \<Rightarrow> buf \<Rightarrow> bool" where
  "reads s s' q \<longleftrightarrow> ready s' \<and> sent s' = sent s \<and> pending s' = q"

lemma recv_pending:
  assumes "ready s" and "pending s = b # q" and "t = 10 \<or> t = 100"
  shows "\<exists>s'. rs_recv dev (Some [j]) 1 t s = Some (St_OK, [b], 1, s') \<and> reads s s' q"
proof -
  have lt: "taken s < length (peer (sent s))"
    using assms(2) by (simp add: pending_def) (metis drop_all linorder_not_le list.discI)
  then have "drop (taken s) (peer (sent s)) =
      peer (sent s) ! taken s # drop (Suc (taken s)) (peer (sent s))"
    by (simp only: Cons_nth_drop_Suc)
  with assms(2) have b: "peer (sent s) ! taken s = b" "drop (Suc (taken s)) (peer (sent s)) = q"
    by (simp_all add: pending_def)
  show ?thesis
    using recv_byte [OF assms(1) lt assms(3), of j] b by (auto simp: reads_def pending_def)
qed

lemma recv_nothing:
  assumes "ready s" and "pending s = []" and "t = 10 \<or> t = 100"
  shows "\<exists>st bs n s'. rs_recv dev (Some [j]) 1 t s = Some (st, bs, n, s') \<and> st \<noteq> St_OK \<and> reads s s' []"
  using recv_silent [OF assms(1) _ assms(3), of j] assms(2) by (fastforce simp: reads_def pending_def)

lemma reads_trans: "reads s s1 q \<Longrightarrow> reads s1 s2 q' \<Longrightarrow> reads s s2 q'"
  by (simp add: reads_def)

lemma read_collect:
  assumes "t = 10 \<or> t = 100"
  shows "ready s \<Longrightarrow> i \<le> length cb \<Longrightarrow>
    (case collect (length cb - i) (pending s) of
       None \<Rightarrow> \<exists>cb' i' s'. read_packet dev (length cb) t j cb i True s = Some (False, cb', i', s') \<and>
         reads s s' []
     | Some p \<Rightarrow> \<exists>s'. read_packet dev (length cb) t j cb i True s =
           Some (True, take i cb @ p @ drop (i + length p) cb, i + length p, s') \<and>
         reads s s' (drop (length p) (pending s)))"
proof (induction "length cb - i" arbitrary: cb i s)
  case 0
  then show ?case by (subst read_packet.simps) (simp add: reads_def)
next
  case (Suc k)
  then have i: "i < length cb" "length cb - i = Suc k" by simp_all
  show ?case
  proof (cases "pending s")
    case Nil
    then obtain st bs n s' where "rs_recv dev (Some [j]) 1 t s = Some (st, bs, n, s')" "st \<noteq> St_OK" "reads s s' []"
      using recv_nothing [OF Suc.prems(1) _ assms, of j] by blast
    then show ?thesis using i Nil by (subst read_packet.simps) simp
  next
    case (Cons b q)
    then obtain s1 where r: "rs_recv dev (Some [j]) 1 t s = Some (St_OK, [b], 1, s1)" "reads s s1 q"
      using recv_pending [OF Suc.prems(1) _ assms, of b q j] by blast
    let ?cb = "cb[i := b]"
    have tk: "take (Suc i) ?cb = take i cb @ [b]" using i by (intro take_update_last) simp
    have step: "read_packet dev (length cb) t j cb i True s =
        (if b = 0 then Some (True, ?cb, i + 1, s1)
         else read_packet dev (length ?cb) t j ?cb (i + 1) True s1)"
      using i r(1) by (subst read_packet.simps) simp
    show ?thesis
    proof (cases "b = 0")
      case True
      have "?cb = take i cb @ [b] @ drop (Suc i) cb"
        using i by (simp add: upd_conv_take_nth_drop)
      with True step i Cons r(2) show ?thesis by simp
    next
      case False
      have s1: "ready s1" "pending s1 = q" using r(2) by (simp_all add: reads_def)
      have k: "k = length ?cb - Suc i" "Suc i \<le> length ?cb" using i by simp_all
      have kk: "length cb - Suc i = k" using i by simp
      note IH = Suc.hyps(1) [OF k(1) s1(1) k(2), unfolded length_list_update kk s1(2) tk]
      show ?thesis
        using False step i Cons r(2) IH
        by (cases "collect k q") (auto dest: reads_trans)
    qed
  qed
qed

lemma read_next_packet:
  assumes "t = 10 \<or> t = 100" and that: "0 < length cb"
  shows "ready s \<Longrightarrow>
    (case next_packet (length cb) (pending s) of
       None \<Rightarrow> \<exists>cb' i' s'. read_packet dev (length cb) t j cb 0 False s = Some (False, cb', i', s') \<and>
         reads s s' []
     | Some (p, q) \<Rightarrow> \<exists>s'. read_packet dev (length cb) t j cb 0 False s =
           Some (True, p @ drop (length p) cb, length p, s') \<and> reads s s' q)"
proof (induction "pending s" arbitrary: s)
  case Nil
  then obtain st bs n s' where "rs_recv dev (Some [j]) 1 t s = Some (st, bs, n, s')" "st \<noteq> St_OK" "reads s s' []"
    using recv_nothing [OF Nil(2) Nil(1) [symmetric] assms(1), of j] by blast
  then show ?case using that Nil.hyps [symmetric] by (subst read_packet.simps) (simp add: next_packet_def)
next
  case (Cons b q)
  have p: "pending s = b # q" using Cons.hyps(2) by simp
  obtain s1 where r: "rs_recv dev (Some [j]) 1 t s = Some (St_OK, [b], 1, s1)" "reads s s1 q"
    using recv_pending [OF Cons.prems p assms(1), of j] by blast
  then have s1: "ready s1" "pending s1 = q" by (simp_all add: reads_def)
  have step: "read_packet dev (length cb) t j cb 0 False s =
      read_packet dev (length cb) t j cb 0 (b = SOF) s1"
    using that r(1) by (subst read_packet.simps) simp
  show ?case
  proof (cases "b = SOF")
    case True
    then show ?thesis
      using read_collect [OF assms(1) s1(1), of 0 cb j] step p s1(2) r(2)
      by (cases "collect (length cb) q") (auto simp: next_packet_def dest: reads_trans)
  next
    case False
    then show ?thesis
      using Cons.hyps(1) [OF s1(2) [symmetric] s1(1)] step p s1(2) r(2)
      by (cases "next_packet (length cb) q")
         (auto simp: next_packet_def dest: reads_trans)
  qed
qed

subsubsection \<open>Acknowledgements\<close>

lemma wait_for_ack_spec:
  assumes "ready s"
  shows "\<exists>s'. wait_for_ack dev junk sq s =
      Some (case next_packet 16 (pending s) of Some (p, q) \<Rightarrow> acks sq p | None \<Rightarrow> False, s') \<and>
    reads s s' (case next_packet 16 (pending s) of Some (p, q) \<Rightarrow> q | None \<Rightarrow> [])"
proof (cases "next_packet 16 (pending s)")
  case None
  then obtain cb' i' s' where "read_packet dev 16 ACK_TIMEOUT_MS (junk 2 0) (uninit (junk 3) 16) 0 False s =
      Some (False, cb', i', s')" "reads s s' []"
    using read_next_packet [of 100 "uninit (junk 3) 16" s "junk 2 0"] assms
    by (auto simp: ACK_TIMEOUT_MS_def)
  with None show ?thesis by (simp add: wait_for_ack_def)
next
  case (Some pq)
  obtain p q where pq: "pq = (p, q)" by (cases pq)
  let ?cb = "p @ drop (length p) (uninit (junk 3) 16)"
  obtain s' where r: "read_packet dev 16 ACK_TIMEOUT_MS (junk 2 0) (uninit (junk 3) 16) 0 False s =
      Some (True, ?cb, length p, s')" "reads s s' q"
    using read_next_packet [of 100 "uninit (junk 3) 16" s "junk 2 0"] assms Some pq
    by (auto simp: ACK_TIMEOUT_MS_def)
  have dec: "case unframe 16 p of
      None \<Rightarrow> \<exists>k raw'. cobs_decode ?cb (length p) (uninit (junk 4) 16) 16 = Some (k, raw') \<and> k < 4
    | Some d \<Rightarrow> cobs_decode ?cb (length p) (uninit (junk 4) 16) 16 =
        Some (length d, d @ drop (length d) (uninit (junk 4) 16))"
    by (rule unframe_decode) simp_all
  show ?thesis
  proof (cases "unframe 16 p")
    case None
    with dec r Some pq show ?thesis by (auto simp: wait_for_ack_def acks_def)
  next
    case (Some d)
    then have d4: "4 \<le> length d" by (simp add: unframe_iff)
    note t = crc_test [OF this]
    show ?thesis
      using d4 dec r \<open>next_packet 16 (pending s) = Some pq\<close> pq Some t
      by (auto simp: wait_for_ack_def acks_def crc_ok_def)
  qed
qed

subsubsection \<open>Sending\<close>

lemma send_raw_spec:
  assumes "ready s" and "0 < n" and "n \<le> length d"
  shows "\<exists>s'. send_raw dev d n s = Some (True, s') \<and> ready s' \<and> sent s' = sent s @ take n d \<and>
    pending s' = pending s @ reply_to peer (sent s) (take n d)"
proof -
  obtain s' where s': "rs_send dev (Some d) n 100 s = Some (St_OK, s')" "ready s'"
    "sent s' = sent s @ take n d" "taken s' = taken s"
    using send_all [OF assms] by blast
  obtain zs where zs: "peer (sent s @ take n d) = peer (sent s) @ zs" using peer_grows by blast
  have "pending s' = pending s @ reply_to peer (sent s) (take n d)"
    using s' zs taken_bound [OF assms(1)] by (simp add: pending_def reply_to_def)
  with s' show ?thesis by (simp add: send_raw_def ACK_TIMEOUT_MS_def)
qed

lemma send_attempts_spec:
  assumes "0 < n" and "n \<le> length tx"
  shows "ready s \<Longrightarrow> \<exists>ok s'. send_attempts dev junk tx n sq k s = Some (ok, s') \<and> ready s' \<and>
    stop_and_wait peer k (take n tx) sq (sent s) (pending s) = (ok, sent s', pending s')"
proof (induction k arbitrary: s)
  case (Suc k)
  let ?w = "take n tx"
  obtain s1 where s1: "send_raw dev tx n s = Some (True, s1)" "ready s1" "sent s1 = sent s @ ?w"
    "pending s1 = pending s @ reply_to peer (sent s) ?w"
    using send_raw_spec [OF Suc.prems assms] by blast
  let ?np = "next_packet 16 (pending s1)"
  obtain s2 where s2: "wait_for_ack dev junk sq s1 =
      Some (case ?np of Some (p, q) \<Rightarrow> acks sq p | None \<Rightarrow> False, s2)"
    "reads s1 s2 (case ?np of Some (p, q) \<Rightarrow> q | None \<Rightarrow> [])"
    using wait_for_ack_spec [OF s1(2), of junk sq] by blast
  then have r2: "ready s2" "sent s2 = sent s @ ?w" by (simp_all add: reads_def s1)
  show ?case
  proof (cases "case ?np of Some (p, q) \<Rightarrow> acks sq p | None \<Rightarrow> False")
    case True
    then obtain p q where "?np = Some (p, q)" "acks sq p" by (auto split: option.splits)
    then show ?thesis
      using s1 s2 r2 by (intro exI [of _ True] exI [of _ s2]) (simp add: reads_def)
  next
    case False
    then have w: "wait_for_ack dev junk sq s1 = Some (False, s2)" using s2(1) by simp
    from Suc.IH [OF r2(1)] obtain ok s' where
      a: "send_attempts dev junk tx n sq k s2 = Some (ok, s')" "ready s'"
         "stop_and_wait peer k ?w sq (sent s2) (pending s2) = (ok, sent s', pending s')"
      by blast
    have "stop_and_wait peer (Suc k) ?w sq (sent s) (pending s) = (ok, sent s', pending s')"
      using False a(3) s1(4) s2(2) r2(2) by (auto simp: reads_def split: option.splits)
    then show ?thesis using s1(1) w a(1,2) by simp
  qed
qed simp

lemma rp_send_frame_spec:
  assumes "ready s" and "len \<le> 128" and "len \<le> length pl"
  shows "\<exists>ok s'. rp_send_frame dev junk (Some pl) len p s =
      Some (ok, if ok then p\<lparr>rp_seq := rp_seq p + 1\<rparr> else p, s') \<and> ready s' \<and>
    stop_and_wait peer 4 (proto_wire DATA (rp_seq p) (take len pl)) (rp_seq p) (sent s) (pending s) =
      (ok, sent s', pending s')"
proof -
  let ?w = "proto_wire DATA (rp_seq p) (take len pl)"
  obtain rest where e: "rp_send_frame dev junk (Some pl) len p s = do {
      (ok, s) \<leftarrow> send_attempts dev junk (?w @ rest) (length ?w) (rp_seq p) 4 s;
      Some (ok, if ok then p\<lparr>rp_seq := rp_seq p + 1\<rparr> else p, s) }"
    by (rule rp_send_frame_eq [OF assms(2,3)])
  have "0 < length ?w" by (simp add: proto_wire_def)
  then show ?thesis
    using send_attempts_spec [of "length ?w" "?w @ rest" s junk "rp_seq p" 4] assms(1)
    by (auto simp: e)
qed

subsubsection \<open>Receiving\<close>

lemma send_reply_spec:
  assumes "ready s"
  shows "\<exists>s'. send_reply dev ty sq s = Some (True, s') \<and> ready s' \<and>
    sent s' = sent s @ proto_wire ty sq [] \<and>
    pending s' = pending s @ reply_to peer (sent s) (proto_wire ty sq [])"
  using send_raw_spec [OF assms, of 7 "proto_wire ty sq [] @ [0]"] by (simp add: send_reply_eq)

lemma rp_recv_frame_spec:
  assumes "ready s" and "len \<le> length b0"
  shows "\<exists>s'. rp_recv_frame dev junk b0 len s =
      Some (case fst (receive_step len (pending s)) of
          Some pl \<Rightarrow> (True, pl @ drop (length pl) b0, length pl, s')
        | None \<Rightarrow> (False, b0, len, s')) \<and>
    ready s' \<and> sent s' = sent s @ fst (snd (receive_step len (pending s))) \<and>
    pending s' = snd (snd (receive_step len (pending s))) @
      reply_to peer (sent s) (fst (snd (receive_step len (pending s))))"
proof (cases "next_packet 256 (pending s)")
  case None
  then obtain cb' i' s' where "read_packet dev 256 10 (junk 5 0) (uninit (junk 6) 256) 0 False s =
      Some (False, cb', i', s')" "reads s s' []"
    using read_next_packet [of 10 "uninit (junk 6) 256" s "junk 5 0"] assms by auto
  with None show ?thesis by (simp add: rp_recv_frame_def receive_step_def reads_def reply_to_def)
next
  case (Some pq)
  obtain p q where pq: "pq = (p, q)" by (cases pq)
  let ?cb = "p @ drop (length p) (uninit (junk 6) 256)"
  let ?raw = "uninit (junk 7) 256"
  obtain s1 where r: "read_packet dev 256 10 (junk 5 0) (uninit (junk 6) 256) 0 False s =
      Some (True, ?cb, length p, s1)" "reads s s1 q"
    using read_next_packet [of 10 "uninit (junk 6) 256" s "junk 5 0"] assms Some pq by auto
  then have s1: "ready s1" "sent s1 = sent s" "pending s1 = q" by (simp_all add: reads_def)
  have dec: "case unframe 256 p of
      None \<Rightarrow> \<exists>k raw'. cobs_decode ?cb (length p) ?raw 256 = Some (k, raw') \<and> k < 4
    | Some d \<Rightarrow> cobs_decode ?cb (length p) ?raw 256 = Some (length d, d @ drop (length d) ?raw)"
    by (rule unframe_decode) simp_all
  show ?thesis
  proof (cases "unframe 256 p")
    case None
    then have "receive_step len (pending s) = (None, [], q)" using Some pq by (simp add: receive_step_def)
    moreover have "rp_recv_frame dev junk b0 len s = Some (False, b0, len, s1)"
      using dec None r(1) by (auto simp: rp_recv_frame_def)
    ultimately show ?thesis using s1 by (simp add: reply_to_def)
  next
    case (Some d)
    then have d: "4 \<le> length d" "length d \<le> 256" "6 \<le> length p"
      using cobs_accepts_length [of p 256 d] by (auto simp: unframe_iff cobs_accepts_def)
    note t = crc_test [OF d(1)]
    have dec': "cobs_decode ?cb (length p) ?raw 256 = Some (length d, d @ drop (length d) ?raw)"
      using dec Some by simp
    note rs = receive_step_def [of len "pending s", unfolded \<open>next_packet 256 (pending s) = Some pq\<close> pq
        option.case prod.case Some]
    consider (bad) "\<not> crc_ok d" | (data) "crc_ok d" "d ! 0 = frame_type_code DATA"
      | (other) "crc_ok d" "d ! 0 \<noteq> frame_type_code DATA" by blast
    then show ?thesis
    proof cases
      case bad
      obtain s2 where "send_reply dev NACK (d ! 1) s1 = Some (True, s2)" "ready s2"
        "sent s2 = sent s1 @ proto_wire NACK (d ! 1) []"
        "pending s2 = pending s1 @ reply_to peer (sent s1) (proto_wire NACK (d ! 1) [])"
        using send_reply_spec [OF s1(1)] by blast
      with bad show ?thesis
        using r(1) dec' t s1 d rs by (simp add: rp_recv_frame_def crc_ok_def)
    next
      case data
      obtain s2 where s2: "send_reply dev ACK (d ! 1) s1 = Some (True, s2)" "ready s2"
        "sent s2 = sent s1 @ proto_wire ACK (d ! 1) []"
        "pending s2 = pending s1 @ reply_to peer (sent s1) (proto_wire ACK (d ! 1) [])"
        using send_reply_spec [OF s1(1)] by blast
      have "rp_recv_frame dev junk b0 len s = (if len < length d - 4 then Some (False, b0, len, s2)
          else do { b \<leftarrow> memcpy8 b0 0 (d @ drop (length d) ?raw) 2 (length d - 4);
            Some (True, b, length d - 4, s2) })"
        using data r(1) dec' t s2(1) d by (simp add: rp_recv_frame_def crc_ok_def Let_def)
      moreover have "memcpy8 b0 0 (d @ drop (length d) ?raw) 2 (length d - 4) =
          Some (take (length d - 4) (drop 2 d) @ drop (length d - 4) b0)" if "length d - 4 \<le> len"
        using that assms(2) d by (simp add: memcpy8_def)
      ultimately show ?thesis
        using data rs s2 s1 by (auto simp: not_less)
    next
      case other
      have "rp_recv_frame dev junk b0 len s = Some (False, b0, len, s1)"
        using other r(1) dec' t d by (simp add: rp_recv_frame_def crc_ok_def)
      then show ?thesis using other rs s1 by (simp add: reply_to_def)
    qed
  qed
qed

end

subsection \<open>Lines that never fall silent\<close>

text \<open>
  Both read loops count only the bytes behind a start byte: a line that keeps delivering other
  bytes keeps them reading, whatever the receive timeout is.
\<close>

lemma read_packet_noise_diverges:
  assumes noise: "\<And>s. noisy s \<Longrightarrow> \<exists>b s'. rs_recv dev (Some [j]) 1 t s = Some (St_OK, [b], 1, s') \<and> b \<noteq> SOF \<and> noisy s'"
    and cap: "0 < cap"
  shows "noisy s \<Longrightarrow> read_packet dev cap t j cb 0 False s = None"
proof -
  have "\<not> noisy s" if "read_packet d c t' j' cb i f s = Some r"
      "d = dev \<and> c = cap \<and> t' = t \<and> j' = j \<and> i = 0 \<and> \<not> f" for d c t' j' cb i f s r
    using that
  proof (induction rule: read_packet.raw_induct [rotated, consumes 1, case_names step])
    case (step rec d c t' j' cb i f s r)
    show ?case
    proof
      assume "noisy s"
      then obtain b s' where r: "rs_recv dev (Some [j]) 1 t s = Some (St_OK, [b], 1, s')" "b \<noteq> SOF" "noisy s'"
        using noise by blast
      then have "rec dev cap t j cb 0 False s' = Some r" using step(2,3) cap by simp
      from step(1) [OF this] r(3) show False by simp
    qed
  qed
  then show "noisy s \<Longrightarrow> read_packet dev cap t j cb 0 False s = None"
    by (metis not_None_eq)
qed

subsection \<open>Properties\<close>

text \<open>C36: on a line whose port always has another byte to deliver that is not the start byte,
  neither \<^verbatim>\<open>recv_frame\<close> nor the wait for an acknowledgement ever returns, in spite of the
  timeouts of 10 and 100 ms: these only bound the wait for a single byte.\<close>

theorem noise_blocks_receiver:
  assumes "\<And>j t s. noisy s \<Longrightarrow>
    \<exists>b s'. rs_recv dev (Some [j]) 1 t s = Some (St_OK, [b], 1, s') \<and> b \<noteq> SOF \<and> noisy s'"
    and "noisy s"
  shows "rp_recv_frame dev junk payload len s = None \<and> wait_for_ack dev junk sq s = None"
proof -
  have "read_packet dev cap t j cb 0 False s = None" if "0 < cap" for cap t j cb
    by (rule read_packet_noise_diverges [of noisy]) (use assms that in auto)
  then show ?thesis by (simp add: rp_recv_frame_def wait_for_ack_def)
qed

theorem noise_blocks_receiver_witness:
  "rp_recv_frame \<lparr>rs_init = (\<lambda>_ s. Some (St_OK, s)), rs_send = (\<lambda>_ _ _ s. Some (St_OK, s)),
      rs_recv = (\<lambda>_ _ _ s. Some (St_OK, [0xFF], 1, s))\<rparr> (\<lambda>_ _. 0) [] 0 () = None"
  using noise_blocks_receiver [of "\<lambda>_. True" "\<lparr>rs_init = (\<lambda>_ s. Some (St_OK, s)), rs_send = (\<lambda>_ _ _ s. Some (St_OK, s)),
      rs_recv = (\<lambda>_ _ _ s. Some (St_OK, [0xFF], 1, s))\<rparr>" "()"]
  by (simp add: SOF_def)

text \<open>C37: \<^verbatim>\<open>send_frame\<close> refuses a null payload and more than 128 bytes without touching the line or
  the sequence number, and any port failing every send is tried exactly four times, with a
  negative result and the sequence number kept.\<close>

theorem send_frame_failures:
  assumes "\<And>d n s. \<exists>st s'. rs_send dev d n ACK_TIMEOUT_MS s = Some (st, s') \<and> st \<noteq> St_OK \<and> tries s' = Suc (tries s)"
  shows "rp_send_frame dev junk None len p s = Some (False, p, s) \<and>
    (128 < len \<longrightarrow> rp_send_frame dev junk payload len p s = Some (False, p, s)) \<and>
    (len \<le> 128 \<and> len \<le> length pl \<longrightarrow> (\<exists>s'. rp_send_frame dev junk (Some pl) len p s = Some (False, p, s') \<and>
       tries s' = tries s + (4 :: nat)))"
proof (intro conjI impI)
  show "rp_send_frame dev junk None len p s = Some (False, p, s)" by (simp add: rp_send_frame_def)
  show "rp_send_frame dev junk payload len p s = Some (False, p, s)" if "128 < len"
    using that by (simp add: rp_send_frame_def MAX_PAYLOAD_def split: option.splits)
  have att: "\<exists>s'. send_attempts dev junk tx n sq k s = Some (False, s') \<and> tries s' = tries s + k" for tx n sq k s
  proof (induction k arbitrary: s)
    case (Suc k)
    obtain st s1 where s1: "rs_send dev (Some tx) n ACK_TIMEOUT_MS s = Some (st, s1)" "st \<noteq> St_OK"
      "tries s1 = Suc (tries s)" using assms by blast
    then show ?case using Suc.IH [of s1] by (simp add: send_raw_def)
  qed simp
  assume "len \<le> 128 \<and> len \<le> length pl"
  then obtain rest where "rp_send_frame dev junk (Some pl) len p s = do {
      (ok, s) \<leftarrow> send_attempts dev junk (proto_wire DATA (rp_seq p) (take len pl) @ rest)
         (length (proto_wire DATA (rp_seq p) (take len pl))) (rp_seq p) 4 s;
      Some (ok, if ok then p\<lparr>rp_seq := rp_seq p + 1\<rparr> else p, s) }"
    by (auto intro: rp_send_frame_eq)
  then show "\<exists>s'. rp_send_frame dev junk (Some pl) len p s = Some (False, p, s') \<and> tries s' = tries s + 4"
    using att [of "proto_wire DATA (rp_seq p) (take len pl) @ rest" "length (proto_wire DATA (rp_seq p) (take len pl))"
        "rp_seq p" 4 s] by auto
qed

theorem send_frame_failures_witness:
  "\<exists>s'. rp_send_frame \<lparr>rs_init = (\<lambda>_ s. Some (St_OK, s)), rs_send = (\<lambda>_ _ _ s. Some (St_TIMEOUT, Suc s)),
      rs_recv = (\<lambda>_ _ _ _. None)\<rparr> (\<lambda>_ _. 0) (Some [7]) 1 rs485_proto_new 0 =
      Some (False, rs485_proto_new, s') \<and> s' = 4"
  using send_frame_failures [of "\<lparr>rs_init = (\<lambda>_ s. Some (St_OK, s)), rs_send = (\<lambda>_ _ _ s. Some (St_TIMEOUT, Suc s)),
      rs_recv = (\<lambda>_ _ _ _. None)\<rparr>" id "\<lambda>_ _. 0" 1 rs485_proto_new 0 "Some []" "[7]"]
  by simp

end
