(* ===== verification/Rs485_Lpc.thy ===== *)
theory Rs485_Lpc
  imports Rs485_Protocol Mmio
begin

text \<open>
  \<^verbatim>\<open>src/hal/lpc1768/rs485_lpc1768.cpp\<close>: RS-485 on UART2 with a driver-enable pin. The class has
  no fields; its state is the register history. The polling loops are partial functions, so that
  a register bit that never comes shows as \<open>None\<close>. The lemmas show which loops end, that the bus
  is released on every return, and that the port is an \<open>rs485_line\<close> over a UART whose other end is
  an arbitrary byte-driven machine.
\<close>

subsection \<open>Registers\<close>

definition U2RBR :: u32 where "U2RBR = 0x40098000"
definition U2THR :: u32 where "U2THR = 0x40098000"
definition U2DLL :: u32 where "U2DLL = 0x40098000"
definition U2DLM :: u32 where "U2DLM = 0x40098004"
definition U2FCR :: u32 where "U2FCR = 0x40098008"
definition U2LCR :: u32 where "U2LCR = 0x4009800C"
definition U2LSR :: u32 where "U2LSR = 0x40098014"
definition U2FDR :: u32 where "U2FDR = 0x40098028"

definition LSR_THRE :: u8 where "LSR_THRE = 0x20"
definition LSR_TEMT :: u8 where "LSR_TEMT = 0x40"
definition LSR_RDR :: u8 where "LSR_RDR = 0x01"

definition FIO0DIR :: u32 where "FIO0DIR = 0x2009C000"
definition FIO0SET :: u32 where "FIO0SET = 0x2009C018"
definition FIO0CLR :: u32 where "FIO0CLR = 0x2009C01C"
definition DE_MASK :: u32 where "DE_MASK = 0x200"
definition PINSEL0 :: u32 where "PINSEL0 = 0x4002C000"
definition PCONP :: u32 where "PCONP = 0x400FC0C4"
definition PCUART2 :: u32 where "PCUART2 = 0x1000000"

definition PCLK_HZ :: u32 where "PCLK_HZ = 24000000"
definition TICKS_PER_MS :: u32 where "TICKS_PER_MS = 2000"

lemmas rs485_regs = U2RBR_def U2THR_def U2DLL_def U2DLM_def U2FCR_def U2LCR_def U2LSR_def U2FDR_def
  FIO0DIR_def FIO0SET_def FIO0CLR_def DE_MASK_def PINSEL0_def PCONP_def PCUART2_def

subsection \<open>The code\<close>

definition set_tx_mode :: "trace \<Rightarrow> trace" where
  "set_tx_mode tr = reg_wr FIO0SET DE_MASK tr"

definition set_rx_mode :: "trace \<Rightarrow> trace" where
  "set_rx_mode tr = reg_wr FIO0CLR DE_MASK tr"

definition rx_available :: "env \<Rightarrow> trace \<Rightarrow> bool \<times> trace" where
  "rx_available env tr = (let (v, tr) = reg_rd8 env U2LSR tr in (v AND LSR_RDR \<noteq> 0, tr))"

definition read_byte :: "env \<Rightarrow> trace \<Rightarrow> u8 \<times> trace" where
  "read_byte env tr = reg_rd8 env U2RBR tr"

definition write_byte :: "u8 \<Rightarrow> trace \<Rightarrow> trace" where
  "write_byte b tr = reg_wr8 U2THR b tr"

text \<open>
  \<^verbatim>\<open>16 * baud\<close> is a 32-bit product; a division by zero has no defined result. In
  \<^verbatim>\<open>PINSEL0 & ~(0x0F << 20)\<close> the mask is an \<^verbatim>\<open>int\<close>, converted bit by bit.
\<close>

definition lpc_rs_init :: "env \<Rightarrow> u32 \<Rightarrow> trace \<Rightarrow> (status \<times> trace) option" where
  "lpc_rs_init env baud tr =
     (if baud = 0 then Some (St_HW_ERROR, tr)
      else if 16 * baud = 0 then None
      else
        let dl = PCLK_HZ div (16 * baud) in
        if dl = 0 \<or> 0xFFFF < dl then Some (St_HW_ERROR, tr)
        else
          let tr = reg_or env PCONP PCUART2 tr;
              tr = reg_update env PINSEL0
                     (\<lambda>v. (v AND NOT (push_bit 20 0x0F)) OR push_bit 20 1 OR push_bit 22 1) tr;
              tr = reg_clear env PINSEL0 (push_bit 18 3) tr;
              tr = reg_or env FIO0DIR DE_MASK tr;
              tr = set_rx_mode tr;
              tr = reg_wr8 U2LCR 0x83 tr;
              tr = reg_wr8 U2DLL (ucast (dl AND 0xFF)) tr;
              tr = reg_wr8 U2DLM (ucast (drop_bit 8 dl AND 0xFF)) tr;
              tr = reg_wr8 U2FDR 0x10 tr;
              tr = reg_wr8 U2LCR 0x03 tr;
              tr = reg_wr8 U2FCR 0x07 tr
          in Some (St_OK, tr))"

text \<open>The wait for room in the transmitter; \<open>False\<close> is the early return with a timeout.\<close>

partial_function (option) wait_thre :: "env \<Rightarrow> u32 \<Rightarrow> u32 \<Rightarrow> trace \<Rightarrow> (bool \<times> trace) option" where
  "wait_thre env timeout_ms elapsed tr =
     (case reg_rd8 env U2LSR tr of (lsr, tr) \<Rightarrow>
        if lsr AND LSR_THRE \<noteq> 0 then Some (True, tr)
        else if 0 < timeout_ms then
          if timeout_ms * TICKS_PER_MS < elapsed + 1 then Some (False, tr)
          else wait_thre env timeout_ms (elapsed + 1) tr
        else wait_thre env timeout_ms elapsed tr)"

text \<open>The wait for the end of the transmission, which has no timeout.\<close>

partial_function (option) wait_temt :: "env \<Rightarrow> trace \<Rightarrow> trace option" where
  "wait_temt env tr =
     (case reg_rd8 env U2LSR tr of (lsr, tr) \<Rightarrow>
        if lsr AND LSR_TEMT \<noteq> 0 then Some tr else wait_temt env tr)"

text \<open>The transmit loop from index \<open>i\<close>; \<open>False\<close> when it timed out.\<close>

function send_bytes :: "env \<Rightarrow> buf \<Rightarrow> nat \<Rightarrow> u32 \<Rightarrow> nat \<Rightarrow> trace \<Rightarrow> (bool \<times> trace) option" where
  "send_bytes env d len timeout_ms i tr =
     (if i < len
      then do {
        (room, tr) \<leftarrow> wait_thre env timeout_ms 0 tr;
        if \<not> room then Some (False, tr)
        else do {
          b \<leftarrow> rd8 d i;
          send_bytes env d len timeout_ms (Suc i) (write_byte b tr) } }
      else Some (True, tr))"
  by pat_completeness auto
termination
  by (relation "measure (\<lambda>(env, d, len, t, i, tr). len - i)") auto

declare send_bytes.simps [simp del]

definition lpc_rs_send :: "env \<Rightarrow> buf option \<Rightarrow> nat \<Rightarrow> u32 \<Rightarrow> trace \<Rightarrow> (status \<times> trace) option" where
  "lpc_rs_send env data len timeout_ms tr =
     (case data of
        None \<Rightarrow> Some (St_HW_ERROR, tr)
      | Some d \<Rightarrow>
        if len = 0 then Some (St_HW_ERROR, tr)
        else do {
          let tr = set_tx_mode tr;
          (ok, tr) \<leftarrow> send_bytes env d len timeout_ms 0 tr;
          if \<not> ok then Some (St_TIMEOUT, set_rx_mode tr)
          else do {
            tr \<leftarrow> wait_temt env tr;
            Some (St_OK, set_rx_mode tr) } })"

partial_function (option) recv_loop ::
  "env \<Rightarrow> nat \<Rightarrow> u32 \<Rightarrow> buf \<Rightarrow> nat \<Rightarrow> u32 \<Rightarrow> trace \<Rightarrow> (buf \<times> nat \<times> trace) option"
where
  "recv_loop env len timeout_ms d count elapsed tr =
     (if count < len then
        (case rx_available env tr of (avail, tr) \<Rightarrow>
           if avail then
             (case read_byte env tr of (b, tr) \<Rightarrow>
                do { d \<leftarrow> wr8 d count b; recv_loop env len timeout_ms d (count + 1) 0 tr })
           else if 0 < timeout_ms then
             if timeout_ms * TICKS_PER_MS < elapsed + 1 then Some (d, count, tr)
             else recv_loop env len timeout_ms d count (elapsed + 1) tr
           else recv_loop env len timeout_ms d count elapsed tr)
      else Some (d, count, tr))"

definition lpc_rs_recv ::
  "env \<Rightarrow> buf option \<Rightarrow> nat \<Rightarrow> u32 \<Rightarrow> trace \<Rightarrow> (status \<times> buf \<times> nat \<times> trace) option"
where
  "lpc_rs_recv env data len timeout_ms tr =
     (case data of
        None \<Rightarrow> Some (St_HW_ERROR, [], len, tr)
      | Some d \<Rightarrow>
        let tr = set_rx_mode tr in
        if len = 0 then Some (St_OK, d, 0, tr)
        else do {
          (d, count, tr) \<leftarrow> recv_loop env len timeout_ms d 0 0 tr;
          Some (if 0 < count then St_OK else St_TIMEOUT, d, count, tr) })"

text \<open>The class as an \<^verbatim>\<open>IRs485\<close>.\<close>

definition lpc_rs_dev :: "env \<Rightarrow> trace rs485_dev" where
  "lpc_rs_dev env = \<lparr>rs_init = lpc_rs_init env, rs_send = lpc_rs_send env, rs_recv = lpc_rs_recv env\<rparr>"

lemma lpc_rs_dev_simps [simp]:
  "rs_init (lpc_rs_dev env) = lpc_rs_init env"
  "rs_send (lpc_rs_dev env) = lpc_rs_send env"
  "rs_recv (lpc_rs_dev env) = lpc_rs_recv env"
  by (simp_all add: lpc_rs_dev_def)

subsection \<open>Loops that end\<close>

text \<open>The driver-enable level after a history: true is driving the bus.\<close>

definition de_level :: "trace \<Rightarrow> bool" where
  "de_level tr = pin_level FIO0SET FIO0CLR DE_MASK False tr"

lemma de_level_modes [simp]:
  "de_level (set_tx_mode tr)" "\<not> de_level (set_rx_mode tr)" "\<not> de_level (tr @ [Wr FIO0CLR DE_MASK])"
  by (simp_all add: de_level_def set_tx_mode_def set_rx_mode_def rs485_regs)

lemma de_level_append_reads: "writes evs = [] \<Longrightarrow> de_level (tr @ evs) = de_level tr"
  by (simp add: de_level_def pin_level_no_writes)

lemmas tick_limit_less = ticks_less [folded TICKS_PER_MS_def]
lemmas tick_step = ticks_step [folded TICKS_PER_MS_def]

lemma wait_thre_returns:
  assumes "0 < t"
  shows "e \<le> t * TICKS_PER_MS \<Longrightarrow>
    \<exists>ok evs. wait_thre env t e tr = Some (ok, tr @ evs) \<and> writes evs = [] \<and>
      length evs \<le> unat (t * TICKS_PER_MS) - unat e + 1"
proof (induction "unat (t * TICKS_PER_MS) - unat e" arbitrary: e tr rule: less_induct)
  case less
  let ?L = "t * TICKS_PER_MS"
  let ?ev = "Rd U2LSR (ucast (ucast (env tr U2LSR) :: u8))"
  show ?case
  proof (cases "ucast (env tr U2LSR) AND LSR_THRE \<noteq> 0 \<or> ?L < e + 1")
    case True
    then show ?thesis
      using assms by (intro exI [of _ "ucast (env tr U2LSR) AND LSR_THRE \<noteq> 0"] exI [of _ "[?ev]"])
        (subst wait_thre.simps, auto)
  next
    case False
    then have s: "unat (e + 1) = unat e + 1" "e + 1 \<le> ?L" using tick_step less.prems by blast+
    then have lt: "unat ?L - unat (e + 1) < unat ?L - unat e" by (simp add: word_le_nat_alt)
    obtain ok evs where "wait_thre env t (e + 1) (tr @ [?ev]) = Some (ok, (tr @ [?ev]) @ evs)"
      "writes evs = []" "length evs \<le> unat ?L - unat (e + 1) + 1"
      using less.hyps [OF lt s(2)] by blast
    moreover have "wait_thre env t e tr = wait_thre env t (e + 1) (tr @ [?ev])"
      using False assms by (subst wait_thre.simps) simp
    ultimately show ?thesis
      using s lt by (intro exI [of _ ok] exI [of _ "?ev # evs"]) simp
  qed
qed

text \<open>The bytes that were read from the receive register, in order.\<close>

definition rbr_bytes :: "trace \<Rightarrow> buf" where
  "rbr_bytes tr = map ucast (reads_at U2RBR tr)"

lemma rbr_bytes_simps [simp]:
  "rbr_bytes [] = []"
  "rbr_bytes (Rd a v # tr) = (if a = U2RBR then ucast v # rbr_bytes tr else rbr_bytes tr)"
  by (simp_all add: rbr_bytes_def)

lemma recv_loop_returns:
  assumes "0 < t"
  shows "len \<le> length d \<Longrightarrow> count \<le> len \<Longrightarrow> e \<le> t * TICKS_PER_MS \<Longrightarrow>
    \<exists>bs evs. recv_loop env len t d count e tr =
        Some (take count d @ bs @ drop (count + length bs) d, count + length bs, tr @ evs) \<and>
      count + length bs \<le> len \<and> writes evs = [] \<and> bs = rbr_bytes evs"
proof (induction "(len - count) * (2 ^ 32 + 1) + (unat (t * TICKS_PER_MS) - unat e)"
    arbitrary: d count e tr rule: less_induct)
  case less
  let ?L = "t * TICKS_PER_MS"
  let ?ev = "Rd U2LSR (ucast (ucast (env tr U2LSR) :: u8))"
  let ?tr = "tr @ [?ev]"
  have neq: "U2LSR \<noteq> U2RBR" by (simp add: rs485_regs)
  consider (full) "count = len"
    | (byte) "count < len" "ucast (env tr U2LSR) AND LSR_RDR \<noteq> 0"
    | (stop) "count < len" "ucast (env tr U2LSR) AND LSR_RDR = 0" "?L < e + 1"
    | (wait) "count < len" "ucast (env tr U2LSR) AND LSR_RDR = 0" "\<not> ?L < e + 1"
    using less.prems by linarith
  then show ?case
  proof cases
    case full
    then show ?thesis
      using less.prems by (intro exI [of _ "[]"]) (subst recv_loop.simps, simp)
  next
    case byte
    let ?b = "ucast (env ?tr U2RBR) :: u8"
    let ?ev2 = "Rd U2RBR (ucast ?b)"
    let ?d = "d[count := ?b]"
    have step: "recv_loop env len t d count e tr = recv_loop env len t ?d (Suc count) 0 (?tr @ [?ev2])"
      using byte less.prems by (subst recv_loop.simps) (simp add: rx_available_def read_byte_def)
    have "len - count = Suc (len - Suc count)" using byte by simp
    then have lt: "(len - Suc count) * (2 ^ 32 + 1) + (unat ?L - unat (0 :: u32)) <
        (len - count) * (2 ^ 32 + 1) + (unat ?L - unat e)"
      using tick_limit_less [of t] by simp
    obtain bs evs where r: "recv_loop env len t ?d (Suc count) 0 (?tr @ [?ev2]) =
        Some (take (Suc count) ?d @ bs @ drop (Suc count + length bs) ?d, Suc count + length bs,
          (?tr @ [?ev2]) @ evs)"
      "Suc count + length bs \<le> len" "writes evs = []" "bs = rbr_bytes evs"
      using less.hyps [OF lt, of ?d "?tr @ [?ev2]"] byte less.prems by auto
    have "take (Suc count) ?d = take count d @ [?b]"
      using byte less.prems by (intro take_update_last) simp
    then show ?thesis
      using r step neq
      by (intro exI [of _ "?b # bs"] exI [of _ "?ev # ?ev2 # evs"]) simp
  next
    case stop
    then show ?thesis
      using assms neq less.prems
      by (intro exI [of _ "[]"] exI [of _ "[?ev]"]) (subst recv_loop.simps, simp add: rx_available_def)
  next
    case wait
    then have s: "unat (e + 1) = unat e + 1" "e + 1 \<le> ?L" using tick_step less.prems by blast+
    then have lt: "(len - count) * (2 ^ 32 + 1) + (unat ?L - unat (e + 1)) <
        (len - count) * (2 ^ 32 + 1) + (unat ?L - unat e)"
      by (simp add: word_le_nat_alt)
    have step: "recv_loop env len t d count e tr = recv_loop env len t d count (e + 1) ?tr"
      using wait assms by (subst recv_loop.simps) (simp add: rx_available_def)
    obtain bs evs where "recv_loop env len t d count (e + 1) ?tr =
        Some (take count d @ bs @ drop (count + length bs) d, count + length bs, ?tr @ evs)"
      "count + length bs \<le> len" "writes evs = []" "bs = rbr_bytes evs"
      using less.hyps [OF lt less.prems(1,2) s(2), of ?tr] by blast
    then show ?thesis
      using step neq by (intro exI [of _ bs] exI [of _ "?ev # evs"]) simp
  qed
qed

text \<open>The history after \<open>n\<close> polls of the line status.\<close>

fun lsr_polls :: "env \<Rightarrow> nat \<Rightarrow> trace \<Rightarrow> trace" where
  "lsr_polls env 0 tr = tr"
| "lsr_polls env (Suc n) tr = lsr_polls env n (snd (reg_rd8 env U2LSR tr))"

definition temt_at :: "env \<Rightarrow> nat \<Rightarrow> trace \<Rightarrow> bool" where
  "temt_at env n tr \<longleftrightarrow> (ucast (env (lsr_polls env n tr) U2LSR) :: u8) AND LSR_TEMT \<noteq> 0"

lemma temt_at_Suc: "temt_at env (Suc n) tr = temt_at env n (snd (reg_rd8 env U2LSR tr))"
  by (simp add: temt_at_def)

lemma wait_temt_returns:
  "temt_at env n tr \<Longrightarrow> \<exists>evs. wait_temt env tr = Some (tr @ evs) \<and> writes evs = []"
proof (induction n arbitrary: tr)
  case 0
  then show ?case
    by (subst wait_temt.simps) (simp add: temt_at_def)
next
  case (Suc n)
  let ?ev = "Rd U2LSR (ucast (ucast (env tr U2LSR) :: u8))"
  have "temt_at env n (tr @ [?ev])" using Suc.prems by (simp add: temt_at_Suc)
  from Suc.IH [OF this] obtain evs where "wait_temt env (tr @ [?ev]) = Some ((tr @ [?ev]) @ evs)"
    "writes evs = []" by blast
  then show ?case
    by (subst wait_temt.simps) (auto intro: exI [of _ "[?ev]"] exI [of _ "?ev # evs"])
qed

lemma wait_temt_diverges:
  assumes "\<And>n. \<not> temt_at env n tr"
  shows "wait_temt env tr = None"
proof -
  have "\<exists>n. temt_at env n tr" if "wait_temt env' tr = Some r" "env' = env" for env' tr r
    using that
  proof (induction rule: wait_temt.raw_induct [rotated, consumes 1, case_names step])
    case (step rec e tr r)
    show ?case
    proof (cases "(ucast (env tr U2LSR) :: u8) AND LSR_TEMT \<noteq> 0")
      case True
      then show ?thesis by (intro exI [of _ 0]) (simp add: temt_at_def)
    next
      case False
      then have "rec env (snd (reg_rd8 env U2LSR tr)) = Some r" using step(2,3) by simp
      from step(1) [OF this refl] show ?thesis by (metis temt_at_Suc)
    qed
  qed
  then show ?thesis using assms by (metis not_None_eq)
qed

lemma send_bytes_returns:
  assumes "0 < t"
  shows "len \<le> length d \<Longrightarrow> i \<le> len \<Longrightarrow>
    \<exists>ok k evs. send_bytes env d len t i tr = Some (ok, tr @ evs) \<and> i + k \<le> len \<and> (ok \<longleftrightarrow> i + k = len) \<and>
      writes evs = map (\<lambda>b. (U2THR, ucast b)) (take k (drop i d))"
proof (induction "len - i" arbitrary: i tr)
  case 0
  then show ?case by (intro exI [of _ True] exI [of _ 0] exI [of _ "[]"]) (subst send_bytes.simps, simp)
next
  case (Suc n)
  then have i: "i < len" "n = len - Suc i" by simp_all
  obtain ok evs where w: "wait_thre env t 0 tr = Some (ok, tr @ evs)" "writes evs = []"
    using wait_thre_returns [OF assms, of 0 env tr] by auto
  show ?case
  proof (cases ok)
    case False
    then show ?thesis
      using w i by (intro exI [of _ False] exI [of _ 0] exI [of _ evs]) (subst send_bytes.simps, simp)
  next
    case True
    let ?tr = "tr @ evs @ [Wr U2THR (ucast (d ! i))]"
    obtain ok' k evs' where r: "send_bytes env d len t (Suc i) ?tr = Some (ok', ?tr @ evs')"
      "Suc i + k \<le> len" "ok' \<longleftrightarrow> Suc i + k = len"
      "writes evs' = map (\<lambda>b. (U2THR, ucast b)) (take k (drop (Suc i) d))"
      using Suc.hyps(1) [OF i(2), of ?tr] Suc.prems i by auto
    have "send_bytes env d len t i tr = send_bytes env d len t (Suc i) ?tr"
      using w True i Suc.prems by (subst send_bytes.simps) (simp add: write_byte_def)
    moreover have "take (Suc k) (drop i d) = d ! i # take k (drop (Suc i) d)"
      using i Suc.prems by (intro take_Suc_drop) simp
    ultimately show ?thesis
      using r w by (intro exI [of _ ok'] exI [of _ "Suc k"] exI [of _ "evs @ Wr U2THR (ucast (d ! i)) # evs'"]) simp
  qed
qed

subsection \<open>The port on a line\<close>

text \<open>
  The UART as the register history drives it: the divisor latch bit, the driver enable, the
  bytes that went onto the line (written to the transmit register while the bus is driven), and
  the number of received bytes taken from the receive register.
\<close>

record port =
  p_dlab :: bool
  p_de :: bool
  p_out :: buf
  p_got :: nat

definition port_reset :: port where
  "port_reset = \<lparr>p_dlab = False, p_de = False, p_out = [], p_got = 0\<rparr>"

fun port_step :: "port \<Rightarrow> hw_event \<Rightarrow> port" where
  "port_step p (Wr a v) =
     (if a = U2LCR then p\<lparr>p_dlab := bit v 7\<rparr>
      else if a = U2THR then (if p_de p \<and> \<not> p_dlab p then p\<lparr>p_out := p_out p @ [ucast v]\<rparr> else p)
      else if a = FIO0SET \<and> v AND DE_MASK \<noteq> 0 then p\<lparr>p_de := True\<rparr>
      else if a = FIO0CLR \<and> v AND DE_MASK \<noteq> 0 then p\<lparr>p_de := False\<rparr>
      else p)"
| "port_step p (Rd a v) = (if a = U2RBR \<and> \<not> p_dlab p then p\<lparr>p_got := Suc (p_got p)\<rparr> else p)"
| "port_step p _ = p"

definition port_of :: "trace \<Rightarrow> port" where
  "port_of = foldl port_step port_reset"

lemma port_of_simps [simp]:
  "port_of [] = port_reset"
  "port_of (tr @ [ev]) = port_step (port_of tr) ev"
  "port_of (tr @ ev # evs) = foldl port_step (port_step (port_of tr) ev) evs"
  by (simp_all add: port_of_def)

text \<open>
  Line status and received bytes when \<open>peer out\<close> has arrived after \<open>out\<close> was sent: the transmitter
  is always free, a byte is there as long as one is not taken. All other registers are arbitrary.
\<close>

definition uart_env :: "(buf \<Rightarrow> buf) \<Rightarrow> env \<Rightarrow> env" where
  "uart_env peer env0 tr a =
     (let p = port_of tr; q = drop (p_got p) (peer (p_out p)) in
      if a = U2LSR then 0x60 OR (if q = [] then 0 else 1)
      else if a = U2RBR then (case q of [] \<Rightarrow> 0 | b # _ \<Rightarrow> ucast b)
      else env0 tr a)"

text \<open>A peer: a greeting, then the answers of a byte-driven machine.\<close>

definition machine_peer :: "('m \<Rightarrow> u8 \<Rightarrow> buf \<times> 'm) \<Rightarrow> 'm \<Rightarrow> buf \<Rightarrow> buf \<Rightarrow> buf" where
  "machine_peer step m hello xs = hello @ machine_out step m xs"

definition port_ready :: "(buf \<Rightarrow> buf) \<Rightarrow> trace \<Rightarrow> bool" where
  "port_ready peer tr \<longleftrightarrow> \<not> p_dlab (port_of tr) \<and> p_got (port_of tr) \<le> length (peer (p_out (port_of tr)))"

lemma uart_env_lsr:
  "(ucast (uart_env peer env0 tr U2LSR) :: u8) AND LSR_THRE \<noteq> 0"
  "(ucast (uart_env peer env0 tr U2LSR) :: u8) AND LSR_TEMT \<noteq> 0"
  "(ucast (uart_env peer env0 tr U2LSR) :: u8) AND LSR_RDR = 0 \<longleftrightarrow>
     length (peer (p_out (port_of tr))) \<le> p_got (port_of tr)"
  by (simp_all add: uart_env_def Let_def LSR_THRE_def LSR_TEMT_def LSR_RDR_def)

lemma uart_env_rbr:
  "p_got (port_of tr) < length (peer (p_out (port_of tr))) \<Longrightarrow>
   (ucast (uart_env peer env0 tr U2RBR) :: u8) = peer (p_out (port_of tr)) ! p_got (port_of tr)"
  by (simp add: uart_env_def Let_def rs485_regs hd_drop_conv_nth [symmetric] split: list.split)

definition lsr_reads :: "trace \<Rightarrow> bool" where
  "lsr_reads evs \<longleftrightarrow> (\<forall>ev \<in> set evs. \<exists>v. ev = Rd U2LSR v)"

lemma port_of_lsr_reads: "lsr_reads evs \<Longrightarrow> foldl port_step p evs = p"
  by (induction evs) (auto simp: lsr_reads_def rs485_regs)

lemma recv_loop_silent:
  assumes "0 < t" and "count < len"
    and silent: "\<And>evs. lsr_reads evs \<Longrightarrow> (ucast (env (tr0 @ evs) U2LSR) :: u8) AND LSR_RDR = 0"
  shows "e \<le> t * TICKS_PER_MS \<Longrightarrow> lsr_reads evs0 \<Longrightarrow>
    \<exists>evs. recv_loop env len t d count e (tr0 @ evs0) = Some (d, count, tr0 @ evs) \<and> lsr_reads evs"
proof (induction "unat (t * TICKS_PER_MS) - unat e" arbitrary: e evs0 rule: less_induct)
  case less
  let ?L = "t * TICKS_PER_MS"
  let ?tr = "tr0 @ evs0"
  let ?evs = "evs0 @ [Rd U2LSR (ucast (ucast (env ?tr U2LSR) :: u8))]"
  have l: "lsr_reads ?evs" using less.prems(2) by (auto simp: lsr_reads_def)
  have z: "(ucast (env ?tr U2LSR) :: u8) AND LSR_RDR = 0" by (rule silent [OF less.prems(2)])
  show ?case
  proof (cases "?L < e + 1")
    case True
    then have "recv_loop env len t d count e ?tr = Some (d, count, tr0 @ ?evs)"
      using assms z by (subst recv_loop.simps) (simp add: rx_available_def)
    with l show ?thesis by blast
  next
    case False
    then have s: "unat (e + 1) = unat e + 1" "e + 1 \<le> ?L" using tick_step less.prems by blast+
    then have lt: "unat ?L - unat (e + 1) < unat ?L - unat e" by (simp add: word_le_nat_alt)
    have "recv_loop env len t d count e ?tr = recv_loop env len t d count (e + 1) (tr0 @ ?evs)"
      using False assms z by (subst recv_loop.simps) (simp add: rx_available_def)
    then show ?thesis using less.hyps [OF lt s(2) l] by simp
  qed
qed

lemma send_bytes_port:
  assumes "len \<le> length d"
  shows "i \<le> len \<Longrightarrow> p_de (port_of tr) \<Longrightarrow> \<not> p_dlab (port_of tr) \<Longrightarrow>
    \<exists>tr'. send_bytes (uart_env peer env0) d len t i tr = Some (True, tr') \<and>
      port_of tr' = (port_of tr)\<lparr>p_out := p_out (port_of tr) @ take (len - i) (drop i d)\<rparr>"
proof (induction "len - i" arbitrary: i tr)
  case 0
  then show ?case by (subst send_bytes.simps) simp
next
  case (Suc n)
  let ?env = "uart_env peer env0"
  have i: "i < len" "n = len - Suc i" using Suc.hyps(2) by simp_all
  let ?ev = "Rd U2LSR (ucast (ucast (?env tr U2LSR) :: u8))"
  let ?tr = "tr @ [?ev, Wr U2THR (ucast (d ! i))]"
  have "wait_thre ?env t 0 tr = Some (True, tr @ [?ev])"
    using uart_env_lsr(1) [of peer env0 tr] by (subst wait_thre.simps) simp
  then have step: "send_bytes ?env d len t i tr = send_bytes ?env d len t (Suc i) ?tr"
    using i assms by (subst send_bytes.simps) (simp add: write_byte_def)
  have p: "port_of ?tr = (port_of tr)\<lparr>p_out := p_out (port_of tr) @ [d ! i]\<rparr>"
    using Suc.prems by (simp add: rs485_regs)
  have tk: "take (len - i) (drop i d) = d ! i # take (len - Suc i) (drop (Suc i) d)"
    using i assms by (intro take_diff_drop)
  show ?case
    using Suc.hyps(1) [OF i(2), of ?tr] Suc.prems i step tk p by simp
qed

lemma port_recv:
  assumes "port_ready peer tr" and "p_got (port_of tr) < length (peer (p_out (port_of tr)))" and "0 < t"
  shows "\<exists>tr'. lpc_rs_recv (uart_env peer env0) (Some [j]) 1 t tr =
      Some (St_OK, [peer (p_out (port_of tr)) ! p_got (port_of tr)], 1, tr') \<and>
    port_of tr' = (port_of tr)\<lparr>p_de := False, p_got := Suc (p_got (port_of tr))\<rparr>"
proof -
  let ?env = "uart_env peer env0"
  let ?t0 = "tr @ [Wr FIO0CLR DE_MASK]"
  have p0: "port_of ?t0 = (port_of tr)\<lparr>p_de := False\<rparr>" by (simp add: rs485_regs)
  let ?t1 = "?t0 @ [Rd U2LSR (ucast (ucast (?env ?t0 U2LSR) :: u8))]"
  have p1: "port_of ?t1 = (port_of tr)\<lparr>p_de := False\<rparr>" using p0 by (simp add: rs485_regs)
  let ?b = "peer (p_out (port_of tr)) ! p_got (port_of tr)"
  have b: "(ucast (?env ?t1 U2RBR) :: u8) = ?b"
    using uart_env_rbr [of ?t1 peer env0] assms(2) unfolding p1 by simp
  let ?t2 = "?t1 @ [Rd U2RBR (ucast ?b)]"
  have av: "(ucast (?env ?t0 U2LSR) :: u8) AND LSR_RDR \<noteq> 0"
    using uart_env_lsr(3) [of peer env0 ?t0] assms(2) unfolding p0 by simp
  have "recv_loop ?env 1 t [j] 0 0 ?t0 = recv_loop ?env 1 t [?b] 1 0 ?t2"
    using av b by (subst recv_loop.simps) (simp add: rx_available_def read_byte_def)
  also have "\<dots> = Some ([?b], 1, ?t2)" by (subst recv_loop.simps) simp
  finally have "lpc_rs_recv ?env (Some [j]) 1 t tr = Some (St_OK, [?b], 1, ?t2)"
    by (simp add: lpc_rs_recv_def set_rx_mode_def Let_def)
  moreover have "port_of ?t2 = (port_of tr)\<lparr>p_de := False, p_got := Suc (p_got (port_of tr))\<rparr>"
    using p1 assms(1) by (simp only: port_of_simps port_step.simps) (simp add: port_ready_def)
  ultimately show ?thesis by blast
qed

lemma port_recv_silent:
  assumes "length (peer (p_out (port_of tr))) \<le> p_got (port_of tr)" and "0 < t"
  shows "\<exists>bs n tr'. lpc_rs_recv (uart_env peer env0) (Some [j]) 1 t tr = Some (St_TIMEOUT, bs, n, tr') \<and>
    port_of tr' = (port_of tr)\<lparr>p_de := False\<rparr>"
proof -
  let ?t0 = "tr @ [Wr FIO0CLR DE_MASK]"
  have p0: "port_of ?t0 = (port_of tr)\<lparr>p_de := False\<rparr>" by (simp add: rs485_regs)
  have pe: "port_of (?t0 @ evs) = port_of ?t0" if "lsr_reads evs" for evs
    using port_of_lsr_reads [OF that] by (simp add: port_of_def)
  have "(ucast (uart_env peer env0 (?t0 @ evs) U2LSR) :: u8) AND LSR_RDR = 0" if "lsr_reads evs" for evs
    using uart_env_lsr(3) [of peer env0 "?t0 @ evs"] assms(1) unfolding pe [OF that] p0 by simp
  then obtain evs where "recv_loop (uart_env peer env0) 1 t [j] 0 0 (?t0 @ []) = Some ([j], 0, ?t0 @ evs)"
    "lsr_reads evs"
    using recv_loop_silent [OF assms(2), of 0 1 "uart_env peer env0" ?t0 0 "[]" "[j]"]
    by (auto simp: lsr_reads_def)
  then show ?thesis
    using pe p0 by (intro exI [of _ "[j]"] exI [of _ 0] exI [of _ "?t0 @ evs"])
      (simp add: lpc_rs_recv_def set_rx_mode_def)
qed

lemma port_send:
  assumes "\<not> p_dlab (port_of tr)" and "0 < n" and "n \<le> length d"
  shows "\<exists>tr'. lpc_rs_send (uart_env peer env0) (Some d) n t tr = Some (St_OK, tr') \<and>
    port_of tr' = (port_of tr)\<lparr>p_de := False, p_out := p_out (port_of tr) @ take n d\<rparr>"
proof -
  let ?env = "uart_env peer env0"
  let ?t0 = "set_tx_mode tr"
  have p0: "port_of ?t0 = (port_of tr)\<lparr>p_de := True\<rparr>" by (simp add: set_tx_mode_def rs485_regs)
  obtain t1 where t1: "send_bytes ?env d n t 0 ?t0 = Some (True, t1)"
    "port_of t1 = (port_of tr)\<lparr>p_de := True, p_out := p_out (port_of tr) @ take n d\<rparr>"
    using send_bytes_port [OF assms(3), of 0 ?t0 peer env0 t] assms(1) unfolding p0 by auto
  let ?t2 = "t1 @ [Rd U2LSR (ucast (ucast (?env t1 U2LSR) :: u8))]"
  have w: "wait_temt ?env t1 = Some ?t2"
    using uart_env_lsr(2) [of peer env0 t1] by (subst wait_temt.simps) simp
  have "port_of (set_rx_mode ?t2) = (port_of tr)\<lparr>p_de := False, p_out := p_out (port_of tr) @ take n d\<rparr>"
    using t1(2) by (simp add: set_rx_mode_def rs485_regs)
  then show ?thesis using t1(1) w assms(2) by (simp add: lpc_rs_send_def Let_def)
qed

interpretation lpc: rs485_line "lpc_rs_dev (uart_env (machine_peer step m hello) env0)"
  "port_ready (machine_peer step m hello)" "\<lambda>tr. p_out (port_of tr)" "\<lambda>tr. p_got (port_of tr)"
  "machine_peer step m hello" for step m hello env0
proof
  let ?peer = "machine_peer step m hello"
  fix xs ys :: buf
  show grows: "\<exists>zs. ?peer (xs @ ys) = ?peer xs @ zs" for xs ys :: buf
    by (auto simp: machine_peer_def machine_out_append)
  fix tr :: trace and j :: u8 and t :: u32 and n and d :: buf
  assume r: "port_ready ?peer tr"
  show "p_got (port_of tr) \<le> length (?peer (p_out (port_of tr)))" using r by (simp add: port_ready_def)
  show "\<exists>tr'. rs_recv (lpc_rs_dev (uart_env ?peer env0)) (Some [j]) 1 t tr =
        Some (St_OK, [?peer (p_out (port_of tr)) ! p_got (port_of tr)], 1, tr') \<and> port_ready ?peer tr' \<and>
        p_out (port_of tr') = p_out (port_of tr) \<and> p_got (port_of tr') = Suc (p_got (port_of tr))"
    if "p_got (port_of tr) < length (?peer (p_out (port_of tr)))" "t = 10 \<or> t = 100"
    using port_recv [OF r that(1), of t env0 j] that r by (auto simp: port_ready_def)
  show "\<exists>st bs n tr'. rs_recv (lpc_rs_dev (uart_env ?peer env0)) (Some [j]) 1 t tr = Some (st, bs, n, tr') \<and>
        st \<noteq> St_OK \<and> port_ready ?peer tr' \<and> p_out (port_of tr') = p_out (port_of tr) \<and>
        p_got (port_of tr') = p_got (port_of tr)"
    if "length (?peer (p_out (port_of tr))) \<le> p_got (port_of tr)" "t = 10 \<or> t = 100"
    using port_recv_silent [of ?peer tr t env0 j, OF that(1)] that(2) r by (fastforce simp: port_ready_def)
  show "\<exists>tr'. rs_send (lpc_rs_dev (uart_env ?peer env0)) (Some d) n 100 tr = Some (St_OK, tr') \<and>
        port_ready ?peer tr' \<and> p_out (port_of tr') = p_out (port_of tr) @ take n d \<and>
        p_got (port_of tr') = p_got (port_of tr)"
    if "0 < n" "n \<le> length d"
    using port_send [OF _ that, of tr ?peer env0 100] r grows [of "p_out (port_of tr)" "take n d"]
    by (auto simp: port_ready_def)
qed

subsection \<open>Properties of the port\<close>

text \<open>C33: with a timeout, \<^verbatim>\<open>send\<close> on any UART that, polled long enough, reports an empty
  transmitter, returns. Its writes are: driver enable, then the first \<open>k\<close> bytes of the data to the
  transmit register, in order, then driver disable; it reports success exactly when these are
  all \<open>len\<close> bytes and a timeout otherwise. So the bus is released on every return.\<close>

theorem rs485_send_returns:
  assumes "0 < timeout" and "0 < len" and "len \<le> length d" and "\<And>tr. \<exists>n. temt_at env n tr"
  shows "\<exists>k st evs. lpc_rs_send env (Some d) len timeout tr = Some (st, tr @ evs) \<and> k \<le> len \<and>
    writes evs = (FIO0SET, DE_MASK) # map (\<lambda>b. (U2THR, ucast b)) (take k d) @ [(FIO0CLR, DE_MASK)] \<and>
    st = (if k = len then St_OK else St_TIMEOUT) \<and> \<not> de_level (tr @ evs)"
proof -
  let ?t0 = "tr @ [Wr FIO0SET DE_MASK]"
  obtain ok k evs where s: "send_bytes env d len timeout 0 ?t0 = Some (ok, ?t0 @ evs)" "k \<le> len"
    "ok \<longleftrightarrow> k = len" "writes evs = map (\<lambda>b. (U2THR, ucast b)) (take k d)"
    using send_bytes_returns [OF assms(1,3), of 0 env ?t0] by auto
  obtain n where "temt_at env n (?t0 @ evs)" using assms(4) by blast
  then obtain evs' where w: "wait_temt env (?t0 @ evs) = Some ((?t0 @ evs) @ evs')" "writes evs' = []"
    using wait_temt_returns by blast
  let ?all = "Wr FIO0SET DE_MASK # evs @ (if ok then evs' else []) @ [Wr FIO0CLR DE_MASK]"
  have "lpc_rs_send env (Some d) len timeout tr = Some (if ok then St_OK else St_TIMEOUT, tr @ ?all)"
    using s(1) w(1) assms(2) by (simp add: lpc_rs_send_def set_tx_mode_def set_rx_mode_def Let_def)
  moreover have "\<not> de_level (tr @ ?all)"
    by (simp add: de_level_def rs485_regs)
  ultimately show ?thesis
    using s(2-4) w(2) by (intro exI [of _ k] exI [of _ "if ok then St_OK else St_TIMEOUT"] exI [of _ ?all]) simp
qed

text \<open>A UART whose transmitter is always empty.\<close>

theorem rs485_send_returns_witness:
  "\<exists>k st evs. lpc_rs_send (\<lambda>_ _. 0x60) (Some [1, 2]) 2 100 [] = Some (st, [] @ evs) \<and> k \<le> 2 \<and>
    writes evs = (FIO0SET, DE_MASK) # map (\<lambda>b. (U2THR, ucast b)) (take k [1, 2 :: u8]) @ [(FIO0CLR, DE_MASK)] \<and>
    st = (if k = 2 then St_OK else St_TIMEOUT) \<and> \<not> de_level ([] @ evs)"
  by (rule rs485_send_returns) (simp_all add: temt_at_def LSR_TEMT_def)

text \<open>C38: the wait for the end of the transmission has no timeout: when the transmitter takes the
  bytes but its empty flag never comes, \<^verbatim>\<open>send\<close> does not return, whatever timeout was given, and
  the bus stays driven.\<close>

theorem rs485_send_hangs:
  assumes "0 < len" and "len \<le> length d"
    and "\<And>tr. (ucast (env tr U2LSR) :: u8) AND LSR_THRE \<noteq> 0"
    and "\<And>tr. (ucast (env tr U2LSR) :: u8) AND LSR_TEMT = 0"
  shows "lpc_rs_send env (Some d) len timeout tr = None"
proof -
  have thre: "wait_thre env timeout e tr = Some (True, snd (reg_rd8 env U2LSR tr))" for e tr
    using assms(3) by (subst wait_thre.simps) simp
  have "i \<le> len \<Longrightarrow> \<exists>tr'. send_bytes env d len timeout i tr = Some (True, tr')" for i tr
  proof (induction "len - i" arbitrary: i tr)
    case 0
    then show ?case by (subst send_bytes.simps) simp
  next
    case (Suc n)
    then have i: "i < len" "n = len - Suc i" by simp_all
    then show ?case
      using Suc.hyps(1) [OF i(2)] assms(2) thre by (subst send_bytes.simps) simp
  qed
  then obtain tr' where "send_bytes env d len timeout 0 (set_tx_mode tr) = Some (True, tr')" by blast
  moreover have "wait_temt env tr' = None"
    by (rule wait_temt_diverges) (simp add: temt_at_def assms(4))
  ultimately show ?thesis using assms(1) by (simp add: lpc_rs_send_def Let_def)
qed

theorem rs485_send_hangs_witness: "lpc_rs_send (\<lambda>_ _. 0x20) (Some [7]) 1 100 [] = None"
  using rs485_send_hangs [of 1 "[7]" "\<lambda>_ _. 0x20" 100 "[]"] by (simp add: LSR_THRE_def LSR_TEMT_def)

text \<open>C32: with a timeout, \<^verbatim>\<open>recv\<close> returns on every UART. It only releases the bus and reads; the
  bytes it delivers are those read from the receive register, in order, at most \<open>len\<close> of them and
  in front of the unchanged rest of the buffer; it reports success exactly when there is one.\<close>

theorem rs485_recv_returns:
  assumes "0 < timeout" and "0 < len" and "len \<le> length d"
  shows "\<exists>bs evs. lpc_rs_recv env (Some d) len timeout tr =
      Some (if bs = [] then St_TIMEOUT else St_OK, bs @ drop (length bs) d, length bs, tr @ evs) \<and>
    length bs \<le> len \<and> bs = rbr_bytes evs \<and> writes evs = [(FIO0CLR, DE_MASK)] \<and> \<not> de_level (tr @ evs)"
proof -
  obtain bs evs where "recv_loop env len timeout d 0 0 (tr @ [Wr FIO0CLR DE_MASK]) =
      Some (bs @ drop (length bs) d, length bs, (tr @ [Wr FIO0CLR DE_MASK]) @ evs)"
    "length bs \<le> len" "writes evs = []" "bs = rbr_bytes evs"
    using recv_loop_returns [OF assms(1,3), of 0 0 env "tr @ [Wr FIO0CLR DE_MASK]"] by auto
  moreover have "\<not> de_level (tr @ Wr FIO0CLR DE_MASK # evs)" if "writes evs = []"
    using de_level_append_reads [OF that, of "set_rx_mode tr"] by (simp add: set_rx_mode_def)
  ultimately show ?thesis
    using assms(2)
    by (intro exI [of _ bs] exI [of _ "Wr FIO0CLR DE_MASK # evs"])
       (simp add: lpc_rs_recv_def set_rx_mode_def Let_def rbr_bytes_def)
qed

theorem rs485_recv_returns_witness:
  "\<exists>bs evs. lpc_rs_recv (\<lambda>_ _. 0x61) (Some [0, 0, 9]) 2 10 [] =
      Some (if bs = [] then St_TIMEOUT else St_OK, bs @ drop (length bs) [0, 0, 9], length bs, evs) \<and>
    length bs \<le> 2"
  using rs485_recv_returns [of 10 2 "[0, 0, 9]" "\<lambda>_ _. 0x61" "[]"] by auto

text \<open>The divisor: exact below $2^{28}$ baud.\<close>

lemma baud_divisor:
  assumes "unat baud < 2 ^ 28" and "0 < baud"
  shows "16 * baud \<noteq> 0" and "unat (PCLK_HZ div (16 * baud)) = 1500000 div unat baud"
proof -
  have m: "unat (16 * baud) = 16 * unat baud"
    using assms(1) by (subst unat_mult_lem [THEN iffD1]) simp_all
  have b: "0 < unat baud" using assms(2) by (simp add: unat_gt_0 word_less_nat_alt)
  then have "unat (16 * baud) \<noteq> 0" by (simp only: m)
  then show "16 * baud \<noteq> 0" by (metis unat_0)
  have "24000000 div (16 * unat baud) = 1500000 div unat baud"
    using div_mult2_eq [of 24000000 16 "unat baud"] by simp
  then show "unat (PCLK_HZ div (16 * baud)) = 1500000 div unat baud"
    by (simp add: unat_div m PCLK_HZ_def)
qed

lemma divisor_in_range:
  fixes n :: nat
  assumes "0 < n"
  shows "1500000 div n \<noteq> 0 \<and> 1500000 div n \<le> 0xFFFF \<longleftrightarrow> 23 \<le> n \<and> n \<le> 1500000"
proof -
  have "1500000 div n = 0 \<longleftrightarrow> 1500000 < n" using assms by (simp add: div_eq_0_iff)
  moreover have "1500000 div n < 65536 \<longleftrightarrow> 1500000 < 65536 * n"
    using assms by (simp add: div_less_iff_less_mult mult.commute)
  ultimately show ?thesis by linarith
qed

text \<open>The last six writes of a successful initialisation, for a divisor.\<close>

definition uart_setup :: "u32 \<Rightarrow> (u32 \<times> u32) list" where
  "uart_setup dl = [(U2LCR, 0x83), (U2DLL, dl AND 0xFF), (U2DLM, drop_bit 8 dl AND 0xFF), (U2FDR, 0x10),
     (U2LCR, 0x03), (U2FCR, 0x07)]"

lemma low_byte_word: "(ucast (ucast (v AND 0xFF :: u32) :: u8) :: u32) = v AND 0xFF"
proof -
  have m: "(0xFF :: u32) = mask 8" by (simp add: mask_eq_exp_minus_1)
  show ?thesis by (rule bit_word_eqI) (simp only: m, auto simp: bit_simps)
qed

lemma lpc_rs_init_accepts:
  assumes "baud \<noteq> 0" and "16 * baud \<noteq> 0" and "PCLK_HZ div (16 * baud) \<noteq> 0" and "PCLK_HZ div (16 * baud) \<le> 0xFFFF"
  shows "\<exists>evs pre. lpc_rs_init env baud tr = Some (St_OK, tr @ evs) \<and>
    writes evs = pre @ (FIO0CLR, DE_MASK) # uart_setup (PCLK_HZ div (16 * baud)) \<and> \<not> de_level (tr @ evs)"
  using assms
  by (simp add: lpc_rs_init_def Let_def not_less reg_or_def reg_clear_def set_rx_mode_def uart_setup_def
      low_byte_word de_level_def rs485_regs)

text \<open>The divisor in full: for every baud rate below $2^{28}$, initialisation succeeds exactly for 23 to 1500000 baud:
  it releases the bus and programs the divisor $1500000 / baud$, low and high byte, with the
  fractional divider off and the divisor latch closed again; every other rate, zero included, is
  refused before any register is touched.\<close>

theorem rs485_init_divisor:
  assumes "unat baud < 2 ^ 28"
  shows "if 23 \<le> unat baud \<and> unat baud \<le> 1500000
    then \<exists>evs pre dl. lpc_rs_init env baud tr = Some (St_OK, tr @ evs) \<and> unat dl = 1500000 div unat baud \<and>
      writes evs = pre @ (FIO0CLR, DE_MASK) # uart_setup dl \<and> \<not> de_level (tr @ evs)
    else lpc_rs_init env baud tr = Some (St_HW_ERROR, tr)"
proof (cases "baud = 0")
  case True
  then show ?thesis by (simp add: lpc_rs_init_def)
next
  case False
  then have b: "0 < baud" by (simp add: word_neq_0_conv)
  then have n: "0 < unat baud" by (simp add: unat_gt_0 word_less_nat_alt)
  define dl where "dl = PCLK_HZ div (16 * baud)"
  have d: "16 * baud \<noteq> 0" "unat dl = 1500000 div unat baud"
    unfolding dl_def by (rule baud_divisor [OF assms b])+
  have z: "dl \<noteq> 0 \<longleftrightarrow> unat dl \<noteq> 0" by (simp only: word_unat_eq_iff unat_0)
  have le: "dl \<le> 0xFFFF \<longleftrightarrow> unat dl \<le> 0xFFFF" by (simp add: word_le_nat_alt)
  have range: "dl \<noteq> 0 \<and> dl \<le> 0xFFFF \<longleftrightarrow> 23 \<le> unat baud \<and> unat baud \<le> 1500000"
    unfolding z le d(2) by (rule divisor_in_range [OF n])
  show ?thesis
  proof (cases "dl \<noteq> 0 \<and> dl \<le> 0xFFFF")
    case True
    then obtain evs pre where "lpc_rs_init env baud tr = Some (St_OK, tr @ evs)"
      "writes evs = pre @ (FIO0CLR, DE_MASK) # uart_setup dl" "\<not> de_level (tr @ evs)"
      using lpc_rs_init_accepts [OF False d(1), of env tr] unfolding dl_def by blast
    then show ?thesis
      unfolding if_P [OF iffD1 [OF range True]] using d(2) by blast
  next
    case outside: False
    then have "lpc_rs_init env baud tr = Some (St_HW_ERROR, tr)"
      using False d(1) by (auto simp: lpc_rs_init_def Let_def not_less simp flip: dl_def)
    moreover have "\<not> (23 \<le> unat baud \<and> unat baud \<le> 1500000)" using outside range by blast
    ultimately show ?thesis by (simp only: if_False)
  qed
qed

theorem rs485_init_divisor_witness:
  "\<exists>evs pre dl. lpc_rs_init (\<lambda>_ _. 0) 115200 [] = Some (St_OK, [] @ evs) \<and> unat dl = 13 \<and>
    writes evs = pre @ (FIO0CLR, DE_MASK) # uart_setup dl"
  using rs485_init_divisor [of 115200 "\<lambda>_ _. 0" "[]"] by auto

text \<open>From $2^{28}$ baud on, the product of baud and sixteen wraps in 32 bits: a rate that is a
  multiple of $2^{28}$ divides by zero, and a rate of $2^{28}$ and 9600 is accepted with the same writes as 9600.\<close>

theorem rs485_init_wraps:
  "lpc_rs_init env 0x10000000 tr = None \<and>
   lpc_rs_init env (0x10000000 + 9600) tr = lpc_rs_init env 9600 tr \<and>
   (\<exists>tr'. lpc_rs_init env 9600 tr = Some (St_OK, tr'))"
  by (simp add: lpc_rs_init_def Let_def PCLK_HZ_def)

subsection \<open>Properties of the protocol over the port\<close>

text \<open>The bytes that have arrived and are not yet taken.\<close>

definition line_in :: "(buf \<Rightarrow> buf) \<Rightarrow> trace \<Rightarrow> buf" where
  "line_in peer tr = drop (p_got (port_of tr)) (peer (p_out (port_of tr)))"

text \<open>The line's reading queue in the contract is this one.\<close>

lemma lpc_pending:
  "rs485_line.pending (\<lambda>tr. p_out (port_of tr)) (\<lambda>tr. p_got (port_of tr)) (machine_peer step m hello) tr =
   line_in (machine_peer step m hello) tr"
  by (simp add: lpc.pending_def line_in_def)

text \<open>C2: \<^verbatim>\<open>send_frame\<close> over the UART port, with any machine at the other end of the line, returns, and every
  attempt is accounted for. There is a number \<open>j\<close> below four such that exactly the attempts \<open>0\<close> to \<open>j\<close> are made: each of them puts one
  whole copy of the frame (start byte, stuffed type, sequence number, payload and checksum, delimiter) on the bus, and
  nothing else is put there; none before \<open>j\<close> is acknowledged, and \<open>j\<close> is acknowledged or the fourth. An attempt is acknowledged
  exactly if the first packet in the bytes that are waiting when it begins and those the machine answers to its copy is an
  undamaged acknowledgement of this sequence number. The call reports success, and moves
  to the next sequence number, exactly if attempt \<open>j\<close> is acknowledged; what is behind that packet stays unread.\<close>

theorem lpc_send_frame:
  assumes "port_ready (machine_peer step m hello) tr" and "len \<le> 128" and "len \<le> length pl"
  shows "let peer = machine_peer step m hello; w = proto_wire DATA (rp_seq p) (take len pl);
      out = p_out (port_of tr); inp = line_in peer tr; acked = attempt_acked peer w (rp_seq p) out inp
    in \<exists>j tr'. rp_send_frame (lpc_rs_dev (uart_env peer env0)) junk (Some pl) len p tr =
        Some (acked j, if acked j then p\<lparr>rp_seq := rp_seq p + 1\<rparr> else p, tr') \<and>
      j < 4 \<and> list_all (\<lambda>i. \<not> acked i) [0..<j] \<and> (acked j \<or> j = 3) \<and>
      port_ready peer tr' \<and> p_out (port_of tr') = out @ concat (replicate (Suc j) w) \<and>
      line_in peer tr' = unread_before peer w out inp (Suc j)"
proof -
  let ?peer = "machine_peer step m hello" and ?w = "proto_wire DATA (rp_seq p) (take len pl)"
  obtain ok tr' where r: "rp_send_frame (lpc_rs_dev (uart_env ?peer env0)) junk (Some pl) len p tr =
      Some (ok, if ok then p\<lparr>rp_seq := rp_seq p + 1\<rparr> else p, tr')" "port_ready ?peer tr'"
    and s: "stop_and_wait ?peer (Suc 3) ?w (rp_seq p) (p_out (port_of tr)) (line_in ?peer tr) =
      (ok, p_out (port_of tr'), line_in ?peer tr')"
    using lpc.rp_send_frame_spec [OF assms, of env0 junk p] by (auto simp: lpc_pending)
  define acked where
    "acked = attempt_acked ?peer ?w (rp_seq p) (p_out (port_of tr)) (line_in ?peer tr)"
  obtain j where j: "j \<le> 3" "\<forall>i < j. \<not> acked i" "ok = acked j" "ok \<or> j = 3"
    "p_out (port_of tr') = p_out (port_of tr) @ concat (replicate (Suc j) ?w)"
    "line_in ?peer tr' = unread_before ?peer ?w (p_out (port_of tr)) (line_in ?peer tr) (Suc j)"
    using stop_and_wait_attempts [OF s] unfolding acked_def by blast
  show ?thesis
    unfolding Let_def acked_def [symmetric]
    by (intro exI [of _ j] exI [of _ tr'] conjI) (use r j in \<open>simp_all only: list_all_iff set_upt, auto\<close>)
qed

text \<open>A silent machine; and one that answers the second copy only.\<close>

theorem lpc_send_frame_witness:
  "let w = proto_wire DATA 0 [7]; ack = proto_wire ACK 0 [];
      silent = machine_peer (\<lambda>u b. ([], u)) () [];
      second = machine_peer (\<lambda>n b. (if b = 0 \<and> n = 1 then ack else [], if b = 0 then n + 1 else n)) (0 :: nat) [];
      send = (\<lambda>peer. rp_send_frame (lpc_rs_dev (uart_env peer (\<lambda>_ _. 0))) (\<lambda>_ _. 0) (Some [7]) 1 \<lparr>rp_seq = 0\<rparr> [])
    in (\<exists>tr'. send silent = Some (False, \<lparr>rp_seq = 0\<rparr>, tr') \<and> p_out (port_of tr') = w @ w @ w @ w) \<and>
      (\<exists>tr'. send second = Some (True, \<lparr>rp_seq = 1\<rparr>, tr') \<and> p_out (port_of tr') = w @ w)"
proof -
  let ?w = "proto_wire DATA 0 [7]"
  let ?silent = "machine_peer (\<lambda>u b. ([], u)) () []"
  let ?second = "machine_peer (\<lambda>n b. (if b = 0 \<and> n = 1 then proto_wire ACK 0 [] else [], if b = 0 then n + 1 else n)) (0 :: nat) []"
  have s: "map (attempt_acked ?silent ?w 0 [] []) [0, 1, 2] = [False, False, False]"
      "attempt_acked ?silent ?w 0 [] [] 3 = False"
    and a: "map (attempt_acked ?second ?w 0 [] []) [0, 1] = [False, True]" by code_simp+
  have i: "rp_seq \<lparr>rp_seq = 0\<rparr> = 0" "take 1 [7] = ([7] :: buf)" "p_out (port_of []) = []"
    "line_in ?silent [] = []" "line_in ?second [] = []"
    by (simp_all add: port_reset_def line_in_def machine_peer_def)
  have r: "port_ready ?silent []" "port_ready ?second []" "(1 :: nat) \<le> 128" "1 \<le> length ([7] :: buf)"
    by (simp_all add: port_ready_def port_reset_def)
  obtain j tr1 where 1: "rp_send_frame (lpc_rs_dev (uart_env ?silent (\<lambda>_ _. 0))) (\<lambda>_ _. 0) (Some [7]) 1 \<lparr>rp_seq = 0\<rparr> [] =
      Some (attempt_acked ?silent ?w 0 [] [] j,
        if attempt_acked ?silent ?w 0 [] [] j then \<lparr>rp_seq = 0\<rparr>\<lparr>rp_seq := 0 + 1\<rparr> else \<lparr>rp_seq = 0\<rparr>, tr1)"
    "j < 4" "attempt_acked ?silent ?w 0 [] [] j \<or> j = 3" "p_out (port_of tr1) = concat (replicate (Suc j) ?w)"
    using lpc_send_frame [OF r(1,3,4), where p = "\<lparr>rp_seq = 0\<rparr>" and ?env0.0 = "\<lambda>_ _. 0" and junk = "\<lambda>_ _. 0"] unfolding Let_def i append_Nil by blast
  have j: "j = 3" using 1(2,3) s by (auto simp: less_Suc_eq numeral_eq_Suc)
  obtain k tr2 where 2: "rp_send_frame (lpc_rs_dev (uart_env ?second (\<lambda>_ _. 0))) (\<lambda>_ _. 0) (Some [7]) 1 \<lparr>rp_seq = 0\<rparr> [] =
      Some (attempt_acked ?second ?w 0 [] [] k,
        if attempt_acked ?second ?w 0 [] [] k then \<lparr>rp_seq = 0\<rparr>\<lparr>rp_seq := 0 + 1\<rparr> else \<lparr>rp_seq = 0\<rparr>, tr2)"
    "list_all (\<lambda>i. \<not> attempt_acked ?second ?w 0 [] [] i) [0..<k]" "attempt_acked ?second ?w 0 [] [] k \<or> k = 3"
    "p_out (port_of tr2) = concat (replicate (Suc k) ?w)"
    using lpc_send_frame [OF r(2,3,4), where p = "\<lparr>rp_seq = 0\<rparr>" and ?env0.0 = "\<lambda>_ _. 0" and junk = "\<lambda>_ _. 0"] unfolding Let_def i append_Nil by blast
  have k: "k = 1"
  proof (rule ccontr)
    assume "k \<noteq> 1"
    then consider "k = 0" | "1 < k" by linarith
    then show False using 2(2,3) a by cases (auto simp: list_all_iff)
  qed
  show ?thesis
    using 1(1,4) 2(1,4) s(2) a unfolding Let_def i j k by (simp add: numeral_3_eq_3)
qed

text \<open>C3: \<^verbatim>\<open>recv_frame\<close> over the UART port, with any machine at the other end and any bytes waiting,
  returns and does what the abstract receiver does: it reads one packet, delivers exactly the
  payload of an undamaged DATA frame that fits in the caller's buffer and leaves the buffer alone
  otherwise; it answers an undamaged DATA frame with ACK, a damaged frame with NACK, each with
  the sequence number received, and everything else with silence.\<close>

theorem lpc_recv_frame:
  assumes "port_ready (machine_peer step m hello) tr" and "len \<le> length b0"
  shows "let peer = machine_peer step m hello in
    case receive_step len (line_in peer tr) of (delivered, answer, rest) \<Rightarrow>
      \<exists>tr'. rp_recv_frame (lpc_rs_dev (uart_env peer env0)) junk b0 len tr =
          Some (case delivered of Some pl \<Rightarrow> (True, pl @ drop (length pl) b0, length pl, tr')
            | None \<Rightarrow> (False, b0, len, tr')) \<and>
        port_ready peer tr' \<and> p_out (port_of tr') = p_out (port_of tr) @ answer \<and>
        line_in peer tr' = rest @ reply_to peer (p_out (port_of tr)) answer"
  using lpc.rp_recv_frame_spec [OF assms, of env0 junk]
  by (auto simp: lpc_pending Let_def split: prod.splits)

theorem lpc_recv_frame_witness:
  "\<exists>tr'. rp_recv_frame (lpc_rs_dev (uart_env (machine_peer (\<lambda>u b. ([], u)) () []) (\<lambda>_ _. 0)))
      (\<lambda>_ _. 0) [9, 9] 2 [] = Some (False, [9, 9], 2, tr')"
proof -
  have r: "port_ready (machine_peer (\<lambda>u b. ([], u)) () []) []"
    by (simp add: port_ready_def port_reset_def)
  have "line_in (machine_peer (\<lambda>u b. ([], u)) () []) [] = []"
    by (simp add: line_in_def machine_peer_def port_reset_def)
  then show ?thesis
    using lpc_recv_frame [OF r, of 2 "[9, 9]" "\<lambda>_ _. 0" "\<lambda>_ _. 0"]
    by (auto simp: Let_def receive_step_def next_packet_def)
qed

lemma crc_ok_wire [simp]: "unframe 256 (cobs_frame (proto_raw ty sq pl)) = Some d \<Longrightarrow> crc_ok d"
  by (auto simp: unframe_iff)

lemma receive_data_frame:
  assumes "length pl \<le> 128" and "SOF \<notin> set noise"
  shows "receive_step room (noise @ proto_wire DATA sq pl @ q) =
    (if length pl \<le> room then Some pl else None, proto_wire ACK sq [], q)"
proof -
  have l: "length (cobs_frame (proto_raw DATA sq pl)) \<le> 256"
    using length_cobs_frame_short [of "proto_raw DATA sq pl"] assms(1) by simp
  have "next_packet 256 (noise @ SOF # cobs_frame (proto_raw DATA sq pl) @ q) =
      Some (cobs_frame (proto_raw DATA sq pl), q)"
    by (rule next_packet_wire [OF assms(2) l])
  moreover have "unframe 256 (cobs_frame (proto_raw DATA sq pl)) = Some (proto_raw DATA sq pl)"
    using assms(1) by (intro unframe_wire) simp
  ultimately show ?thesis by (simp add: receive_step_def proto_wire_def)
qed

text \<open>C35: a DATA frame waiting behind noise without a start byte is acknowledged before the size of
  the caller's buffer is looked at: when its payload is larger, the sender gets its ACK, the call
  fails and the payload is lost. There is no check of the sequence number either: a frame
  that arrives twice (because its first acknowledgement was lost) is delivered twice.\<close>

theorem recv_acknowledges_first:
  assumes "port_ready (machine_peer step m hello) tr" and "length pl \<le> 128" and "SOF \<notin> set noise"
    and "line_in (machine_peer step m hello) tr = noise @ proto_wire DATA sq pl @ proto_wire DATA sq pl @ q"
    and "room \<le> length b0"
  shows "let peer = machine_peer step m hello; dev = lpc_rs_dev (uart_env peer env0) in
    \<exists>tr'. p_out (port_of tr') = p_out (port_of tr) @ proto_wire ACK sq [] \<and>
      (if room < length pl then rp_recv_frame dev junk b0 room tr = Some (False, b0, room, tr')
       else \<exists>tr''. rp_recv_frame dev junk b0 room tr = Some (True, pl @ drop (length pl) b0, length pl, tr') \<and>
         rp_recv_frame dev junk b0 room tr' = Some (True, pl @ drop (length pl) b0, length pl, tr''))"
proof -
  let ?peer = "machine_peer step m hello"
  let ?dev = "lpc_rs_dev (uart_env ?peer env0)"
  let ?w = "proto_wire DATA sq pl"
  note spec = lpc.rp_recv_frame_spec [where step = step and m = m and hello = hello and ?env0.0 = env0
      and junk = junk and len = room and ?b0.0 = b0, unfolded lpc_pending]
  note first = receive_data_frame [OF assms(2,3), of room sq "?w @ q"]
  obtain tr' where 1: "rp_recv_frame ?dev junk b0 room tr =
      Some (if length pl \<le> room then (True, pl @ drop (length pl) b0, length pl, tr') else (False, b0, room, tr'))"
    "port_ready ?peer tr'" "p_out (port_of tr') = p_out (port_of tr) @ proto_wire ACK sq []"
    "line_in ?peer tr' = [] @ ?w @ q @ reply_to ?peer (p_out (port_of tr)) (proto_wire ACK sq [])"
    using spec [OF assms(1,5), unfolded assms(4) first] by (auto split: if_splits)
  have second: "receive_step room (line_in ?peer tr') =
      (if length pl \<le> room then Some pl else None, proto_wire ACK sq [],
       q @ reply_to ?peer (p_out (port_of tr)) (proto_wire ACK sq []))"
    unfolding 1(4) by (rule receive_data_frame [OF assms(2)]) simp
  obtain tr'' where 2: "length pl \<le> room \<longrightarrow>
      rp_recv_frame ?dev junk b0 room tr' = Some (True, pl @ drop (length pl) b0, length pl, tr'')"
    using spec [OF 1(2) assms(5), unfolded second] by (auto split: if_splits)
  show ?thesis
    unfolding Let_def using 1(1,3) 2 by (intro exI [of _ tr']) (auto simp: not_less)
qed

theorem recv_acknowledges_first_witness:
  "\<exists>tr'. p_out (port_of tr') = proto_wire ACK 5 [] \<and>
    rp_recv_frame (lpc_rs_dev (uart_env (machine_peer (\<lambda>u b. ([], u)) ()
        ([1] @ proto_wire DATA 5 [6, 7] @ proto_wire DATA 5 [6, 7] @ [])) (\<lambda>_ _. 0))) (\<lambda>_ _. 0) [9] 1 [] =
      Some (False, [9], 1, tr')"
proof -
  let ?h = "[1] @ proto_wire DATA 5 [6, 7] @ proto_wire DATA 5 [6, 7] @ []"
  let ?peer = "machine_peer (\<lambda>u b. ([], u)) () ?h"
  have r: "port_ready ?peer []" by (simp add: port_ready_def port_reset_def)
  have i: "line_in ?peer [] = [1] @ proto_wire DATA 5 [6, 7] @ proto_wire DATA 5 [6, 7] @ []"
    by (simp add: line_in_def machine_peer_def port_reset_def)
  have s: "SOF \<notin> set [1]" by (simp add: SOF_def)
  show ?thesis
    using recv_acknowledges_first [OF r _ s i, of 1 "[9]" "\<lambda>_ _. 0" "\<lambda>_ _. 0"]
    by (simp add: port_reset_def)
qed

end
