(* ===== verification/Pico.thy ===== *)
theory Pico
  imports Fw_Prelude
begin

text \<open>
  The calls into the Pico SDK that the RP2040 programs make, as events in the order of the
  calls, the status-LED helpers every program repeats, and what a line transceiver makes of the
  UART writes: only bytes written while the driver-enable pin is high reach the bus.
\<close>

datatype pico_event =
    Pio_setup u32 u32            \<comment> \<open>\<^verbatim>\<open>ws2812_program_init\<close>: pin and rate\<close>
  | Pio_put u32                  \<comment> \<open>\<^verbatim>\<open>pio_sm_put_blocking\<close>\<close>
  | Sleep_ms u32
  | Sleep_us u32
  | Uart_init u32                \<comment> \<open>the baud rate\<close>
  | Gpio_set_function u32
  | Gpio_init u32
  | Gpio_set_dir u32 bool        \<comment> \<open>true is output\<close>
  | Gpio_pull_up u32
  | Gpio_put u32 bool
  | Gpio_get u32 bool            \<comment> \<open>a pin read, and the level it returned\<close>
  | Uart_write buf               \<comment> \<open>\<^verbatim>\<open>uart_write_blocking\<close>, \<^verbatim>\<open>uart_putc_raw\<close>\<close>
  | Uart_tx_wait                 \<comment> \<open>\<^verbatim>\<open>uart_tx_wait_blocking\<close>\<close>
  | Spi_init u32
  | Spi_set_format bool bool
  | Spi_write_read buf

type_synonym pico_trace = "pico_event list"

subsection \<open>The status LED\<close>

definition put_pixel :: "u32 \<Rightarrow> pico_trace" where
  "put_pixel grb = [Pio_put (push_bit 8 grb)]"

definition rgb :: "u8 \<Rightarrow> u8 \<Rightarrow> u8 \<Rightarrow> u32" where
  "rgb r g b = push_bit 16 (ucast g) OR push_bit 8 (ucast r) OR ucast b"

definition WS2812_PIN :: u32 where "WS2812_PIN = 16"

text \<open>The boot sequence: the LED program, then \<open>n\<close> blue blinks.\<close>

fun boot_blinks :: "nat \<Rightarrow> pico_trace" where
  "boot_blinks 0 = []"
| "boot_blinks (Suc n) =
     put_pixel (rgb 0 0 32) @ [Sleep_ms 150] @ put_pixel 0 @ [Sleep_ms 150] @ boot_blinks n"

subsection \<open>The bus behind the transceiver\<close>

text \<open>\<open>bus_bytes pin de evs\<close>: the bytes on the bus, and \<open>bus_driven\<close> the enable level afterwards.\<close>

fun bus_bytes :: "u32 \<Rightarrow> bool \<Rightarrow> pico_trace \<Rightarrow> buf" where
  "bus_bytes pin de [] = []"
| "bus_bytes pin de (Uart_write d # evs) = (if de then d else []) @ bus_bytes pin de evs"
| "bus_bytes pin de (Gpio_put p v # evs) = bus_bytes pin (if p = pin then v else de) evs"
| "bus_bytes pin de (_ # evs) = bus_bytes pin de evs"

fun bus_driven :: "u32 \<Rightarrow> bool \<Rightarrow> pico_trace \<Rightarrow> bool" where
  "bus_driven pin de [] = de"
| "bus_driven pin de (Gpio_put p v # evs) = bus_driven pin (if p = pin then v else de) evs"
| "bus_driven pin de (_ # evs) = bus_driven pin de evs"

lemma bus_append [simp]:
  "bus_bytes pin de (evs @ evs') = bus_bytes pin de evs @ bus_bytes pin (bus_driven pin de evs) evs'"
  "bus_driven pin de (evs @ evs') = bus_driven pin (bus_driven pin de evs) evs'"
  by (induction pin de evs rule: bus_bytes.induct) simp_all

lemma bus_put_pixel [simp]:
  "bus_bytes pin de (put_pixel c) = []" "bus_driven pin de (put_pixel c) = de"
  by (simp_all add: put_pixel_def)

subsection \<open>What the LED shows\<close>

text \<open>The words sent to the LED, in order.\<close>

fun pixels :: "pico_trace \<Rightarrow> u32 list" where
  "pixels [] = []"
| "pixels (Pio_put v # evs) = v # pixels evs"
| "pixels (_ # evs) = pixels evs"

lemma pixels_append [simp]: "pixels (evs @ evs') = pixels evs @ pixels evs'"
  by (induction evs rule: pixels.induct) simp_all

lemma pixels_put_pixel [simp]: "pixels (put_pixel c) = [push_bit 8 c]"
  by (simp add: put_pixel_def)

end
