(* ===== verification/Responder.thy ===== *)
theory Responder
  imports Pico Rs485_Protocol
begin

text \<open>
  \<^verbatim>\<open>rp2040/protocol_responder.cpp\<close>: the byte loop of the RS-485 responder as a step function.
  One step takes one received byte, and returns the SDK calls it makes with the new locals of
  \<^verbatim>\<open>main\<close>, or \<open>None\<close> where it accesses memory outside an array. An abstract responder, which collects
  bytes and answers packets, is refined by it; the lemmas show exactly which frames overrun the
  transmit array.
\<close>

subsection \<open>The code\<close>

definition RESP_DE_PIN :: u32 where "RESP_DE_PIN = 6"
definition RESP_SOF :: u8 where "RESP_SOF = 0x55"
definition TYPE_DATA :: u8 where "TYPE_DATA = 1"
definition TYPE_ACK :: u8 where "TYPE_ACK = 2"
definition TYPE_NACK :: u8 where "TYPE_NACK = 3"

definition send_wire :: "(nat \<Rightarrow> u8) \<Rightarrow> buf \<Rightarrow> nat \<Rightarrow> pico_trace option" where
  "send_wire junk raw raw_len = do {
     let wire = uninit junk 300;
     wire \<leftarrow> wr8 wire 0 RESP_SOF;
     (n, out) \<leftarrow> cobs_encode raw raw_len (tl wire) (length wire - 1);
     if n = 0 then Some []
     else if length out < n then None
     else Some [Gpio_put RESP_DE_PIN True, Uart_write (take (1 + n) (hd wire # out)), Uart_tx_wait,
                Gpio_put RESP_DE_PIN False] }"

definition send_ctrl :: "(nat \<Rightarrow> u8) \<Rightarrow> u8 \<Rightarrow> u8 \<Rightarrow> pico_trace option" where
  "send_ctrl junk ty sq = do {
     let f = [ty, sq, 0, 0];
     crc \<leftarrow> crc16_ccitt (Some f) 2;
     f \<leftarrow> wr8 f 2 (hi8 crc);
     f \<leftarrow> wr8 f 3 (lo8 crc);
     send_wire junk f 4 }"

definition send_data :: "(nat \<Rightarrow> u8) \<Rightarrow> (nat \<Rightarrow> u8) \<Rightarrow> u8 \<Rightarrow> buf \<Rightarrow> nat \<Rightarrow> pico_trace option" where
  "send_data junk_f junk sq payload len = do {
     let f = uninit junk_f (2 + 128 + 2);
     f \<leftarrow> wr8 f 0 TYPE_DATA;
     f \<leftarrow> wr8 f 1 sq;
     f \<leftarrow> memcpy8 f 2 payload 0 len;
     crc \<leftarrow> crc16_ccitt (Some f) (2 + len);
     f \<leftarrow> wr8 f (2 + len) (hi8 crc);
     f \<leftarrow> wr8 f (2 + len + 1) (lo8 crc);
     send_wire junk f (2 + len + 2) }"

text \<open>The locals of \<^verbatim>\<open>main\<close> that live across turns of its loop.\<close>

record responder =
  r_buf :: buf
  r_idx :: nat
  r_in_frame :: bool

definition responder_start :: "(nat \<Rightarrow> u8) \<Rightarrow> responder" where
  "responder_start junk = \<lparr>r_buf = uninit junk 300, r_idx = 0, r_in_frame = False\<rparr>"

definition responder_boot :: pico_trace where
  "responder_boot = [Pio_setup WS2812_PIN 800000] @ boot_blinks 3 @
     [Uart_init 115200, Gpio_set_function 4, Gpio_set_function 5,
      Gpio_init RESP_DE_PIN, Gpio_set_dir RESP_DE_PIN True, Gpio_put RESP_DE_PIN False]"

text \<open>From the delimiter on: decode, check, answer.\<close>

definition handle_packet :: "(nat \<Rightarrow> nat \<Rightarrow> u8) \<Rightarrow> buf \<Rightarrow> nat \<Rightarrow> pico_trace option" where
  "handle_packet junk cobs_buf idx = do {
     (n, raw) \<leftarrow> cobs_decode cobs_buf idx (uninit (junk 0) 300) 300;
     if n < 4 then Some []
     else do {
       h \<leftarrow> rd8 raw (n - 2);
       l \<leftarrow> rd8 raw (n - 1);
       calc \<leftarrow> crc16_ccitt (Some raw) (n - 2);
       ty \<leftarrow> rd8 raw 0;
       sq \<leftarrow> rd8 raw 1;
       if be16 h l \<noteq> calc then do {
         evs \<leftarrow> send_ctrl (junk 1) TYPE_NACK sq;
         Some (put_pixel (rgb 32 0 0) @ evs @ [Sleep_ms 30] @ put_pixel 0) }
       else if ty = TYPE_DATA then do {
         evs1 \<leftarrow> send_ctrl (junk 1) TYPE_ACK sq;
         evs2 \<leftarrow> send_data (junk 2) (junk 3) sq (drop 2 raw) (n - 4);
         Some (put_pixel (rgb 0 32 0) @ evs1 @ evs2 @ [Sleep_ms 30] @ put_pixel 0) }
       else Some [] } }"

text \<open>The body of the loop for one byte from \<^verbatim>\<open>uart_getc\<close>.\<close>

definition responder_step ::
  "(nat \<Rightarrow> nat \<Rightarrow> u8) \<Rightarrow> responder \<Rightarrow> u8 \<Rightarrow> (pico_trace \<times> responder) option"
where
  "responder_step junk st byte =
     (if \<not> r_in_frame st then
        Some ([], if byte = RESP_SOF then st\<lparr>r_in_frame := True, r_idx := 0\<rparr> else st)
      else if 300 \<le> r_idx st then Some ([], st\<lparr>r_in_frame := False\<rparr>)
      else do {
        b \<leftarrow> wr8 (r_buf st) (r_idx st) byte;
        let st = st\<lparr>r_buf := b, r_idx := r_idx st + 1\<rparr>;
        if byte \<noteq> 0 then Some ([], st)
        else do {
          let st = st\<lparr>r_in_frame := False\<rparr>;
          evs \<leftarrow> handle_packet junk (r_buf st) (r_idx st);
          Some (evs, st) } })"

text \<open>A sequence of bytes.\<close>

fun responder_run ::
  "(nat \<Rightarrow> nat \<Rightarrow> u8) \<Rightarrow> responder \<Rightarrow> buf \<Rightarrow> (pico_trace \<times> responder) option"
where
  "responder_run junk st [] = Some ([], st)"
| "responder_run junk st (b # bs) = do {
     (evs, st) \<leftarrow> responder_step junk st b;
     (evs', st) \<leftarrow> responder_run junk st bs;
     Some (evs @ evs', st) }"

subsection \<open>The frames it sends\<close>

text \<open>What a sequence of calls puts on the bus, from an idle bus to an idle bus.\<close>

definition puts :: "pico_trace \<Rightarrow> buf \<Rightarrow> bool" where
  "puts evs bs \<longleftrightarrow> bus_bytes RESP_DE_PIN False evs = bs \<and> \<not> bus_driven RESP_DE_PIN False evs"

lemma puts_simps [simp]:
  "puts [] bs \<longleftrightarrow> bs = []"
  "puts (put_pixel c @ evs) bs \<longleftrightarrow> puts evs bs"
  "puts (Sleep_ms n # evs) bs \<longleftrightarrow> puts evs bs"
  "puts (put_pixel c) bs \<longleftrightarrow> bs = []"
  by (auto simp: puts_def)

lemma puts_append: "puts evs bs \<Longrightarrow> puts evs' bs' \<Longrightarrow> puts (evs @ evs') (bs @ bs')"
  by (simp add: puts_def)

lemma send_wire_puts:
  assumes "n + n div 254 + 2 \<le> 299" and "n \<le> length raw"
  shows "\<exists>evs. send_wire junk raw n = Some evs \<and> puts evs (SOF # cobs_frame (take n raw))"
proof -
  let ?f = "cobs_frame (take n raw)"
  obtain w0 ws where w: "uninit junk 300 = w0 # ws" "length ws = 299"
    using length_uninit [of junk 300] by (cases "uninit junk 300") auto
  have f: "length ?f \<le> 299" "2 \<le> length ?f"
    using length_cobs_frame [of "take n raw"] length_cobs_frame_pos [of "take n raw"] assms by simp_all
  have "cobs_encode raw n ws 299 = Some (length ?f, ?f @ drop (length ?f) ws)"
    using assms w by (intro cobs_encode_frame) simp_all
  moreover have "?f \<noteq> []" using f by auto
  ultimately show ?thesis
    using w f by (simp add: send_wire_def Let_def puts_def RESP_SOF_def SOF_def)
qed

lemma send_ctrl_puts:
  assumes "ty = frame_type_code t"
  shows "\<exists>evs. send_ctrl junk ty sq = Some evs \<and> puts evs (proto_wire t sq [])"
proof -
  let ?c = "crc_list 0xFFFF [ty, sq]"
  have crc: "crc16_ccitt (Some [ty, sq, 0, 0]) 2 = Some ?c"
    by (simp add: crc16_ccitt_list numeral_2_eq_2)
  have raw: "proto_raw t sq [] = [ty, sq, hi8 ?c, lo8 ?c]"
    using assms by (simp add: proto_raw_def Let_def)
  show ?thesis
    using send_wire_puts [of 4 "[ty, sq, hi8 ?c, lo8 ?c]" junk] crc raw
    by (simp add: send_ctrl_def Let_def proto_wire_def numeral_2_eq_2 numeral_3_eq_3)
qed

lemma send_data_puts:
  assumes "len \<le> 128" and "len \<le> length pl"
  shows "\<exists>evs. send_data jf junk sq pl len = Some evs \<and> puts evs (proto_wire DATA sq (take len pl))"
proof -
  define f0 where "f0 = uninit jf 132"
  have lf: "length f0 = 132" by (simp add: f0_def)
  let ?d = "take len pl"
  let ?b = "1 # sq # ?d"
  let ?c = "crc_list 0xFFFF ?b"
  let ?raw = "?b @ [hi8 ?c, lo8 ?c]"
  let ?m = "2 + len"
  have ld: "length ?d = len" using assms by simp
  have raw: "proto_raw DATA sq ?d = ?raw" by (simp add: proto_raw_def Let_def)
  have w01: "f0[0 := 1, 1 := sq] = 1 # sq # drop 2 f0" using lf by (cases f0; cases "tl f0") auto
  have cpy: "memcpy8 (1 # sq # drop 2 f0) 2 pl 0 len = Some (?b @ drop ?m f0)"
    using assms lf by (simp add: memcpy8_def)
  have crc: "crc16_ccitt (Some (?b @ drop ?m f0)) ?m = Some ?c"
    using assms lf by (subst crc16_ccitt_list) simp_all
  have lb: "length ?b = ?m" using ld by simp
  have hi: "wr8 (?b @ drop ?m f0) ?m (hi8 ?c) = Some ((?b @ [hi8 ?c]) @ drop (Suc ?m) f0)"
    using wr_next [of ?m ?b f0 "hi8 ?c"] lb lf assms by (simp del: append_Cons)
  have lo: "wr8 ((?b @ [hi8 ?c]) @ drop (Suc ?m) f0) (?m + 1) (lo8 ?c) = Some (?raw @ drop (Suc (Suc ?m)) f0)"
    using wr_next [of "Suc ?m" "?b @ [hi8 ?c]" f0 "lo8 ?c"] lb lf assms by (simp del: append_Cons)
  have tk: "take (?m + 2) (?raw @ drop (Suc (Suc ?m)) f0) = ?raw" using ld by simp
  obtain evs where "send_wire junk (?raw @ drop (Suc (Suc ?m)) f0) (?m + 2) = Some evs"
    "puts evs (SOF # cobs_frame ?raw)"
    using send_wire_puts [of "?m + 2" "?raw @ drop (Suc (Suc ?m)) f0" junk] assms lf tk by auto
  then show ?thesis
    using cpy crc hi lo w01 lf
    by (simp add: send_data_def Let_def TYPE_DATA_def proto_wire_def raw f0_def [symmetric])
qed

text \<open>Above 128 payload bytes an access misses the 132-byte array.\<close>

lemma send_data_overrun:
  assumes "128 < len"
  shows "send_data jf junk sq pl len = None"
proof -
  let ?f0 = "(uninit jf 132)[0 := TYPE_DATA, Suc 0 := sq]"
  show ?thesis
  proof (cases "memcpy8 ?f0 2 pl 0 len")
    case None
    then show ?thesis by (simp add: send_data_def Let_def)
  next
    case (Some f)
    then have f: "length f = 132" "len \<le> 130" by (auto simp: memcpy8_def split: if_splits)
    have late: "wr8 g (2 + len + 1) x = None" if "length g = 132" for g x
      using that assms by simp
    have "(wr8 f (2 + len) (hi8 crc) \<bind> (\<lambda>f. wr8 f (2 + len + 1) (lo8 crc))) = None" for crc
      using late f by (cases "wr8 f (2 + len) (hi8 crc)") (auto dest: wr8_eq_SomeD)
    then have "(wr8 f (2 + len) (hi8 crc) \<bind> (\<lambda>f. wr8 f (2 + len + 1) (lo8 crc) \<bind> g)) = None" for crc g
      by (metis bind_assoc Option.bind.simps(1))
    then show ?thesis
      using Some by (cases "crc16_ccitt (Some f) (2 + len)") (simp_all add: send_data_def Let_def)
  qed
qed

subsection \<open>The abstract responder\<close>

text \<open>The answer to a packet, and whether answering it overruns the transmit array.\<close>

definition answer_to :: "buf \<Rightarrow> buf" where
  "answer_to packet =
     (case unframe 300 packet of
        None \<Rightarrow> []
      | Some d \<Rightarrow>
          if \<not> crc_ok d then proto_wire NACK (d ! 1) []
          else if d ! 0 = frame_type_code DATA then
            proto_wire ACK (d ! 1) [] @ proto_wire DATA (d ! 1) (take (length d - 4) (drop 2 d))
          else [])"

definition overruns :: "buf \<Rightarrow> bool" where
  "overruns packet =
     (case unframe 300 packet of
        None \<Rightarrow> False
      | Some d \<Rightarrow> crc_ok d \<and> d ! 0 = frame_type_code DATA \<and> 128 < length d - 4)"

text \<open>Bytes collected since the start byte, or nothing outside a frame.\<close>

fun collect_step :: "buf option \<Rightarrow> u8 \<Rightarrow> buf \<times> buf option" where
  "collect_step None b = ([], if b = SOF then Some [] else None)"
| "collect_step (Some c) b =
     (if 300 \<le> length c then ([], None)
      else if b \<noteq> 0 then ([], Some (c @ [b]))
      else (answer_to (c @ [b]), None))"

definition overruns_at :: "buf option \<Rightarrow> u8 \<Rightarrow> bool" where
  "overruns_at c b = (case c of None \<Rightarrow> False | Some c \<Rightarrow> length c < 300 \<and> b = 0 \<and> overruns (c @ [b]))"

definition responder_inv :: "responder \<Rightarrow> bool" where
  "responder_inv st \<longleftrightarrow> length (r_buf st) = 300 \<and> r_idx st \<le> 300"

definition collected :: "responder \<Rightarrow> buf option" where
  "collected st = (if r_in_frame st then Some (take (r_idx st) (r_buf st)) else None)"

lemma handle_packet_spec:
  assumes "length b = 300" and "n \<le> 300"
  shows "if overruns (take n b) then handle_packet junk b n = None
    else \<exists>evs. handle_packet junk b n = Some evs \<and> puts evs (answer_to (take n b))"
proof -
  let ?p = "take n b"
  let ?raw = "uninit (junk 0) 300"
  have l: "length ?p = n" using assms by simp
  have dec: "case unframe 300 ?p of
      None \<Rightarrow> \<exists>k raw'. cobs_decode b n ?raw 300 = Some (k, raw') \<and> k < 4
    | Some d \<Rightarrow> cobs_decode b n ?raw 300 = Some (length d, d @ drop (length d) ?raw)"
    using unframe_decode [of ?p b 300 ?raw "drop n b"] assms unfolding l by simp
  show ?thesis
  proof (cases "unframe 300 ?p")
    case None
    with dec show ?thesis by (auto simp: handle_packet_def answer_to_def overruns_def)
  next
    case (Some d)
    then have d: "4 \<le> length d" "length d \<le> 300" by (auto simp: unframe_iff cobs_accepts_def)
    let ?r = "d @ drop (length d) ?raw"
    have dec': "cobs_decode b n ?raw 300 = Some (length d, ?r)" using dec Some by simp
    have rds: "rd8 ?r (length d - 2) = Some (d ! (length d - 2))" "rd8 ?r (length d - 1) = Some (d ! (length d - 1))"
      "rd8 ?r 0 = Some (d ! 0)" "rd8 ?r 1 = Some (d ! 1)"
    proof -
      have "length d - 2 < length d" "length d - 1 < length d" "0 < length d" "1 < length d"
        using d by linarith+
      then show "rd8 ?r (length d - 2) = Some (d ! (length d - 2))"
        "rd8 ?r (length d - 1) = Some (d ! (length d - 1))"
        "rd8 ?r 0 = Some (d ! 0)" "rd8 ?r 1 = Some (d ! 1)"
        by (simp_all only: rd8_def nth_append length_append trans_less_add1 if_True)
    qed
    have crc: "crc16_ccitt (Some ?r) (length d - 2) = Some (crc_list 0xFFFF (take (length d - 2) d))"
      using crc_test(2) [OF d(1), of "drop (length d) ?raw"] by (simp add: compute_crc_def)
    have pay: "take (length d - 4) (drop 2 ?r) = take (length d - 4) (drop 2 d)" using d by simp
    have lpay: "length d - 4 \<le> length (drop 2 ?r)" using d by simp
    consider (bad) "\<not> crc_ok d" | (other) "crc_ok d" "d ! 0 \<noteq> 1"
      | (fits) "crc_ok d" "d ! 0 = 1" "length d - 4 \<le> 128" | (over) "crc_ok d" "d ! 0 = 1" "128 < length d - 4"
      by linarith
    then show ?thesis
    proof cases
      case bad
      obtain evs where "send_ctrl (junk 1) TYPE_NACK (d ! 1) = Some evs" "puts evs (proto_wire NACK (d ! 1) [])"
        using send_ctrl_puts [of TYPE_NACK NACK "junk 1" "d ! 1"] by (auto simp: TYPE_NACK_def)
      moreover from this(2) have "puts (evs @ Sleep_ms 30 # put_pixel 0) (proto_wire NACK (d ! 1) [] @ [])"
        by (rule puts_append) simp
      ultimately show ?thesis
        using bad d dec' rds crc Some by (simp add: handle_packet_def answer_to_def overruns_def crc_ok_def)
    next
      case other
      then show ?thesis
        using d dec' rds crc Some
        by (simp add: handle_packet_def answer_to_def overruns_def crc_ok_def TYPE_DATA_def)
    next
      case fits
      obtain evs1 where 1: "send_ctrl (junk 1) TYPE_ACK (d ! 1) = Some evs1" "puts evs1 (proto_wire ACK (d ! 1) [])"
        using send_ctrl_puts [of TYPE_ACK ACK "junk 1" "d ! 1"] by (auto simp: TYPE_ACK_def)
      obtain evs2 where 2: "send_data (junk 2) (junk 3) (d ! 1) (drop 2 ?r) (length d - 4) = Some evs2"
        "puts evs2 (proto_wire DATA (d ! 1) (take (length d - 4) (drop 2 d)))"
        using send_data_puts [OF fits(3) lpay, of "junk 2" "junk 3" "d ! 1"] unfolding pay by blast
      have "puts (evs1 @ evs2 @ Sleep_ms 30 # put_pixel 0)
          (proto_wire ACK (d ! 1) [] @ proto_wire DATA (d ! 1) (take (length d - 4) (drop 2 d)) @ [])"
        by (intro puts_append 1(2) 2(2)) simp
      then show ?thesis
        using fits d dec' rds crc Some 1(1) 2(1)
        by (simp add: handle_packet_def answer_to_def overruns_def crc_ok_def TYPE_DATA_def)
    next
      case over
      obtain evs1 where "send_ctrl (junk 1) TYPE_ACK (d ! 1) = Some evs1"
        using send_ctrl_puts [of TYPE_ACK ACK "junk 1" "d ! 1"] by (auto simp: TYPE_ACK_def)
      then show ?thesis
        using over d dec' rds crc Some send_data_overrun [OF over(3), of "junk 2" "junk 3" "d ! 1" "drop 2 ?r"]
        by (simp add: handle_packet_def answer_to_def overruns_def crc_ok_def TYPE_DATA_def)
    qed
  qed
qed

lemma responder_step_spec:
  assumes "responder_inv st"
  shows "if overruns_at (collected st) b then responder_step junk st b = None
    else \<exists>evs st'. responder_step junk st b = Some (evs, st') \<and> responder_inv st' \<and>
      puts evs (fst (collect_step (collected st) b)) \<and> collected st' = snd (collect_step (collected st) b)"
proof -
  consider (idle) "\<not> r_in_frame st" | (full) "r_in_frame st" "r_idx st = 300"
    | (more) "r_in_frame st" "r_idx st < 300" using assms unfolding responder_inv_def by linarith
  then show ?thesis
  proof cases
    case idle
    then show ?thesis
      using assms by (simp add: responder_step_def collected_def responder_inv_def overruns_at_def
          RESP_SOF_def SOF_def)
  next
    case full
    then show ?thesis
      using assms by (simp add: responder_step_def collected_def responder_inv_def overruns_at_def)
  next
    case more
    let ?i = "r_idx st"
    let ?b = "(r_buf st)[?i := b]"
    have l: "length (r_buf st) = 300" using assms by (simp add: responder_inv_def)
    have tk: "take (Suc ?i) ?b = take ?i (r_buf st) @ [b]" using more l by (intro take_update_last) simp
    have w: "wr8 (r_buf st) ?i b = Some ?b" using more l by simp
    have n: "length (take ?i (r_buf st)) = ?i" using more l by simp
    show ?thesis
    proof (cases "b = 0")
      case False
      then show ?thesis
        using more w tk n l by (simp add: responder_step_def collected_def responder_inv_def overruns_at_def Let_def)
    next
      case True
      have h: "if overruns (take ?i (r_buf st) @ [b]) then handle_packet junk ?b (Suc ?i) = None
        else \<exists>evs. handle_packet junk ?b (Suc ?i) = Some evs \<and> puts evs (answer_to (take ?i (r_buf st) @ [b]))"
        using handle_packet_spec [of ?b "Suc ?i" junk] more l unfolding tk by simp
      have c: "collected st = Some (take ?i (r_buf st))" using more by (simp add: collected_def)
      show ?thesis
      proof (cases "overruns (take ?i (r_buf st) @ [b])")
        case over: True
        then show ?thesis
          using h more w n True by (simp add: c overruns_at_def responder_step_def Let_def)
      next
        case False
        with h obtain evs where "handle_packet junk ?b (Suc ?i) = Some evs"
          "puts evs (answer_to (take ?i (r_buf st) @ [b]))" by auto
        then show ?thesis
          using False more w n True l
          by (simp add: c overruns_at_def responder_step_def Let_def) (simp add: responder_inv_def collected_def)
      qed
    qed
  qed
qed

lemma responder_inv_start: "responder_inv (responder_start junk)" "collected (responder_start junk) = None"
  by (simp_all add: responder_inv_def responder_start_def collected_def)

text \<open>Whether some packet in a sequence of bytes overruns.\<close>

fun overrun_in :: "buf option \<Rightarrow> buf \<Rightarrow> bool" where
  "overrun_in c [] \<longleftrightarrow> False"
| "overrun_in c (b # bs) \<longleftrightarrow> overruns_at c b \<or> overrun_in (snd (collect_step c b)) bs"

lemma responder_run_spec:
  "responder_inv st \<Longrightarrow>
   if overrun_in (collected st) bs then responder_run junk st bs = None
   else \<exists>evs st'. responder_run junk st bs = Some (evs, st') \<and> responder_inv st' \<and>
     puts evs (machine_out collect_step (collected st) bs) \<and>
     collected st' = machine_end collect_step (collected st) bs"
proof (induction bs arbitrary: st)
  case (Cons b bs)
  show ?case
  proof (cases "overruns_at (collected st) b")
    case True
    then show ?thesis using responder_step_spec [OF Cons.prems, of b junk] by simp
  next
    case False
    then obtain evs st1 where 1: "responder_step junk st b = Some (evs, st1)" "responder_inv st1"
      "puts evs (fst (collect_step (collected st) b))" "collected st1 = snd (collect_step (collected st) b)"
      using responder_step_spec [OF Cons.prems, of b junk] by auto
    show ?thesis
    proof (cases "overrun_in (collected st1) bs")
      case True
      then show ?thesis using Cons.IH [OF 1(2)] 1 by simp
    next
      case ok: False
      then obtain evs' st' where "responder_run junk st1 bs = Some (evs', st')" "responder_inv st'"
        "puts evs' (machine_out collect_step (collected st1) bs)"
        "collected st' = machine_end collect_step (collected st1) bs"
        using Cons.IH [OF 1(2)] by auto
      then show ?thesis using False ok 1 by (auto intro!: puts_append)
    qed
  qed
qed simp

lemma responder_run_start:
  "if overrun_in None bs then responder_run junk (responder_start junk') bs = None
   else \<exists>evs st. responder_run junk (responder_start junk') bs = Some (evs, st) \<and> responder_inv st \<and>
     puts evs (machine_out collect_step None bs) \<and> collected st = machine_end collect_step None bs"
  by (rule responder_run_spec [OF responder_inv_start(1), unfolded responder_inv_start(2)])

lemma collected_None: "collected st = None \<longleftrightarrow> \<not> r_in_frame st"
  by (simp add: collected_def)

subsection \<open>What frames do to the abstract responder\<close>

lemma collect_noise:
  "SOF \<notin> set bs \<Longrightarrow> machine_out collect_step None bs = [] \<and> machine_end collect_step None bs = None \<and>
    \<not> overrun_in None bs"
  by (induction bs) (auto simp: overruns_at_def)

lemma collect_nonzero:
  "0 \<notin> set bs \<Longrightarrow> length c + length bs \<le> 300 \<Longrightarrow>
   machine_out collect_step (Some c) bs = [] \<and> machine_end collect_step (Some c) bs = Some (c @ bs) \<and>
   \<not> overrun_in (Some c) bs"
  by (induction bs arbitrary: c) (auto simp: overruns_at_def)

lemma overrun_in_append:
  "overrun_in c (xs @ ys) \<longleftrightarrow> overrun_in c xs \<or> overrun_in (machine_end collect_step c xs) ys"
  by (induction xs arbitrary: c) simp_all

lemma machine_end_append:
  "machine_end step m (xs @ ys) = machine_end step (machine_end step m xs) ys"
  by (induction xs arbitrary: m) simp_all

lemma collect_wire:
  assumes "length (cobs_frame raw) \<le> 300"
  shows "machine_out collect_step None (SOF # cobs_frame raw) = answer_to (cobs_frame raw) \<and>
    machine_end collect_step None (SOF # cobs_frame raw) = None \<and>
    (overrun_in None (SOF # cobs_frame raw) \<longleftrightarrow> overruns (cobs_frame raw))"
proof -
  let ?b = "cobs_body [] raw"
  have f: "cobs_frame raw = ?b @ [0]" by (simp add: cobs_frame_def)
  have l: "length ?b < 300" using assms by (simp add: f)
  have c: "machine_out collect_step (Some []) ?b = []" "machine_end collect_step (Some []) ?b = Some ?b"
    "\<not> overrun_in (Some []) ?b"
    using collect_nonzero [of ?b "[]"] l by (simp_all add: zero_notin_cobs_body)
  show ?thesis
    unfolding f using l c
    by (simp add: machine_out_append machine_end_append overrun_in_append overruns_at_def)
qed

lemma answer_to_data:
  assumes "length pl \<le> 296"
  shows "answer_to (cobs_frame (proto_raw DATA sq pl)) = proto_wire ACK sq [] @ proto_wire DATA sq pl"
    "overruns (cobs_frame (proto_raw DATA sq pl)) \<longleftrightarrow> 128 < length pl"
  using assms by (simp_all add: answer_to_def overruns_def unframe_wire)

subsection \<open>Properties\<close>

text \<open>C4: for every sequence of received bytes, the responder puts on the bus exactly what the
  abstract responder answers: per frame between a start byte and a delimiter ACK and the payload
  in a DATA frame of its own for undamaged DATA, NACK for a damaged frame, silence otherwise, frames longer than
  its buffer dropped; the bus is released after every answer. The only sequences for which it
  leaves its arrays are those with an undamaged DATA frame of more than 128 payload bytes.\<close>

theorem responder_refines_abstract:
  "if overrun_in None bs then responder_run junk (responder_start junk') bs = None
   else \<exists>evs st. responder_run junk (responder_start junk') bs = Some (evs, st) \<and>
     puts evs (machine_out collect_step None bs)"
  using responder_run_start [of bs junk junk'] by (auto split: if_splits)

text \<open>C34: a well-formed DATA frame with 129 to 293 payload bytes, all of which the receive buffer
  holds, makes the responder write past the end of its 132-byte transmit array.\<close>

theorem responder_overflow:
  assumes "128 < length pl" and "length pl \<le> 293"
  shows "responder_run junk (responder_start junk') (proto_wire DATA sq pl) = None"
proof -
  have "length (cobs_frame (proto_raw DATA sq pl)) \<le> 300"
    using length_cobs_frame [of "proto_raw DATA sq pl"] assms by simp
  then have "overrun_in None (proto_wire DATA sq pl)"
    unfolding proto_wire_def using collect_wire answer_to_data(2) [of pl sq] assms by simp
  then show ?thesis
    using responder_run_start [of "proto_wire DATA sq pl" junk junk'] by simp
qed

theorem responder_overflow_witness:
  "responder_run (\<lambda>_ _. 0) (responder_start (\<lambda>_. 0)) (proto_wire DATA 1 (replicate 129 7)) = None"
  using responder_overflow [of "replicate 129 7"] by simp

text \<open>A DATA frame of at most 128 payload bytes, behind any noise without a start byte, is
  answered with its ACK and its payload, and the responder is ready for the next frame.\<close>

theorem responder_echoes:
  assumes "length pl \<le> 128" and "SOF \<notin> set noise"
  shows "\<exists>evs st. responder_run junk (responder_start junk') (noise @ proto_wire DATA sq pl) = Some (evs, st) \<and>
    puts evs (proto_wire ACK sq [] @ proto_wire DATA sq pl) \<and> \<not> r_in_frame st"
proof -
  let ?w = "proto_wire DATA sq pl"
  have "length (cobs_frame (proto_raw DATA sq pl)) \<le> 300"
    using length_cobs_frame [of "proto_raw DATA sq pl"] assms by simp
  then have w: "machine_out collect_step None ?w = proto_wire ACK sq [] @ ?w" "machine_end collect_step None ?w = None"
    "\<not> overrun_in None ?w"
    unfolding proto_wire_def using collect_wire answer_to_data [of pl sq] assms by (simp_all add: proto_wire_def)
  have "\<not> overrun_in None (noise @ ?w)" "machine_out collect_step None (noise @ ?w) = proto_wire ACK sq [] @ ?w"
    "machine_end collect_step None (noise @ ?w) = None"
    using collect_noise [OF assms(2)] w by (simp_all add: overrun_in_append machine_out_append machine_end_append)
  then show ?thesis
    using responder_run_start [of "noise @ ?w" junk junk']
    by (auto simp: collected_None)
qed

theorem responder_echoes_witness:
  "\<exists>evs st. responder_run (\<lambda>_ _. 0) (responder_start (\<lambda>_. 0)) ([1, 2] @ proto_wire DATA 9 [0, 5]) = Some (evs, st) \<and>
    puts evs (proto_wire ACK 9 [] @ proto_wire DATA 9 [0, 5]) \<and> \<not> r_in_frame st"
  by (rule responder_echoes) (simp_all add: SOF_def)

end
