(* ===== verification/Link.thy ===== *)
theory Link
  imports Rs485_Lpc Responder
begin

text \<open>
  The two ends of the RS-485 link together: the protocol driver over the LPC1768 UART port, and
  the RP2040 responder as the machine at the other end of the line. Both run the code as
  modelled in their theories; the lemmas show complete exchanges.
\<close>

text \<open>
  The responder as a byte-driven machine. Where a step has no defined result the machine answers
  nothing; the theorems show that no such step is taken.
\<close>

definition resp_machine :: "(nat \<Rightarrow> nat \<Rightarrow> u8) \<Rightarrow> responder \<Rightarrow> u8 \<Rightarrow> buf \<times> responder" where
  "resp_machine junk st b =
     (case responder_step junk st b of
        None \<Rightarrow> ([], st)
      | Some (evs, st') \<Rightarrow> (bus_bytes RESP_DE_PIN False evs, st'))"

lemma resp_machine_spec:
  "responder_inv st \<Longrightarrow> \<not> overrun_in (collected st) bs \<Longrightarrow>
   machine_out (resp_machine junk) st bs = machine_out collect_step (collected st) bs \<and>
   collected (machine_end (resp_machine junk) st bs) = machine_end collect_step (collected st) bs \<and>
   responder_inv (machine_end (resp_machine junk) st bs) \<and> responder_run junk st bs \<noteq> None"
proof (induction bs arbitrary: st)
  case (Cons b bs)
  obtain evs st1 where 1: "responder_step junk st b = Some (evs, st1)" "responder_inv st1"
    "puts evs (fst (collect_step (collected st) b))" "collected st1 = snd (collect_step (collected st) b)"
    using responder_step_spec [OF Cons.prems(1), of b junk] Cons.prems(2) by auto
  have m: "resp_machine junk st b = (fst (collect_step (collected st) b), st1)"
    using 1 by (simp add: resp_machine_def puts_def)
  have "\<not> overrun_in (collected st1) bs" using Cons.prems(2) 1(4) by simp
  from Cons.IH [OF 1(2) this] show ?case using 1(1,4) m by auto
qed simp

abbreviation responder_peer :: "(nat \<Rightarrow> nat \<Rightarrow> u8) \<Rightarrow> (nat \<Rightarrow> u8) \<Rightarrow> buf \<Rightarrow> buf" where
  "responder_peer junk junk' \<equiv> machine_peer (resp_machine junk) (responder_start junk') []"

text \<open>Nothing is on its way, and the responder waits for a start byte.\<close>

definition link_idle :: "(nat \<Rightarrow> nat \<Rightarrow> u8) \<Rightarrow> (nat \<Rightarrow> u8) \<Rightarrow> trace \<Rightarrow> bool" where
  "link_idle junk junk' tr \<longleftrightarrow>
     port_ready (responder_peer junk junk') tr \<and> line_in (responder_peer junk junk') tr = [] \<and>
     \<not> overrun_in None (p_out (port_of tr)) \<and>
     machine_end collect_step None (p_out (port_of tr)) = None"

lemma link_idle_start: "link_idle junk junk' []"
  by (simp add: link_idle_def port_ready_def line_in_def machine_peer_def port_reset_def)

text \<open>What the responder adds when it is idle and receives one frame.\<close>

lemma responder_reply:
  assumes idle: "\<not> overrun_in None out" "machine_end collect_step None out = None"
    and ok: "\<not> overrun_in None w"
  shows "reply_to (responder_peer junk junk') out w = machine_out collect_step None w"
proof -
  let ?st = "responder_start junk'"
  note c = responder_inv_start
  have "machine_out (resp_machine junk) ?st (out @ w) = machine_out collect_step None (out @ w)"
    "machine_out (resp_machine junk) ?st out = machine_out collect_step None out"
    using resp_machine_spec [OF c(1), of junk' "out @ w" junk] resp_machine_spec [OF c(1), of junk' out junk]
      idle ok by (simp_all add: c(2) overrun_in_append)
  then show ?thesis using idle by (simp add: reply_to_def machine_peer_def machine_out_append)
qed

lemma data_wire_at_responder:
  assumes "length pl \<le> 128"
  shows "machine_out collect_step None (proto_wire DATA sq pl) = proto_wire ACK sq [] @ proto_wire DATA sq pl"
    "machine_end collect_step None (proto_wire DATA sq pl) = None" "\<not> overrun_in None (proto_wire DATA sq pl)"
proof -
  have "length (cobs_frame (proto_raw DATA sq pl)) \<le> 300"
    using length_cobs_frame [of "proto_raw DATA sq pl"] assms by simp
  note c = collect_wire [OF this]
  show "machine_out collect_step None (proto_wire DATA sq pl) = proto_wire ACK sq [] @ proto_wire DATA sq pl"
    "machine_end collect_step None (proto_wire DATA sq pl) = None" "\<not> overrun_in None (proto_wire DATA sq pl)"
    using c answer_to_data [of pl sq] assms by (simp_all add: proto_wire_def)
qed

lemma ack_wire_at_responder:
  "machine_out collect_step None (proto_wire ACK sq []) = []"
  "machine_end collect_step None (proto_wire ACK sq []) = None" "\<not> overrun_in None (proto_wire ACK sq [])"
proof -
  have "length (cobs_frame (proto_raw ACK sq [])) \<le> 300" by simp
  note c = collect_wire [OF this]
  have "unframe 300 (cobs_frame (proto_raw ACK sq [])) = Some (proto_raw ACK sq [])"
    by (rule unframe_wire) simp
  then have "answer_to (cobs_frame (proto_raw ACK sq [])) = []" "\<not> overruns (cobs_frame (proto_raw ACK sq []))"
    by (simp_all add: answer_to_def overruns_def)
  then show "machine_out collect_step None (proto_wire ACK sq []) = []"
    "machine_end collect_step None (proto_wire ACK sq []) = None" "\<not> overrun_in None (proto_wire ACK sq [])"
    using c by (simp_all add: proto_wire_def)
qed

lemma next_packet_ack: "next_packet 16 (proto_wire ACK sq [] @ q) = Some (cobs_frame (proto_raw ACK sq []), q)"
  using next_packet_wire [of "[]" "proto_raw ACK sq []" 16 q] by (simp add: proto_wire_def)

text \<open>One exchange: send a payload, receive its echo.\<close>

lemma link_exchange:
  fixes env0 :: env
  assumes idle: "link_idle junk junk' tr" and pl: "length pl \<le> 128" "length pl \<le> room" "room \<le> length b0"
  defines "dev \<equiv> lpc_rs_dev (uart_env (responder_peer junk junk') env0)"
  shows "\<exists>tr1 tr2. rp_send_frame dev jk (Some pl) (length pl) p tr = Some (True, p\<lparr>rp_seq := rp_seq p + 1\<rparr>, tr1) \<and>
    p_out (port_of tr1) = p_out (port_of tr) @ proto_wire DATA (rp_seq p) pl \<and>
    rp_recv_frame dev jk b0 room tr1 = Some (True, pl @ drop (length pl) b0, length pl, tr2) \<and>
    p_out (port_of tr2) = p_out (port_of tr1) @ proto_wire ACK (rp_seq p) [] \<and> link_idle junk junk' tr2"
proof -
  let ?peer = "responder_peer junk junk'" and ?sq = "rp_seq p"
  let ?w = "proto_wire DATA ?sq pl" and ?a = "proto_wire ACK ?sq []"
  have i: "port_ready ?peer tr" "line_in ?peer tr = []" "\<not> overrun_in None (p_out (port_of tr))"
    "machine_end collect_step None (p_out (port_of tr)) = None"
    using idle by (simp_all add: link_idle_def)
  note d = data_wire_at_responder [OF pl(1), of ?sq] and a = ack_wire_at_responder [of ?sq]
  have rep: "reply_to ?peer (p_out (port_of tr)) ?w = ?a @ ?w"
    using responder_reply [OF i(3,4) d(3)] d(1) by simp
  have saw: "stop_and_wait ?peer 4 ?w ?sq (p_out (port_of tr)) [] = (True, p_out (port_of tr) @ ?w, ?w)"
  proof -
    have four: "(4 :: nat) = Suc 3" by simp
    show ?thesis unfolding four stop_and_wait.simps(2) rep append_Nil next_packet_ack by simp
  qed
  obtain ok tr1 where s: "rp_send_frame dev jk (Some pl) (length pl) p tr =
      Some (ok, if ok then p\<lparr>rp_seq := ?sq + 1\<rparr> else p, tr1)" "port_ready ?peer tr1"
    "(True, p_out (port_of tr) @ ?w, ?w) = (ok, p_out (port_of tr1), line_in ?peer tr1)"
    using lpc.rp_send_frame_spec [OF i(1) pl(1) order_refl, of env0 jk p,
        unfolded lpc_pending take_all [OF order_refl] i(2) saw, folded dev_def] by blast
  then have e: "ok" "p_out (port_of tr1) = p_out (port_of tr) @ ?w" "line_in ?peer tr1 = ?w"
    unfolding prod.inject by (blast, metis, metis)
  with s(1,2) have 1: "rp_send_frame dev jk (Some pl) (length pl) p tr = Some (True, p\<lparr>rp_seq := ?sq + 1\<rparr>, tr1)"
    "port_ready ?peer tr1" "p_out (port_of tr1) = p_out (port_of tr) @ ?w" "line_in ?peer tr1 = ?w"
    by simp_all
  have idle1: "\<not> overrun_in None (p_out (port_of tr1))" "machine_end collect_step None (p_out (port_of tr1)) = None"
    using i d by (simp_all add: 1 overrun_in_append machine_end_append)
  have rep1: "reply_to ?peer (p_out (port_of tr1)) ?a = []"
    using responder_reply [OF idle1 a(3)] a(1) by simp
  have rs: "receive_step room (line_in ?peer tr1) = (Some pl, ?a, [])"
    using receive_data_frame [OF pl(1), of "[]" room ?sq "[]"] pl(2) by (simp add: 1(4))
  obtain tr2 where 2: "rp_recv_frame dev jk b0 room tr1 = Some (True, pl @ drop (length pl) b0, length pl, tr2)"
    "port_ready ?peer tr2" "p_out (port_of tr2) = p_out (port_of tr1) @ ?a" "line_in ?peer tr2 = []"
    using lpc.rp_recv_frame_spec [OF 1(2) pl(3), of env0 jk,
        unfolded lpc_pending rs fst_conv snd_conv option.case rep1 append_Nil, folded dev_def]
    by blast
  have "link_idle junk junk' tr2"
    using 2 idle1 a by (simp add: link_idle_def overrun_in_append machine_end_append)
  with 1 2 show ?thesis by blast
qed

text \<open>A session: every payload is sent and its echo received into a 128-byte buffer.\<close>

fun session :: "'s rs485_dev \<Rightarrow> (nat \<Rightarrow> nat \<Rightarrow> u8) \<Rightarrow> buf list \<Rightarrow> rs485_proto \<Rightarrow> 's \<Rightarrow>
    ((bool \<times> bool \<times> buf) list \<times> rs485_proto \<times> 's) option" where
  "session dev jk [] p s = Some ([], p, s)"
| "session dev jk (pl # pls) p s = do {
     (sent, p, s) \<leftarrow> rp_send_frame dev jk (Some pl) (length pl) p s;
     (got, b, n, s) \<leftarrow> rp_recv_frame dev jk (replicate 128 0) 128 s;
     (rs, p, s) \<leftarrow> session dev jk pls p s;
     Some ((sent, got, take n b) # rs, p, s) }"

text \<open>C1: the protocol driver on the LPC1768 UART and the responder on the RP2040, from power-on
  and over a line that does not damage bytes: every payload of at most 128 bytes, whatever its
  bytes and however many follow each other, is delivered with a single copy of its frame and comes
  back unchanged; all calls return; the sequence number counts the payloads and wraps at 256;
  and afterwards nothing is left on the line and the responder has stayed inside its arrays.\<close>

theorem link_echo_session:
  assumes "\<And>pl. pl \<in> set pls \<Longrightarrow> length pl \<le> 128"
  shows "let dev = lpc_rs_dev (uart_env (responder_peer junk junk') env0) in
    \<exists>tr. session dev jk pls rs485_proto_new [] =
        Some (map (\<lambda>pl. (True, True, pl)) pls, \<lparr>rp_seq = of_nat (length pls)\<rparr>, tr) \<and>
      length (filter (\<lambda>b. b = 0) (p_out (port_of tr))) = 2 * length pls \<and>
      line_in (responder_peer junk junk') tr = [] \<and>
      responder_run junk (responder_start junk') (p_out (port_of tr)) \<noteq> None"
proof -
  let ?dev = "lpc_rs_dev (uart_env (responder_peer junk junk') env0)"
  let ?zeros = "\<lambda>tr. length (filter (\<lambda>b. b = 0) (p_out (port_of tr)))"
  have zw: "length (filter (\<lambda>b. b = 0) (proto_wire ty sq pl)) = 1" for ty sq pl
  proof -
    have "0 \<notin> set (cobs_body [] (proto_raw ty sq pl))" by (simp add: zero_notin_cobs_body)
    then have "filter (\<lambda>b. b = 0) (cobs_body [] (proto_raw ty sq pl)) = []" by (auto simp: filter_empty_conv)
    then show ?thesis by (simp add: proto_wire_def cobs_frame_def SOF_def)
  qed
  have "link_idle junk junk' tr \<Longrightarrow> \<exists>tr'. session ?dev jk pls p tr =
        Some (map (\<lambda>pl. (True, True, pl)) pls, p\<lparr>rp_seq := rp_seq p + of_nat (length pls)\<rparr>, tr') \<and>
      ?zeros tr' = ?zeros tr + 2 * length pls \<and> link_idle junk junk' tr'" for tr p
    using assms
  proof (induction pls arbitrary: tr p)
    case (Cons pl pls)
    have l: "length pl \<le> 128" using Cons.prems(2) by simp
    obtain tr1 tr2 where
      1: "rp_send_frame ?dev jk (Some pl) (length pl) p tr = Some (True, p\<lparr>rp_seq := rp_seq p + 1\<rparr>, tr1)"
         "p_out (port_of tr1) = p_out (port_of tr) @ proto_wire DATA (rp_seq p) pl" and
      2: "rp_recv_frame ?dev jk (replicate 128 0) 128 tr1 =
            Some (True, pl @ drop (length pl) (replicate 128 0), length pl, tr2)"
         "p_out (port_of tr2) = p_out (port_of tr1) @ proto_wire ACK (rp_seq p) []" "link_idle junk junk' tr2"
      using link_exchange [OF Cons.prems(1) l l, of "replicate 128 0" env0 jk p] by auto
    obtain tr' where "session ?dev jk pls (p\<lparr>rp_seq := rp_seq p + 1\<rparr>) tr2 =
        Some (map (\<lambda>pl. (True, True, pl)) pls,
          p\<lparr>rp_seq := rp_seq p + 1 + of_nat (length pls)\<rparr>, tr')"
      "?zeros tr' = ?zeros tr2 + 2 * length pls" "link_idle junk junk' tr'"
      using Cons.IH [OF 2(3), of "p\<lparr>rp_seq := rp_seq p + 1\<rparr>"] Cons.prems(2) by auto
    then show ?case using 1 2 by (simp add: zw add.assoc)
  qed simp
  from this [OF link_idle_start, of rs485_proto_new] obtain tr where
    t: "session ?dev jk pls rs485_proto_new [] =
        Some (map (\<lambda>pl. (True, True, pl)) pls, \<lparr>rp_seq = of_nat (length pls)\<rparr>, tr)"
      "?zeros tr = 2 * length pls" "link_idle junk junk' tr"
    by (auto simp: rs485_proto_new_def port_reset_def)
  have "responder_run junk (responder_start junk') (p_out (port_of tr)) \<noteq> None"
    using resp_machine_spec [OF responder_inv_start(1), of junk' "p_out (port_of tr)" junk] t(3)
    by (simp add: responder_inv_start link_idle_def)
  then show ?thesis using t by (auto simp: Let_def link_idle_def)
qed

theorem link_echo_session_witness:
  "let dev = lpc_rs_dev (uart_env (responder_peer (\<lambda>_ _. 0) (\<lambda>_. 0)) (\<lambda>_ _. 0)) in
    \<exists>tr. session dev (\<lambda>_ _. 0) [[1, 0, 2], []] rs485_proto_new [] =
        Some (map (\<lambda>pl. (True, True, pl)) [[1, 0, 2], []], \<lparr>rp_seq = of_nat (length [[1 :: u8, 0, 2], []])\<rparr>, tr) \<and>
      length (filter (\<lambda>b. b = 0) (p_out (port_of tr))) = 2 * length [[1 :: u8, 0, 2], []] \<and>
      line_in (responder_peer (\<lambda>_ _. 0) (\<lambda>_. 0)) tr = [] \<and>
      responder_run (\<lambda>_ _. 0) (responder_start (\<lambda>_. 0)) (p_out (port_of tr)) \<noteq> None"
  by (rule link_echo_session) auto

end
