(* ===== verification/Clock_Config.thy ===== *)
theory Clock_Config
  imports Mmio
begin

text \<open>
  \<^verbatim>\<open>lib/clock_config.cpp\<close>: the clock set-up that runs before \<^verbatim>\<open>main\<close>, as its sequence of register
  accesses. The three polling loops count to a million; \<^verbatim>\<open>g_clock_tier\<close> is the first result. The
  lemmas give, for every behaviour of the hardware, the writes of each of the four outcomes in
  order and a bound on the number of accesses.
\<close>

definition SYSCON_BASE :: u32 where "SYSCON_BASE = 0x400FC000"

definition FLASHCFG :: u32 where "FLASHCFG = SYSCON_BASE + 0x000"
definition PLL0CON :: u32 where "PLL0CON = SYSCON_BASE + 0x080"
definition PLL0CFG :: u32 where "PLL0CFG = SYSCON_BASE + 0x084"
definition PLL0STAT :: u32 where "PLL0STAT = SYSCON_BASE + 0x088"
definition PLL0FEED :: u32 where "PLL0FEED = SYSCON_BASE + 0x08C"
definition CCLKCFG :: u32 where "CCLKCFG = SYSCON_BASE + 0x104"
definition CLKSRCSEL :: u32 where "CLKSRCSEL = SYSCON_BASE + 0x10C"
definition SCS :: u32 where "SCS = SYSCON_BASE + 0x1A0"

definition SCS_OSCEN :: u32 where "SCS_OSCEN = 0x20"
definition SCS_OSCSTAT :: u32 where "SCS_OSCSTAT = 0x40"
definition PLOCK0 :: u32 where "PLOCK0 = 0x4000000"
definition PLLC0_STAT :: u32 where "PLLC0_STAT = 0x2000000"
definition PLLE0_STAT :: u32 where "PLLE0_STAT = 0x1000000"

definition dsb :: "trace \<Rightarrow> trace" where "dsb tr = tr @ [Dsb]"
definition isb :: "trace \<Rightarrow> trace" where "isb tr = tr @ [Isb]"

definition pll_feed :: "trace \<Rightarrow> trace" where
  "pll_feed tr = dsb (reg_wr PLL0FEED 0x55 (dsb (reg_wr PLL0FEED 0xAA (dsb tr))))"

text \<open>\<^verbatim>\<open>for (i = 0; i < 1000000; i++) if (R & m ...) { ok = 1; break; }\<close> with \<open>n\<close> turns left.\<close>

fun clock_poll :: "env \<Rightarrow> u32 \<Rightarrow> (u32 \<Rightarrow> bool) \<Rightarrow> nat \<Rightarrow> trace \<Rightarrow> bool \<times> trace" where
  "clock_poll env a up 0 tr = (False, tr)"
| "clock_poll env a up (Suc n) tr =
     (let (v, tr) = reg_rd env a tr in if up v then (True, tr) else clock_poll env a up n tr)"

definition system_init :: "env \<Rightarrow> trace \<Rightarrow> u32 \<times> trace" where
  "system_init env tr =
     (let tr = dsb (reg_or env SCS SCS_OSCEN tr);
          (osc_ok, tr) = clock_poll env SCS (\<lambda>v. v AND SCS_OSCSTAT \<noteq> 0) 1000000 tr
      in if \<not> osc_ok then (1, tr)
      else
        let tr = dsb (reg_wr CLKSRCSEL 1 tr);
            tr = pll_feed (reg_wr PLL0CFG (push_bit 0 11 OR push_bit 16 0) tr);
            tr = pll_feed (reg_wr PLL0CON 1 tr);
            (lock_ok, tr) = clock_poll env PLL0STAT (\<lambda>v. v AND PLOCK0 \<noteq> 0) 1000000 tr
        in if \<not> lock_ok then (2, tr)
        else
          let tr = dsb (reg_wr CCLKCFG 2 tr);
              tr = dsb (reg_update env FLASHCFG (\<lambda>v. (v AND NOT 0xF000) OR push_bit 12 4) tr);
              tr = pll_feed (reg_wr PLL0CON 3 tr);
              (connect_ok, tr) = clock_poll env PLL0STAT
                 (\<lambda>v. v AND (PLLC0_STAT OR PLLE0_STAT) = PLLC0_STAT OR PLLE0_STAT) 1000000 tr
          in if \<not> connect_ok then (3, pll_feed (reg_wr PLL0CON 0 tr))
          else (4, isb tr))"

subsection \<open>The four outcomes\<close>

definition feed_writes :: "(u32 \<times> u32) list" where
  "feed_writes = [(PLL0FEED, 0xAA), (PLL0FEED, 0x55)]"

text \<open>
  The writes up to each outcome: enable the oscillator; select it and configure and start the
  PLL; set the divider and the flash timing and connect the PLL; disconnect it again.
\<close>

definition osc_writes :: "u32 \<Rightarrow> (u32 \<times> u32) list" where
  "osc_writes scs = [(SCS, scs OR SCS_OSCEN)]"

definition pll_writes :: "(u32 \<times> u32) list" where
  "pll_writes = [(CLKSRCSEL, 1), (PLL0CFG, 11)] @ feed_writes @ [(PLL0CON, 1)] @ feed_writes"

definition connect_writes :: "u32 \<Rightarrow> (u32 \<times> u32) list" where
  "connect_writes flash =
     [(CCLKCFG, 2), (FLASHCFG, (flash AND NOT 0xF000) OR 0x4000), (PLL0CON, 3)] @ feed_writes"

definition disconnect_writes :: "(u32 \<times> u32) list" where
  "disconnect_writes = [(PLL0CON, 0)] @ feed_writes"

lemma clock_poll_cases:
  obtains (seen) vs where "clock_poll env a up n tr = (True, tr @ map (Rd a) vs)" "length vs \<le> n"
      "vs \<noteq> []" "up (last vs)"
  | (unseen) vs where "clock_poll env a up n tr = (False, tr @ map (Rd a) vs)" "length vs \<le> n"
      "\<forall>v \<in> set vs. \<not> up v"
proof -
  have "\<exists>vs. length vs \<le> n \<and> (clock_poll env a up n tr = (True, tr @ map (Rd a) vs) \<and> vs \<noteq> [] \<and> up (last vs) \<or>
      clock_poll env a up n tr = (False, tr @ map (Rd a) vs) \<and> (\<forall>v \<in> set vs. \<not> up v))"
  proof (induction n arbitrary: tr)
    case (Suc n)
    let ?v = "env tr a"
    show ?case
    proof (cases "up ?v")
      case True
      then show ?thesis by (intro exI [of _ "[?v]"]) simp
    next
      case False
      obtain vs where "length vs \<le> n"
        "clock_poll env a up n (tr @ [Rd a ?v]) = (True, (tr @ [Rd a ?v]) @ map (Rd a) vs) \<and> vs \<noteq> [] \<and> up (last vs) \<or>
         clock_poll env a up n (tr @ [Rd a ?v]) = (False, (tr @ [Rd a ?v]) @ map (Rd a) vs) \<and> (\<forall>v \<in> set vs. \<not> up v)"
        using Suc.IH by blast
      then show ?thesis using False by (intro exI [of _ "?v # vs"]) auto
    qed
  qed simp
  with that show thesis by blast
qed

lemma writes_reads [simp]: "writes (map (Rd a) vs) = []"
  by (induction vs) simp_all

lemma reads_at_reads [simp]: "reads_at b (map (Rd a) vs) = (if b = a then vs else [])"
  by (cases "b = a") (induction vs, simp_all)+

lemma pll_feed_simp [simp]:
  "pll_feed tr = tr @ [Dsb, Wr PLL0FEED 0xAA, Dsb, Wr PLL0FEED 0x55, Dsb]"
  by (simp add: pll_feed_def dsb_def)

definition connected :: "u32 \<Rightarrow> bool" where
  "connected v \<longleftrightarrow> v AND (PLLC0_STAT OR PLLE0_STAT) = PLLC0_STAT OR PLLE0_STAT"

lemma system_init_cases:
  "\<exists>tier evs scs flash. system_init env tr = (tier, tr @ evs) \<and> length evs \<le> 3000040 \<and>
    (tier = 1 \<and> writes evs = osc_writes scs \<and> (\<forall>v \<in> set (tl (reads_at SCS evs)). v AND SCS_OSCSTAT = 0) \<or>
     tier = 2 \<and> writes evs = osc_writes scs @ pll_writes \<and> last (reads_at SCS evs) AND SCS_OSCSTAT \<noteq> 0 \<and>
       (\<forall>v \<in> set (reads_at PLL0STAT evs). v AND PLOCK0 = 0) \<or>
     tier = 3 \<and> writes evs = osc_writes scs @ pll_writes @ connect_writes flash @ disconnect_writes \<and>
       last (reads_at SCS evs) AND SCS_OSCSTAT \<noteq> 0 \<and> (\<exists>v \<in> set (reads_at PLL0STAT evs). v AND PLOCK0 \<noteq> 0) \<or>
     tier = 4 \<and> writes evs = osc_writes scs @ pll_writes @ connect_writes flash \<and>
       last (reads_at SCS evs) AND SCS_OSCSTAT \<noteq> 0 \<and> (\<exists>v \<in> set (reads_at PLL0STAT evs). v AND PLOCK0 \<noteq> 0) \<and>
       connected (last (reads_at PLL0STAT evs)))"
proof -
  let ?osc = "\<lambda>v. v AND SCS_OSCSTAT \<noteq> 0" and ?lock = "\<lambda>v. v AND PLOCK0 \<noteq> 0"
  let ?n = "1000000 :: nat"
  let ?feed = "[Dsb, Wr PLL0FEED 0xAA, Dsb, Wr PLL0FEED 0x55, Dsb]"
  note regs = SYSCON_BASE_def FLASHCFG_def PLL0CON_def PLL0CFG_def PLL0STAT_def PLL0FEED_def CCLKCFG_def
    CLKSRCSEL_def SCS_def
  define e1 where "e1 = [Rd SCS (env tr SCS), Wr SCS (env tr SCS OR SCS_OSCEN), Dsb]"
  define e2 where "e2 = [Wr CLKSRCSEL 1, Dsb, Wr PLL0CFG 11] @ ?feed @ [Wr PLL0CON 1] @ ?feed"
  define e4 where "e4 = [Wr PLL0CON 0] @ ?feed"
  define t1 where "t1 = tr @ e1"
  have step1: "system_init env tr =
    (let (osc_ok, tr) = clock_poll env SCS ?osc ?n t1
     in if \<not> osc_ok then (1, tr)
        else let (lock_ok, tr) = clock_poll env PLL0STAT ?lock ?n (tr @ e2)
          in if \<not> lock_ok then (2, tr)
          else let flash = env (tr @ [Wr CCLKCFG 2, Dsb]) FLASHCFG;
              (connect_ok, tr) = clock_poll env PLL0STAT connected ?n
                (tr @ [Wr CCLKCFG 2, Dsb, Rd FLASHCFG flash, Wr FLASHCFG ((flash AND NOT 0xF000) OR 0x4000), Dsb,
                   Wr PLL0CON 3] @ ?feed)
            in if \<not> connect_ok then (3, tr @ e4) else (4, tr @ [Isb]))"
    by (simp add: system_init_def Let_def reg_or_def dsb_def isb_def e1_def e2_def e4_def t1_def
        connected_def [abs_def] case_prod_beta)
  show ?thesis
  proof (cases rule: clock_poll_cases [of env SCS ?osc ?n t1])
    case (unseen vs)
    then have "system_init env tr = (1, tr @ e1 @ map (Rd SCS) vs)"
      by (simp add: step1 t1_def)
    then show ?thesis
      using unseen(2,3) by (intro exI [of _ 1] exI [of _ "e1 @ map (Rd SCS) vs"] exI [of _ "env tr SCS"])
        (simp add: e1_def osc_writes_def)
  next
    case (seen vs1)
    define t2 where "t2 = t1 @ map (Rd SCS) vs1 @ e2"
    show ?thesis
    proof (cases rule: clock_poll_cases [of env PLL0STAT ?lock ?n t2])
      case (unseen vs)
      let ?evs = "e1 @ map (Rd SCS) vs1 @ e2 @ map (Rd PLL0STAT) vs"
      have "system_init env tr = (2, tr @ ?evs)"
        using seen(1) unseen(1) by (simp add: step1 t1_def t2_def)
      moreover have "length ?evs \<le> 3000040" using seen(2) unseen(2) by (simp add: e1_def e2_def)
      moreover have "writes ?evs = osc_writes (env tr SCS) @ pll_writes"
        by (simp add: e1_def e2_def osc_writes_def pll_writes_def feed_writes_def)
      moreover have "last (reads_at SCS ?evs) AND SCS_OSCSTAT \<noteq> 0" "reads_at PLL0STAT ?evs = vs"
        using seen(3,4) by (simp_all add: e1_def e2_def regs)
      ultimately show ?thesis
        using unseen(3) by (intro exI [of _ 2] exI [of _ ?evs] exI [of _ "env tr SCS"]) simp
    next
      case lock: (seen vs2)
      define t3 where "t3 = t2 @ map (Rd PLL0STAT) vs2"
      define flash where "flash = env (t3 @ [Wr CCLKCFG 2, Dsb]) FLASHCFG"
      define e3 where "e3 = [Wr CCLKCFG 2, Dsb, Rd FLASHCFG flash, Wr FLASHCFG ((flash AND NOT 0xF000) OR 0x4000),
        Dsb, Wr PLL0CON 3] @ ?feed"
      have step3: "system_init env tr = (let (connect_ok, tr) = clock_poll env PLL0STAT connected ?n (t3 @ e3)
            in if \<not> connect_ok then (3, tr @ e4) else (4, tr @ [Isb]))"
        using seen(1) lock(1) by (simp add: step1 t2_def t3_def flash_def e3_def Let_def)
      let ?pre = "e1 @ map (Rd SCS) vs1 @ e2 @ map (Rd PLL0STAT) vs2 @ e3"
      have t3e: "t3 @ e3 = tr @ ?pre" by (simp add: t1_def t2_def t3_def)
      have w: "writes ?pre = osc_writes (env tr SCS) @ pll_writes @ connect_writes flash"
        by (simp add: e1_def e2_def e3_def osc_writes_def pll_writes_def connect_writes_def feed_writes_def)
      have r: "last (reads_at SCS ?pre) AND SCS_OSCSTAT \<noteq> 0" "reads_at PLL0STAT ?pre = vs2"
        using seen(3,4) by (simp_all add: e1_def e2_def e3_def regs)
      have l: "length ?pre \<le> 2000034" using seen(2) lock(2) by (simp add: e1_def e2_def e3_def)
      have ex: "\<exists>v \<in> set (vs2 @ vs). v AND PLOCK0 \<noteq> 0" for vs
        using lock(3,4) by (intro bexI [of _ "last vs2"]) simp_all
      have scs: "reads_at SCS (?pre @ map (Rd PLL0STAT) vs @ e4) = reads_at SCS ?pre"
        "reads_at SCS (?pre @ map (Rd PLL0STAT) vs @ [Isb]) = reads_at SCS ?pre"
        "reads_at PLL0STAT (?pre @ map (Rd PLL0STAT) vs @ e4) = vs2 @ vs"
        "reads_at PLL0STAT (?pre @ map (Rd PLL0STAT) vs @ [Isb]) = vs2 @ vs" for vs
        using r(2) by (simp_all add: e4_def regs)
      show ?thesis
      proof (cases rule: clock_poll_cases [of env PLL0STAT connected ?n "t3 @ e3"])
        case (unseen vs)
        let ?evs = "?pre @ map (Rd PLL0STAT) vs @ e4"
        have "system_init env tr = (3, tr @ ?evs)"
          using unseen(1) unfolding step3 t3e by simp
        moreover have "length ?evs \<le> 3000040" using l unseen(2) by (simp add: e4_def)
        moreover have "writes ?evs = osc_writes (env tr SCS) @ pll_writes @ connect_writes flash @ disconnect_writes"
          using w by (simp add: e4_def disconnect_writes_def feed_writes_def)
        ultimately show ?thesis
          using ex [of vs] r(1) unfolding scs(1) [of vs, symmetric] scs(3) [of vs, symmetric] by blast
      next
        case conn: (seen vs)
        let ?evs = "?pre @ map (Rd PLL0STAT) vs @ [Isb]"
        have "system_init env tr = (4, tr @ ?evs)"
          using conn(1) unfolding step3 t3e by simp
        moreover have "length ?evs \<le> 3000040" using l conn(2) by simp
        moreover have "writes ?evs = osc_writes (env tr SCS) @ pll_writes @ connect_writes flash"
          using w by simp
        moreover have "connected (last (reads_at PLL0STAT ?evs))"
          unfolding scs(4) using conn(3,4) by simp
        ultimately show ?thesis
          using ex [of vs] r(1) unfolding scs(2) [of vs, symmetric] scs(4) [of vs, symmetric] by blast
      qed
    qed
  qed
qed

text \<open>C28: the clock set-up returns for every behaviour of the hardware, after at most three million
  and 40 events, with one of four outcomes, and the outcome determines its writes: the
  PLL is configured and started only after the oscillator was seen running; the divider and the
  flash timing are set, and then the PLL is connected, only after it was seen locked; if the
  connection is never seen, the PLL is disconnected again; and the outcome is 4 only when the last
  status read shows it connected.\<close>

theorem system_init_outcomes:
  "\<exists>tier evs scs flash. system_init env tr = (tier, tr @ evs) \<and> length evs \<le> 3000040 \<and>
    (tier = 1 \<and> writes evs = osc_writes scs \<and> filter (\<lambda>v. v AND SCS_OSCSTAT \<noteq> 0) (tl (reads_at SCS evs)) = [] \<or>
     tier = 2 \<and> writes evs = osc_writes scs @ pll_writes \<and> last (reads_at SCS evs) AND SCS_OSCSTAT \<noteq> 0 \<and>
       filter (\<lambda>v. v AND PLOCK0 \<noteq> 0) (reads_at PLL0STAT evs) = [] \<or>
     tier = 3 \<and> writes evs = osc_writes scs @ pll_writes @ connect_writes flash @ disconnect_writes \<and>
       last (reads_at SCS evs) AND SCS_OSCSTAT \<noteq> 0 \<and> filter (\<lambda>v. v AND PLOCK0 \<noteq> 0) (reads_at PLL0STAT evs) \<noteq> [] \<or>
     tier = 4 \<and> writes evs = osc_writes scs @ pll_writes @ connect_writes flash \<and>
       last (reads_at SCS evs) AND SCS_OSCSTAT \<noteq> 0 \<and> filter (\<lambda>v. v AND PLOCK0 \<noteq> 0) (reads_at PLL0STAT evs) \<noteq> [] \<and>
       connected (last (reads_at PLL0STAT evs)))"
  using system_init_cases [of env tr] by (simp only: filter_empty_conv not_not bex_simps ball_simps)

end
