(* ===== verification/Startup.thy ===== *)
theory Startup
  imports Clock_Config
begin

text \<open>
  \<^verbatim>\<open>lib/startup.cpp\<close>: the reset handler. Memory is a function from word addresses to words, the
  linker's symbols are numbers of words; the two pointer loops are recursions on the destination
  pointer. After them the clock set-up runs, and its outcome and the memory are what \<^verbatim>\<open>main\<close>
  starts with.
\<close>

type_synonym memory = "nat \<Rightarrow> u32"

record link_symbols =
  sidata :: nat
  sdata :: nat
  edata :: nat
  sbss :: nat
  ebss :: nat

function copy_data :: "nat \<Rightarrow> nat \<Rightarrow> nat \<Rightarrow> memory \<Rightarrow> memory" where
  "copy_data src dst stop mem =
     (if dst < stop then copy_data (src + 1) (dst + 1) stop (mem(dst := mem src)) else mem)"
  by pat_completeness auto
termination
  by (relation "measure (\<lambda>(src, dst, stop, mem). stop - dst)") auto

function zero_bss :: "nat \<Rightarrow> nat \<Rightarrow> memory \<Rightarrow> memory" where
  "zero_bss dst stop mem = (if dst < stop then zero_bss (dst + 1) stop (mem(dst := 0)) else mem)"
  by pat_completeness auto
termination
  by (relation "measure (\<lambda>(dst, stop, mem). stop - dst)") auto

declare copy_data.simps [simp del]
declare zero_bss.simps [simp del]

definition reset_handler :: "env \<Rightarrow> link_symbols \<Rightarrow> memory \<Rightarrow> trace \<Rightarrow> memory \<times> u32 \<times> trace" where
  "reset_handler env l mem tr =
     (let mem = copy_data (sidata l) (sdata l) (edata l) mem;
          mem = zero_bss (sbss l) (ebss l) mem;
          (tier, tr) = system_init env tr
      in (mem, tier, tr))"

lemma copy_data_result:
  "src + (stop - dst) \<le> dst \<or> stop \<le> src \<Longrightarrow>
   copy_data src dst stop mem a = (if dst \<le> a \<and> a < stop then mem (src + (a - dst)) else mem a)"
proof (induction "stop - dst" arbitrary: src dst mem)
  case 0
  then show ?case by (subst copy_data.simps) auto
next
  case (Suc n)
  then have lt: "dst < stop" "n = stop - (dst + 1)" by simp_all
  have sep: "src + 1 + (stop - (dst + 1)) \<le> dst + 1 \<or> stop \<le> src + 1" using Suc.prems lt by linarith
  have "copy_data src dst stop mem a = copy_data (src + 1) (dst + 1) stop (mem(dst := mem src)) a"
    using lt by (subst copy_data.simps) simp
  also have "\<dots> = (if dst + 1 \<le> a \<and> a < stop then (mem(dst := mem src)) (src + 1 + (a - (dst + 1)))
      else (mem(dst := mem src)) a)"
    by (rule Suc.hyps(1) [OF lt(2) sep])
  also have "\<dots> = (if dst \<le> a \<and> a < stop then mem (src + (a - dst)) else mem a)"
  proof (cases "dst < a \<and> a < stop")
    case True
    then have "src + 1 + (a - (dst + 1)) = src + (a - dst)" "src + (a - dst) \<noteq> dst"
      using Suc.prems by linarith+
    then show ?thesis using True by simp
  next
    case False
    then show ?thesis using Suc.prems lt by auto
  qed
  finally show ?case .
qed

lemma zero_bss_result: "zero_bss dst stop mem a = (if dst \<le> a \<and> a < stop then 0 else mem a)"
proof (induction "stop - dst" arbitrary: dst mem)
  case 0
  then show ?case by (subst zero_bss.simps) auto
next
  case (Suc n)
  then have lt: "dst < stop" "n = stop - (dst + 1)" by simp_all
  have "zero_bss dst stop mem a = zero_bss (dst + 1) stop (mem(dst := 0)) a"
    using lt by (subst zero_bss.simps) simp
  also have "\<dots> = (if dst + 1 \<le> a \<and> a < stop then 0 else (mem(dst := 0)) a)"
    by (rule Suc.hyps(1) [OF lt(2)])
  also have "\<dots> = (if dst \<le> a \<and> a < stop then 0 else mem a)"
    using lt by (cases a dst rule: linorder_cases) auto
  finally show ?case .
qed

text \<open>The reset handler gives \<^verbatim>\<open>main\<close> its memory: when the image in flash, the data section and the
  zeroed section do not overlap, each data word holds its initial value from the image, each
  word of the zeroed section is zero, and no other word is changed.\<close>

theorem startup_memory:
  assumes "sidata l + (edata l - sdata l) \<le> sdata l \<or> edata l \<le> sidata l"
    and "ebss l \<le> sdata l \<or> edata l \<le> sbss l"
  shows "fst (reset_handler env l mem tr) = (\<lambda>a.
    if sbss l \<le> a \<and> a < ebss l then 0
    else if sdata l \<le> a \<and> a < edata l then mem (sidata l + (a - sdata l))
    else mem a)"
  using assms(1)
  by (auto simp: reset_handler_def Let_def fun_eq_iff zero_bss_result copy_data_result split: prod.split)

theorem startup_memory_witness:
  "fst (reset_handler (\<lambda>_ _. 0) \<lparr>sidata = 100, sdata = 10, edata = 12, sbss = 12, ebss = 14\<rparr>
      (\<lambda>a. of_nat a) []) 11 = 101"
  by (subst startup_memory) simp_all

end
