(* ===== verification/Rs485_Confined.thy ===== *)
theory Rs485_Confined
  imports Rs485_Lpc
begin

text \<open>
  What the protocol driver may do to the state behind its port: nothing but what the port's own \<^verbatim>\<open>send\<close> and
  \<^verbatim>\<open>recv\<close> do. Any relation between states that these two keep is kept by every driver method, on
  every line and on every return, errors included. On the UART port this gives two facts: the driver touches no
  register but those of the UART and of the driver enable, and it never leaves the bus driven.
\<close>

locale rs485_tracked =
  fixes dev :: "'s rs485_dev"
    and rel :: "'s \<Rightarrow> 's \<Rightarrow> bool"
  assumes rel_refl: "rel s s"
    and rel_trans: "rel s s' \<Longrightarrow> rel s' s'' \<Longrightarrow> rel s s''"
    and send_tracked: "rs_send dev d n t s = Some (st, s') \<Longrightarrow> rel s s'"
    and recv_tracked: "rs_recv dev d n t s = Some (st, bs, m, s') \<Longrightarrow> rel s s'"
begin

lemma read_packet_tracked:
  "read_packet dev cap t junk cb i f s = Some (ok, cb', i', s') \<Longrightarrow> rel s s'"
proof -
  have "rel s s'" if "read_packet dv cap t junk cb i f s = Some r" "dv = dev" "r = (ok, cb', i', s')" for dv r
    using that
  proof (induction rule: read_packet.raw_induct [rotated, consumes 1, case_names step])
    case (step rec dv cap t junk cb i f s r)
    show ?case
    proof (cases "i < cap")
      case True
      then obtain st bs n s1 where r: "rs_recv dev (Some [junk]) 1 t s = Some (st, bs, n, s1)"
        using step(2,3) by (auto simp: bind_eq_Some_conv)
      note one = recv_tracked [OF r]
      show ?thesis
      proof (cases "st = St_OK")
        case False
        then show ?thesis using step(2-4) True r one by simp
      next
        case ok: True
        have "rel s1 s'" if "rec dv cap t junk cb1 i1 f1 s1 = Some r" for cb1 i1 f1
          using step(1) [OF that step(3,4)] .
        then show ?thesis
          using step(2-4) True r ok one rel_trans
          by (auto simp: bind_eq_Some_conv rel_refl split: if_splits)
      qed
    next
      case False
      then show ?thesis using step(2,4) by (simp add: rel_refl)
    qed
  qed
  then show "read_packet dev cap t junk cb i f s = Some (ok, cb', i', s') \<Longrightarrow> rel s s'" by blast
qed

lemma send_raw_tracked: "send_raw dev b n s = Some (ok, s') \<Longrightarrow> rel s s'"
  by (auto simp: send_raw_def bind_eq_Some_conv dest: send_tracked)

lemma wait_for_ack_tracked: "wait_for_ack dev junk sq s = Some (ok, s') \<Longrightarrow> rel s s'"
  by (auto simp: wait_for_ack_def bind_eq_Some_conv Let_def split: if_splits dest!: read_packet_tracked)

lemma send_attempts_tracked: "send_attempts dev junk tx n sq k s = Some (ok, s') \<Longrightarrow> rel s s'"
proof (induction k arbitrary: s)
  case (Suc k)
  then show ?case
    by (auto simp: bind_eq_Some_conv split: if_splits dest!: send_raw_tracked wait_for_ack_tracked intro: rel_trans)
qed (simp add: rel_refl)

lemma send_reply_tracked: "send_reply dev ty sq s = Some (ok, s') \<Longrightarrow> rel s s'"
  by (auto simp: send_reply_def bind_eq_Some_conv Let_def dest!: send_raw_tracked)

lemma send_frame_tracked: "rp_send_frame dev junk pl n p s = Some (ok, p', s') \<Longrightarrow> rel s s'"
  by (auto simp: rp_send_frame_def bind_eq_Some_conv Let_def rel_refl simp del: send_attempts.simps
      split: option.splits if_splits dest!: send_attempts_tracked)

lemma recv_frame_tracked: "rp_recv_frame dev junk pl n s = Some (ok, pl', n', s') \<Longrightarrow> rel s s'"
  by (auto simp: rp_recv_frame_def bind_eq_Some_conv Let_def split: if_splits
      dest!: read_packet_tracked send_reply_tracked intro: rel_trans)

end

subsection \<open>The UART port\<close>

text \<open>Accesses to the UART's data and status registers and to the driver-enable pin.\<close>

definition port_access :: "hw_event \<Rightarrow> bool" where
  "port_access ev = (case ev of
     Rd a v \<Rightarrow> a = U2LSR \<or> a = U2RBR
   | Wr a v \<Rightarrow> a = U2THR \<or> (a = FIO0SET \<or> a = FIO0CLR) \<and> v = DE_MASK
   | _ \<Rightarrow> False)"

lemma port_access_simps [simp]:
  "port_access (Rd a v) \<longleftrightarrow> a = U2LSR \<or> a = U2RBR"
  "port_access (Wr a v) \<longleftrightarrow> a = U2THR \<or> (a = FIO0SET \<or> a = FIO0CLR) \<and> v = DE_MASK"
  by (simp_all add: port_access_def)

text \<open>A history grows by such accesses only, and the bus, if it was released, is released again.\<close>

definition grows_by :: "(hw_event \<Rightarrow> bool) \<Rightarrow> trace \<Rightarrow> trace \<Rightarrow> bool" where
  "grows_by P tr tr' \<longleftrightarrow> (\<exists>evs. tr' = tr @ evs \<and> list_all P evs)"

abbreviation port_only :: "trace \<Rightarrow> trace \<Rightarrow> bool" where
  "port_only \<equiv> grows_by port_access"

definition bus_released :: "trace \<Rightarrow> trace \<Rightarrow> bool" where
  "bus_released tr tr' \<longleftrightarrow> port_only tr tr' \<and> (de_level tr' \<longrightarrow> de_level tr)"

lemma grows_by_refl [simp]: "grows_by P tr tr"
  by (simp add: grows_by_def)

lemma grows_by_append [simp]: "grows_by P tr (tr @ evs) \<longleftrightarrow> list_all P evs"
  by (auto simp: grows_by_def)

lemma grows_by_trans: "grows_by P tr tr' \<Longrightarrow> grows_by P tr' tr'' \<Longrightarrow> grows_by P tr tr''"
  by (auto simp: grows_by_def)

lemma grows_by_step: "grows_by P (tr @ evs) tr' \<Longrightarrow> list_all P evs \<Longrightarrow> grows_by P tr tr'"
  by (auto simp: grows_by_def)

lemma grows_by_mono: "grows_by P tr tr' \<Longrightarrow> (\<And>ev. P ev \<Longrightarrow> Q ev) \<Longrightarrow> grows_by Q tr tr'"
  by (auto simp: grows_by_def list_all_iff)

text \<open>The reads among them.\<close>

definition port_read :: "hw_event \<Rightarrow> bool" where
  "port_read ev \<longleftrightarrow> port_access ev \<and> (\<exists>a v. ev = Rd a v)"

lemma port_read_simps [simp]: "port_read (Rd a v) \<longleftrightarrow> a = U2LSR \<or> a = U2RBR" "\<not> port_read (Wr a v)"
  by (simp_all add: port_read_def)

lemma port_reads_only: "grows_by port_read tr tr' \<Longrightarrow> port_only tr tr'"
  by (erule grows_by_mono) (simp add: port_read_def)

lemma port_reads_level: "grows_by port_read tr tr' \<Longrightarrow> de_level tr' = de_level tr"
proof -
  have "list_all port_read evs \<Longrightarrow> writes evs = []" for evs
    by (induction evs rule: writes.induct) (auto simp: port_read_def)
  then show "grows_by port_read tr tr' \<Longrightarrow> de_level tr' = de_level tr"
    by (auto simp: grows_by_def de_level_append_reads)
qed

lemma wait_thre_port: "wait_thre env t e tr = Some (ok, tr') \<Longrightarrow> port_only tr tr'"
proof -
  have "port_only tr tr'" if "wait_thre env t e tr = Some r" "r = (ok, tr')" for r
    using that
  proof (induction rule: wait_thre.raw_induct [rotated, consumes 1, case_names step])
    case (step rec env t e tr r)
    let ?ev = "Rd U2LSR (ucast (ucast (env tr U2LSR) :: u8))"
    have "port_only (tr @ [?ev]) tr'"
      using step(2,3) step(1) [of env t _ "tr @ [?ev]" r] by (auto split: if_splits)
    then show ?case by (rule grows_by_step) simp
  qed
  then show "wait_thre env t e tr = Some (ok, tr') \<Longrightarrow> port_only tr tr'" by blast
qed

lemma wait_temt_port: "wait_temt env tr = Some tr' \<Longrightarrow> port_only tr tr'"
proof (induction rule: wait_temt.raw_induct [rotated, consumes 1, case_names step])
  case (step rec env tr tr')
  let ?ev = "Rd U2LSR (ucast (ucast (env tr U2LSR) :: u8))"
  have "port_only (tr @ [?ev]) tr'"
    using step(2) step(1) [of env "tr @ [?ev]" tr'] by (auto split: if_splits)
  then show ?case by (rule grows_by_step) simp
qed

lemma send_bytes_port_only: "send_bytes env d n t i tr = Some (ok, tr') \<Longrightarrow> port_only tr tr'"
proof (induction "n - i" arbitrary: i tr)
  case 0
  then show ?case by (subst (asm) send_bytes.simps) simp
next
  case (Suc m)
  then have i: "i < n" "m = n - Suc i" by simp_all
  note run = Suc.prems [unfolded send_bytes.simps [of env d n t i tr]]
  obtain room tr1 where w: "wait_thre env t 0 tr = Some (room, tr1)"
    using run i by (auto simp: bind_eq_Some_conv)
  note p = wait_thre_port [OF w]
  show ?case
  proof (cases room)
    case True
    then obtain b where "send_bytes env d n t (Suc i) (tr1 @ [Wr U2THR (ucast (b :: u8))]) = Some (ok, tr')"
      using run i w by (auto simp: bind_eq_Some_conv write_byte_def)
    from Suc.hyps(1) [OF i(2) this] have "port_only tr1 tr'" by (rule grows_by_step) simp
    with p show ?thesis by (rule grows_by_trans)
  next
    case False
    then show ?thesis using run i w p by simp
  qed
qed

lemma recv_loop_port: "recv_loop env n t d c e tr = Some r \<Longrightarrow> grows_by port_read tr (snd (snd r))"
proof (induction rule: recv_loop.raw_induct [rotated, consumes 1, case_names step])
  case (step rec env n t d c e tr r)
  let ?tr = "tr @ [Rd U2LSR (ucast (ucast (env tr U2LSR) :: u8))]"
  let ?tr2 = "?tr @ [Rd U2RBR (ucast (ucast (env ?tr U2RBR) :: u8))]"
  show ?case
  proof (cases "c < n")
    case c: True
    have "grows_by port_read ?tr (snd (snd r))"
    proof (cases "(ucast (env tr U2LSR) :: u8) AND LSR_RDR = 0")
      case True
      have "r = (d, c, ?tr) \<or> (\<exists>e1. rec env n t d c e1 ?tr = Some r)"
        using step(2) c True by (simp add: rx_available_def split: if_splits) blast+
      then show ?thesis using step(1) by (elim disjE exE) simp_all
    next
      case False
      obtain d1 where "rec env n t d1 (c + 1) 0 ?tr2 = Some r"
        using step(2) c False by (auto simp: rx_available_def read_byte_def bind_eq_Some_conv)
      from step(1) [OF this] show ?thesis by (rule grows_by_step) simp
    qed
    then show ?thesis by (rule grows_by_step) simp
  next
    case False
    then show ?thesis using step(2) by auto
  qed
qed

lemma lpc_send_port:
  assumes "lpc_rs_send env d n t tr = Some (st, tr')"
  shows "bus_released tr tr'"
proof (cases "d = None \<or> n = 0")
  case True
  then show ?thesis using assms by (auto simp: lpc_rs_send_def bus_released_def split: option.splits)
next
  case False
  have tx: "port_only tr (set_tx_mode tr)" by (simp add: set_tx_mode_def)
  have rx: "port_only tr1 (set_rx_mode tr1)" for tr1 by (simp add: set_rx_mode_def)
  obtain dat ok tr1 where b: "d = Some dat" "send_bytes env dat n t 0 (set_tx_mode tr) = Some (ok, tr1)"
    using assms False by (auto simp: lpc_rs_send_def bind_eq_Some_conv)
  note to1 = grows_by_trans [OF tx send_bytes_port_only [OF b(2)]]
  show ?thesis
  proof (cases ok)
    case True
    then obtain tr2 where t: "wait_temt env tr1 = Some tr2" "tr' = set_rx_mode tr2"
      using assms False b by (auto simp: lpc_rs_send_def bind_eq_Some_conv)
    have "port_only tr tr'" using grows_by_trans [OF grows_by_trans [OF to1 wait_temt_port [OF t(1)]] rx] t(2) by simp
    then show ?thesis by (simp add: bus_released_def t(2))
  next
    case no: False
    then have "tr' = set_rx_mode tr1" using assms False b by (auto simp: lpc_rs_send_def)
    then show ?thesis using grows_by_trans [OF to1 rx] by (simp add: bus_released_def)
  qed
qed

lemma lpc_recv_port:
  assumes "lpc_rs_recv env d n t tr = Some (st, bs, m, tr')"
  shows "bus_released tr tr'"
proof -
  have rx: "bus_released tr (set_rx_mode tr)" by (simp add: bus_released_def set_rx_mode_def)
  show ?thesis
  proof (cases "d = None \<or> n = 0")
    case True
    then have "tr' = tr \<or> tr' = set_rx_mode tr"
      using assms by (auto simp: lpc_rs_recv_def Let_def split: option.splits)
    then show ?thesis using rx by (auto simp: bus_released_def)
  next
    case False
    then obtain dat d' c where "recv_loop env n t dat 0 0 (set_rx_mode tr) = Some (d', c, tr')"
      using assms by (auto simp: lpc_rs_recv_def Let_def bind_eq_Some_conv)
    from recv_loop_port [OF this] show ?thesis
      using rx by (auto simp: bus_released_def port_reads_level intro: grows_by_trans port_reads_only)
  qed
qed

interpretation lpt: rs485_tracked "lpc_rs_dev env" bus_released for env
proof
  fix tr tr' tr'' :: trace and d n t st bs m
  show "bus_released tr tr" by (simp add: bus_released_def)
  show "bus_released tr tr' \<Longrightarrow> bus_released tr' tr'' \<Longrightarrow> bus_released tr tr''"
    by (auto simp: bus_released_def intro: grows_by_trans)
  show "rs_send (lpc_rs_dev env) d n t tr = Some (st, tr') \<Longrightarrow> bus_released tr tr'" by (simp add: lpc_send_port)
  show "rs_recv (lpc_rs_dev env) d n t tr = Some (st, bs, m, tr') \<Longrightarrow> bus_released tr tr'" by (simp add: lpc_recv_port)
qed

end
