(* ===== verification/App_Main.thy ===== *)
theory App_Main
  imports Link Rs485_Confined Startup
begin

text \<open>
  \<^verbatim>\<open>src/app/main_blinky.cpp\<close>: the console UART, the three FreeRTOS tasks and \<^verbatim>\<open>main\<close>. A task is its
  initialisation and the body of its endless loop, one call per turn. \<open>ticks\<close> is FreeRTOS's
  \<^verbatim>\<open>pdMS_TO_TICKS\<close>, and a \<^verbatim>\<open>vTaskDelay\<close> is an event of the history. The wait of
  \<^verbatim>\<open>uart_putchar\<close> is a partial function.
\<close>

definition APP_PINSEL0 :: u32 where "APP_PINSEL0 = 0x4002C000"
definition PINSEL3 :: u32 where "PINSEL3 = 0x4002C00C"
definition GPIO1_FIODIR :: u32 where "GPIO1_FIODIR = 0x2009C020"
definition GPIO1_FIOSET :: u32 where "GPIO1_FIOSET = 0x2009C038"
definition GPIO1_FIOCLR :: u32 where "GPIO1_FIOCLR = 0x2009C03C"
definition U0_DLL :: u32 where "U0_DLL = 0x4000C000"
definition U0_DLM :: u32 where "U0_DLM = 0x4000C004"
definition U0_FCR :: u32 where "U0_FCR = 0x4000C008"
definition U0_LCR :: u32 where "U0_LCR = 0x4000C00C"
definition U0_LSR :: u32 where "U0_LSR = 0x4000C014"
definition U0_THR :: u32 where "U0_THR = 0x4000C000"
definition U0_RBR :: u32 where "U0_RBR = 0x4000C000"
definition APP_PLL0STAT :: u32 where "APP_PLL0STAT = 0x400FC088"
definition PLL0_CONNECTED :: u32 where "PLL0_CONNECTED = 0x2000000"
definition LED_MASK :: u32 where "LED_MASK = 0x40000"

lemmas app_regs = APP_PINSEL0_def PINSEL3_def GPIO1_FIODIR_def GPIO1_FIOSET_def GPIO1_FIOCLR_def
  U0_DLL_def U0_DLM_def U0_FCR_def U0_LCR_def U0_LSR_def U0_THR_def U0_RBR_def APP_PLL0STAT_def LED_MASK_def

subsection \<open>The console UART\<close>

definition uart0_init :: "env \<Rightarrow> trace \<Rightarrow> trace" where
  "uart0_init env tr =
     (let tr = reg_update env APP_PINSEL0 (\<lambda>v. (v AND NOT 0xF0) OR 0x50) tr;
          tr = reg_wr U0_LCR 0x83 tr;
          tr = reg_wr U0_DLL 13 tr;
          tr = reg_wr U0_DLM 0 tr;
          tr = reg_wr U0_LCR 0x03 tr
      in reg_wr U0_FCR 0x01 tr)"

partial_function (option) uart_putchar :: "(u32 \<Rightarrow> u32) \<Rightarrow> env \<Rightarrow> u8 \<Rightarrow> trace \<Rightarrow> trace option" where
  "uart_putchar ticks env c tr =
     (case reg_rd env U0_LSR tr of (lsr, tr) \<Rightarrow>
        if lsr AND 0x20 = 0 then uart_putchar ticks env c (tr @ [Task_delay (ticks 1)])
        else Some (reg_wr U0_THR (ucast c) tr))"

definition uart_has_data :: "env \<Rightarrow> trace \<Rightarrow> bool \<times> trace" where
  "uart_has_data env tr = (let (lsr, tr) = reg_rd env U0_LSR tr in (lsr AND 1 \<noteq> 0, tr))"

definition uart_raw_getchar :: "env \<Rightarrow> trace \<Rightarrow> u8 \<times> trace" where
  "uart_raw_getchar env tr = (let (v, tr) = reg_rd env U0_RBR tr in (ucast (v AND 0xFF), tr))"

text \<open>\<^verbatim>\<open>for (p = s; *p; ++p) uart_putchar(*p)\<close> and the loop over the received bytes.\<close>

fun uart_puts :: "(u32 \<Rightarrow> u32) \<Rightarrow> env \<Rightarrow> buf \<Rightarrow> trace \<Rightarrow> trace option" where
  "uart_puts ticks env [] tr = Some tr"
| "uart_puts ticks env (c # cs) tr = do { tr \<leftarrow> uart_putchar ticks env c tr; uart_puts ticks env cs tr }"

subsection \<open>The tasks\<close>

definition led_task_init :: "env \<Rightarrow> trace \<Rightarrow> trace" where
  "led_task_init env tr = reg_or env GPIO1_FIODIR LED_MASK (reg_clear env PINSEL3 (push_bit 4 3) tr)"

definition led_task_turn :: "(u32 \<Rightarrow> u32) \<Rightarrow> trace \<Rightarrow> trace" where
  "led_task_turn ticks tr =
     reg_wr GPIO1_FIOCLR LED_MASK (reg_wr GPIO1_FIOSET LED_MASK tr @ [Task_delay (ticks 500)]) @ [Task_delay (ticks 500)]"

text \<open>ASCII of the two clock names and of the boot message.\<close>

definition pll_name :: "bool \<Rightarrow> buf" where
  "pll_name on = (if on then [0x39, 0x36, 0x20, 0x4D, 0x48, 0x7A]
     else [0x34, 0x20, 0x4D, 0x48, 0x7A, 0x20, 0x49, 0x52, 0x43])"

definition boot_msg :: buf where
  "boot_msg = [0x46, 0x57, 0x20, 0x4F, 0x4B, 0x0D, 0x0A]"

definition echo_task_init :: "(u32 \<Rightarrow> u32) \<Rightarrow> env \<Rightarrow> trace \<Rightarrow> trace option" where
  "echo_task_init ticks env tr = do {
     let tr = uart0_init env tr;
     let (v, tr) = reg_rd env APP_PLL0STAT tr;
     let pll = pll_name (v AND PLL0_CONNECTED \<noteq> 0);
     tr \<leftarrow> uart_putchar ticks env 0x5B tr;
     tr \<leftarrow> uart_puts ticks env pll tr;
     tr \<leftarrow> uart_putchar ticks env 0x5D tr;
     tr \<leftarrow> uart_putchar ticks env 0x20 tr;
     uart_puts ticks env boot_msg tr }"

definition echo_task_turn :: "(u32 \<Rightarrow> u32) \<Rightarrow> env \<Rightarrow> trace \<Rightarrow> trace option" where
  "echo_task_turn ticks env tr =
     (case uart_has_data env tr of (avail, tr) \<Rightarrow>
        if avail then
          (case uart_raw_getchar env tr of (c, tr) \<Rightarrow> uart_putchar ticks env c tr)
        else Some (tr @ [Task_delay (ticks 10)]))"

text \<open>\<^verbatim>\<open>False\<close>: the port could not be initialised, and the task only sleeps.\<close>

definition rs485_task_init :: "env \<Rightarrow> trace \<Rightarrow> (bool \<times> rs485_proto \<times> u8 \<times> trace) option" where
  "rs485_task_init env tr = do {
     (st, tr) \<leftarrow> lpc_rs_init env 115200 tr;
     Some (st = St_OK, rs485_proto_new, 0, tr) }"

definition rs485_task_turn ::
  "(u32 \<Rightarrow> u32) \<Rightarrow> env \<Rightarrow> (nat \<Rightarrow> nat \<Rightarrow> u8) \<Rightarrow> (nat \<Rightarrow> u8) \<Rightarrow> rs485_proto \<Rightarrow> u8 \<Rightarrow> trace \<Rightarrow>
   (rs485_proto \<times> u8 \<times> trace) option"
where
  "rs485_task_turn ticks env junk junk_rx p sq tr = do {
     let payload = [0xAA, 0xBB, sq, sq + 1];
     (_, p, tr) \<leftarrow> rp_send_frame (lpc_rs_dev env) junk (Some payload) 4 p tr;
     (ok, rx_buf, rx_len, tr) \<leftarrow> rp_recv_frame (lpc_rs_dev env) junk (uninit junk_rx 128) 128 tr;
     tr \<leftarrow> (if ok then do {
              tr \<leftarrow> uart_puts ticks env (take rx_len rx_buf) tr;
              uart_putchar ticks env 0x0A tr }
            else Some tr);
     Some (p, sq + 1, tr @ [Task_delay (ticks 1000)]) }"

text \<open>The tasks that \<^verbatim>\<open>main\<close> creates: name, stack depth (\<open>None\<close> is the configured minimum), priority.\<close>

datatype task = Led_task | Echo_task | Rs485_task

definition main_tasks :: "(task \<times> nat option \<times> nat) list" where
  "main_tasks = [(Led_task, None, 1), (Echo_task, None, 1), (Rs485_task, Some 256, 1)]"

subsection \<open>The console\<close>

text \<open>The history after \<open>n\<close> polls that found the transmitter busy.\<close>

fun busy_polls :: "(u32 \<Rightarrow> u32) \<Rightarrow> env \<Rightarrow> nat \<Rightarrow> trace \<Rightarrow> trace" where
  "busy_polls ticks env 0 tr = tr"
| "busy_polls ticks env (Suc n) tr =
     busy_polls ticks env n (tr @ [Rd U0_LSR (env tr U0_LSR), Task_delay (ticks 1)])"

definition thr_free :: "(u32 \<Rightarrow> u32) \<Rightarrow> env \<Rightarrow> nat \<Rightarrow> trace \<Rightarrow> bool" where
  "thr_free ticks env n tr \<longleftrightarrow> env (busy_polls ticks env n tr) U0_LSR AND 0x20 \<noteq> 0"

lemma thr_free_Suc:
  "thr_free ticks env (Suc n) tr = thr_free ticks env n (tr @ [Rd U0_LSR (env tr U0_LSR), Task_delay (ticks 1)])"
  by (simp add: thr_free_def)

lemma uart_putchar_step:
  "uart_putchar ticks env c tr =
    (if thr_free ticks env 0 tr then Some (tr @ [Rd U0_LSR (env tr U0_LSR), Wr U0_THR (ucast c)])
     else uart_putchar ticks env c (tr @ [Rd U0_LSR (env tr U0_LSR), Task_delay (ticks 1)]))"
  by (subst uart_putchar.simps) (simp add: thr_free_def)

lemma uart_putchar_free:
  "thr_free ticks env n tr \<Longrightarrow> (\<And>k. k < n \<Longrightarrow> \<not> thr_free ticks env k tr) \<Longrightarrow>
   uart_putchar ticks env c tr =
     (let tr' = busy_polls ticks env n tr in Some (tr' @ [Rd U0_LSR (env tr' U0_LSR), Wr U0_THR (ucast c)]))"
proof (induction n arbitrary: tr)
  case 0
  then show ?case by (subst uart_putchar_step) simp
next
  case (Suc n)
  let ?tr = "tr @ [Rd U0_LSR (env tr U0_LSR), Task_delay (ticks 1)]"
  have later: "\<not> thr_free ticks env k ?tr" if "k < n" for k
    using Suc.prems(2) [of "Suc k"] that by (simp add: thr_free_Suc)
  have now: "\<not> thr_free ticks env 0 tr" using Suc.prems(2) [of 0] by simp
  have "thr_free ticks env n ?tr" using Suc.prems(1) by (simp add: thr_free_Suc)
  from Suc.IH [OF this later] now show ?case
    by (subst uart_putchar_step) simp
qed

lemma uart_putchar_busy:
  assumes "\<And>n. \<not> thr_free ticks env n tr"
  shows "uart_putchar ticks env c tr = None"
proof -
  have "\<exists>n. thr_free ticks env n tr" if "uart_putchar tk e c' tr = Some r" "tk = ticks \<and> e = env" for tk e c' tr r
    using that
  proof (induction rule: uart_putchar.raw_induct [rotated, consumes 1, case_names step])
    case (step rec tk e c' tr r)
    show ?case
    proof (cases "thr_free ticks env 0 tr")
      case False
      let ?tr = "tr @ [Rd U0_LSR (env tr U0_LSR), Task_delay (ticks 1)]"
      have "rec tk e c' ?tr = Some r" using step(2,3) False by (simp add: thr_free_def)
      from step(1) [OF this step(3)] show ?thesis by (metis thr_free_Suc)
    qed blast
  qed
  then show ?thesis using assms by (metis not_None_eq)
qed

text \<open>\<^verbatim>\<open>uart_putchar\<close> returns exactly when some poll finds room in the transmitter, for
  every behaviour of the UART; it then has written the one character, after the first such poll,
  and has given the processor away for one tick after each earlier poll.\<close>

theorem uart_putchar_cooperates:
  "(uart_putchar ticks env c tr \<noteq> None) = (\<exists>n. thr_free ticks env n tr) \<and>
   (\<forall>tr'. uart_putchar ticks env c tr = Some tr' \<longrightarrow>
      (\<exists>n. tr' = busy_polls ticks env n tr @ [Rd U0_LSR (env (busy_polls ticks env n tr) U0_LSR), Wr U0_THR (ucast c)] \<and>
         thr_free ticks env n tr \<and> (\<forall>k < n. \<not> thr_free ticks env k tr)))"
proof (cases "\<exists>n. thr_free ticks env n tr")
  case True
  define n where "n = (LEAST n. thr_free ticks env n tr)"
  have n: "thr_free ticks env n tr" "\<And>k. k < n \<Longrightarrow> \<not> thr_free ticks env k tr"
    using True not_less_Least by (auto simp: n_def intro: LeastI)
  show ?thesis using uart_putchar_free [OF n, of c] n True by (auto simp: Let_def)
next
  case False
  then show ?thesis using uart_putchar_busy [of ticks env tr c] by auto
qed

theorem uart_putchar_cooperates_witness:
  "uart_putchar id (\<lambda>_ _. 0) 0x41 [] = None"
  using uart_putchar_cooperates [of id "\<lambda>_ _. 0" "0x41" "[]"] by (simp add: thr_free_def)

text \<open>A console that always has room.\<close>

definition console_free :: "env \<Rightarrow> bool" where
  "console_free env \<longleftrightarrow> (\<forall>tr. env tr U0_LSR AND 0x20 \<noteq> 0)"

text \<open>Events that only concern the console: status reads and characters.\<close>

fun console_event :: "hw_event \<Rightarrow> bool" where
  "console_event (Rd a v) \<longleftrightarrow> a = U0_LSR"
| "console_event (Wr a v) \<longleftrightarrow> a = U0_THR"
| "console_event _ \<longleftrightarrow> False"

lemma uart_putchar_ready:
  "console_free env \<Longrightarrow>
   uart_putchar ticks env c tr = Some (tr @ [Rd U0_LSR (env tr U0_LSR), Wr U0_THR (ucast c)])"
  by (subst uart_putchar_step) (simp add: thr_free_def console_free_def)

lemma uart_puts_ready:
  "console_free env \<Longrightarrow> \<exists>evs. uart_puts ticks env cs tr = Some (tr @ evs) \<and>
     writes evs = map (\<lambda>c. (U0_THR, ucast c)) cs \<and> list_all console_event evs"
proof (induction cs arbitrary: tr)
  case (Cons c cs)
  let ?e = "[Rd U0_LSR (env tr U0_LSR), Wr U0_THR (ucast c)]"
  obtain evs where "uart_puts ticks env cs (tr @ ?e) = Some ((tr @ ?e) @ evs)"
    "writes evs = map (\<lambda>c. (U0_THR, ucast c)) cs" "list_all console_event evs"
    using Cons by blast
  then show ?case
    using uart_putchar_ready [OF Cons.prems] by (intro exI [of _ "?e @ evs"]) simp
qed simp

lemma port_of_console: "list_all console_event evs \<Longrightarrow> foldl port_step p evs = p"
proof (induction evs arbitrary: p)
  case (Cons ev evs)
  have "port_step p ev = p"
    using Cons.prems by (cases ev) (simp_all add: app_regs rs485_regs)
  with Cons show ?case by simp
qed simp

text \<open>One turn of the RS-485 task, connected to the responder with nothing on its way, returns:
  it sends its four bytes in one frame, receives them back, writes them and a newline to the
  console, touches nothing else, advances both sequence counters by one, sleeps for a second, and leaves the link as it
  found it; so every later turn does the same.\<close>

lemma rs485_task_turn_echo:
  assumes "link_idle junk junk' tr" and "console_free env0"
  shows "\<exists>tr2 evs. rs485_task_turn ticks (uart_env (responder_peer junk junk') env0) jk jr p sq tr =
      Some (p\<lparr>rp_seq := rp_seq p + 1\<rparr>, sq + 1, tr2 @ evs @ [Task_delay (ticks 1000)]) \<and>
    p_out (port_of tr2) = p_out (port_of tr) @ proto_wire DATA (rp_seq p) [0xAA, 0xBB, sq, sq + 1] @
      proto_wire ACK (rp_seq p) [] \<and>
    port_only tr tr2 \<and> list_all console_event evs \<and>
    writes evs = map (\<lambda>c. (U0_THR, ucast c)) [0xAA, 0xBB, sq, sq + 1, 0x0A] \<and>
    link_idle junk junk' (tr2 @ evs @ [Task_delay (ticks 1000)])"
proof -
  let ?env = "uart_env (responder_peer junk junk') env0"
  define pl where "pl = [0xAA, 0xBB, sq, sq + 1]"
  let ?pl = pl
  have lpl: "length pl = 4" by (simp add: pl_def)
  have free: "console_free ?env"
    using assms(2) by (simp add: console_free_def uart_env_def Let_def app_regs rs485_regs)
  obtain tr1 tr2 where
    1: "rp_send_frame (lpc_rs_dev ?env) jk (Some ?pl) (length ?pl) p tr = Some (True, p\<lparr>rp_seq := rp_seq p + 1\<rparr>, tr1)"
       "p_out (port_of tr1) = p_out (port_of tr) @ proto_wire DATA (rp_seq p) ?pl" and
    2: "rp_recv_frame (lpc_rs_dev ?env) jk (uninit jr 128) 128 tr1 =
          Some (True, ?pl @ drop (length ?pl) (uninit jr 128), length ?pl, tr2)"
       "p_out (port_of tr2) = p_out (port_of tr1) @ proto_wire ACK (rp_seq p) []" "link_idle junk junk' tr2"
    using link_exchange [OF assms(1), of ?pl 128 "uninit jr 128" env0 jk p] lpl by auto
  obtain evs where e: "uart_puts ticks ?env ?pl tr2 = Some (tr2 @ evs)"
    "writes evs = map (\<lambda>c. (U0_THR, ucast c)) ?pl" "list_all console_event evs"
    using uart_puts_ready [OF free] by blast
  have only: "port_only tr tr2"
    using lpt.send_frame_tracked [OF 1(1)] lpt.recv_frame_tracked [OF 2(1)]
    by (auto simp: bus_released_def intro: grows_by_trans)
  let ?evs = "evs @ [Rd U0_LSR (?env (tr2 @ evs) U0_LSR), Wr U0_THR (ucast (0x0A :: u8))]"
  have l: "list_all console_event ?evs" using e(3) by simp
  have "rs485_task_turn ticks ?env jk jr p sq tr =
      Some (p\<lparr>rp_seq := rp_seq p + 1\<rparr>, sq + 1, tr2 @ ?evs @ [Task_delay (ticks 1000)])"
    using 1(1) 2(1) e(1) uart_putchar_ready [OF free]
    by (simp add: rs485_task_turn_def Let_def lpl flip: pl_def)
  moreover have "port_of (tr2 @ ?evs @ [Task_delay (ticks 1000)]) = port_of tr2"
    using port_of_console [OF l, of "port_of tr2"] by (simp add: port_of_def)
  then have "link_idle junk junk' (tr2 @ ?evs @ [Task_delay (ticks 1000)])"
    using 2(3) by (simp only: link_idle_def port_ready_def line_in_def) simp
  ultimately show ?thesis
    using 1(2) 2(2) e(2) l only unfolding pl_def [symmetric]
    by (intro exI [of _ tr2] exI [of _ ?evs]) (simp add: pl_def)
qed

lemma rs485_task_turn_echo_witness:
  "\<exists>tr2 evs. rs485_task_turn id (uart_env (responder_peer (\<lambda>_ _. 0) (\<lambda>_. 0)) (\<lambda>_ _. 0x20)) (\<lambda>_ _. 0) (\<lambda>_. 0)
      rs485_proto_new 0 [] = Some (\<lparr>rp_seq = 1\<rparr>, 1, tr2 @ evs @ [Task_delay 1000]) \<and>
    writes evs = map (\<lambda>c. (U0_THR, ucast c)) [0xAA, 0xBB, 0, 1, 0x0A :: u8]"
proof -
  have c: "console_free (\<lambda>_ _. 0x20)" by (simp add: console_free_def)
  show ?thesis
    using rs485_task_turn_echo [OF link_idle_start c, of id "\<lambda>_ _. 0" "\<lambda>_. 0" "\<lambda>_ _. 0" "\<lambda>_. 0" rs485_proto_new 0]
    by (auto simp: rs485_proto_new_def)
qed

text \<open>The boot banner calls every clock but the 96 MHz one the 4 MHz internal oscillator: after a
  clock set-up that ended with outcome 2 or 3, on the 12 MHz crystal selected by
  \<open>CLKSRCSEL = 1\<close>, with the PLL not connected, the console says so.\<close>

theorem banner_after_fallback:
  assumes "system_init env tr = (tier, tr1)" and "tier = 2 \<or> tier = 3" and "console_free env"
    and "\<And>tr. env tr APP_PLL0STAT AND PLL0_CONNECTED = 0"
  shows "(CLKSRCSEL, 1) \<in> set (writes tr1) \<and>
    (\<exists>evs. echo_task_init ticks env tr1 = Some (tr1 @ evs) \<and>
      drop 6 (writes evs) = map (\<lambda>c. (U0_THR, ucast c)) (0x5B # pll_name False @ [0x5D, 0x20] @ boot_msg))"
proof
  obtain evs scs flash where "tr1 = tr @ evs" "writes evs = osc_writes scs @ pll_writes \<or>
      writes evs = osc_writes scs @ pll_writes @ connect_writes flash @ disconnect_writes"
    using system_init_cases [of env tr] assms(1,2) by auto
  then show "(CLKSRCSEL, 1) \<in> set (writes tr1)" by (auto simp: pll_writes_def)
next
  let ?t0 = "uart0_init env tr1"
  let ?t1 = "?t0 @ [Rd APP_PLL0STAT (env ?t0 APP_PLL0STAT)]"
  let ?put = "\<lambda>c tr. [Rd U0_LSR (env tr U0_LSR), Wr U0_THR (ucast (c :: u8))]"
  let ?t2 = "?t1 @ ?put 0x5B ?t1"
  obtain e1 where e1: "uart_puts ticks env (pll_name False) ?t2 = Some (?t2 @ e1)"
    "writes e1 = map (\<lambda>c. (U0_THR, ucast c)) (pll_name False)"
    using uart_puts_ready [OF assms(3)] by blast
  let ?t3 = "?t2 @ e1"
  let ?t4 = "?t3 @ ?put 0x5D ?t3"
  let ?t5 = "?t4 @ ?put 0x20 ?t4"
  obtain e2 where e2: "uart_puts ticks env boot_msg ?t5 = Some (?t5 @ e2)"
    "writes e2 = map (\<lambda>c. (U0_THR, ucast c)) boot_msg"
    using uart_puts_ready [OF assms(3)] by blast
  obtain e0 where e0: "?t0 = tr1 @ e0" "length (writes e0) = 6"
    by (simp add: uart0_init_def Let_def)
  have "echo_task_init ticks env tr1 = Some (?t5 @ e2)"
    using e1(1) e2(1) assms(4) uart_putchar_ready [OF assms(3)] by (simp add: echo_task_init_def Let_def)
  moreover have "?t5 @ e2 = tr1 @ (e0 @ [Rd APP_PLL0STAT (env ?t0 APP_PLL0STAT)] @ ?put 0x5B ?t1 @ e1 @
      ?put 0x5D ?t3 @ ?put 0x20 ?t4 @ e2)"
    by (simp add: e0(1))
  moreover have "drop 6 (writes (e0 @ [Rd APP_PLL0STAT (env ?t0 APP_PLL0STAT)] @ ?put 0x5B ?t1 @ e1 @
      ?put 0x5D ?t3 @ ?put 0x20 ?t4 @ e2)) =
      map (\<lambda>c. (U0_THR, ucast c)) (0x5B # pll_name False @ [0x5D, 0x20] @ boot_msg)"
    using e0(2) e1(2) e2(2) by simp
  ultimately show "\<exists>evs. echo_task_init ticks env tr1 = Some (tr1 @ evs) \<and>
      drop 6 (writes evs) = map (\<lambda>c. (U0_THR, ucast c)) (0x5B # pll_name False @ [0x5D, 0x20] @ boot_msg)"
    by (metis (no_types, lifting))
qed

lemma clock_poll_never:
  "(\<And>tr. \<not> up (env tr a)) \<Longrightarrow> fst (clock_poll env a up n tr) = False"
  by (induction n arbitrary: tr) simp_all

theorem banner_after_fallback_witness:
  "\<exists>tr1 evs. system_init (\<lambda>_ a. if a = SCS then 0x40 else if a = U0_LSR then 0x20 else 0) [] = (2, tr1) \<and>
    echo_task_init id (\<lambda>_ a. if a = SCS then 0x40 else if a = U0_LSR then 0x20 else 0) tr1 = Some (tr1 @ evs) \<and>
    drop 6 (writes evs) = map (\<lambda>c. (U0_THR, ucast c)) (0x5B # pll_name False @ [0x5D, 0x20] @ boot_msg)"
proof -
  let ?env = "\<lambda>(_ :: trace) a. if a = SCS then 0x40 else if a = U0_LSR then 0x20 else (0 :: u32)"
  note regs = SYSCON_BASE_def PLL0STAT_def SCS_def app_regs SCS_OSCSTAT_def
  have c: "console_free ?env" by (simp add: console_free_def regs)
  have p: "?env tr APP_PLL0STAT AND PLL0_CONNECTED = 0" for tr by (simp add: regs)
  have lock: "fst (clock_poll ?env PLL0STAT (\<lambda>v. v AND PLOCK0 \<noteq> 0) n tr) = False" for n tr
    by (rule clock_poll_never) (simp add: regs)
  have osc: "clock_poll ?env SCS (\<lambda>v. v AND SCS_OSCSTAT \<noteq> 0) 1000000 tr = (True, tr @ [Rd SCS 0x40])" for tr
  proof -
    have "(1000000 :: nat) = Suc 999999" by simp
    then show ?thesis by (simp only: clock_poll.simps) (simp add: SCS_OSCSTAT_def)
  qed
  obtain tr1 where "system_init ?env [] = (2, tr1)"
    using lock by (simp add: system_init_def Let_def osc case_prod_beta)
  then show ?thesis
    using banner_after_fallback [OF _ _ c p, of "[]" 2 tr1 id] by blast
qed

end
