(* ===== verification/Spi_Lpc.thy ===== *)
theory Spi_Lpc
  imports Mcp2515 Mmio
begin

text \<open>
  \<^verbatim>\<open>src/hal/lpc1768/spi_lpc1768.cpp\<close>: the SPI0 peripheral with a software chip select. The class
  has no fields; its state is the register history. The wait for the end of a byte is a partial
  function, which the timeout bounds. The port meets the SPI contracts, but unlike the bit-banged
  one it may report a timeout.
\<close>

subsection \<open>Registers\<close>

definition S0SPCR :: u32 where "S0SPCR = 0x40020000"
definition S0SPSR :: u32 where "S0SPSR = 0x40020004"
definition S0SPDR :: u32 where "S0SPDR = 0x40020008"
definition S0SPCCR :: u32 where "S0SPCCR = 0x4002000C"
definition SPCR_CPHA :: u32 where "SPCR_CPHA = 0x08"
definition SPCR_CPOL :: u32 where "SPCR_CPOL = 0x10"
definition SPCR_MSTR :: u32 where "SPCR_MSTR = 0x20"
definition SPSR_SPIF :: u32 where "SPSR_SPIF = 0x80"
definition SPI_PINSEL0 :: u32 where "SPI_PINSEL0 = 0x4002C000"
definition SPI_PINSEL1 :: u32 where "SPI_PINSEL1 = 0x4002C004"
definition SPI_PCONP :: u32 where "SPI_PCONP = 0x400FC0C4"
definition PCSPI :: u32 where "PCSPI = 0x100"
definition SPI_FIO0DIR :: u32 where "SPI_FIO0DIR = 0x2009C000"
definition SPI_FIO0SET :: u32 where "SPI_FIO0SET = 0x2009C018"
definition SPI_FIO0CLR :: u32 where "SPI_FIO0CLR = 0x2009C01C"
definition SPI_CS_MASK :: u32 where "SPI_CS_MASK = 0x10000"
definition PCLK_SPI_HZ :: u32 where "PCLK_SPI_HZ = 24000000"

lemmas spi0_regs = S0SPCR_def S0SPSR_def S0SPDR_def S0SPCCR_def SPI_PINSEL0_def SPI_PINSEL1_def
  SPI_PCONP_def SPI_FIO0DIR_def SPI_FIO0SET_def SPI_FIO0CLR_def SPI_CS_MASK_def

subsection \<open>The code\<close>

definition spi0_divisor :: "u32 \<Rightarrow> u32" where
  "spi0_divisor clock_hz =
     (let divisor = (PCLK_SPI_HZ + clock_hz - 1) div clock_hz;
          divisor = (if divisor < 8 then 8 else divisor)
      in if divisor AND 1 \<noteq> 0 then divisor + 1 else divisor)"

definition spi0_init :: "env \<Rightarrow> u32 \<Rightarrow> u8 \<Rightarrow> trace \<Rightarrow> (spi_status \<times> trace) option" where
  "spi0_init env clock_hz mode tr =
     (if clock_hz = 0 \<or> PCLK_SPI_HZ div 8 < clock_hz \<or> 3 < mode then Some (Spi_HW_ERROR, tr)
      else
        let tr = reg_or env SPI_PCONP PCSPI tr;
            tr = reg_update env SPI_PINSEL0 (\<lambda>v. (v AND NOT (push_bit 30 3)) OR push_bit 30 3) tr;
            tr = reg_update env SPI_PINSEL1
                   (\<lambda>v. (v AND NOT (push_bit 2 3 OR push_bit 4 3)) OR push_bit 2 1 OR push_bit 4 1) tr;
            tr = reg_or env SPI_FIO0DIR SPI_CS_MASK tr;
            tr = reg_wr SPI_FIO0SET SPI_CS_MASK tr;
            tr = reg_wr S0SPCCR (spi0_divisor clock_hz) tr;
            cr = SPCR_MSTR;
            cr = (if mode AND 1 \<noteq> 0 then cr OR SPCR_CPHA else cr);
            cr = (if mode AND 2 \<noteq> 0 then cr OR SPCR_CPOL else cr);
            tr = reg_wr S0SPCR cr tr
        in Some (Spi_OK, tr))"

definition spi0_select :: "u8 \<Rightarrow> trace \<Rightarrow> (spi_status \<times> trace) option" where
  "spi0_select i tr = Some (Spi_OK, reg_wr SPI_FIO0CLR SPI_CS_MASK tr)"

definition spi0_deselect :: "u8 \<Rightarrow> trace \<Rightarrow> (spi_status \<times> trace) option" where
  "spi0_deselect i tr = Some (Spi_OK, reg_wr SPI_FIO0SET SPI_CS_MASK tr)"

partial_function (option) wait_spif :: "env \<Rightarrow> u32 \<Rightarrow> u32 \<Rightarrow> trace \<Rightarrow> (bool \<times> trace) option" where
  "wait_spif env timeout_ms elapsed tr =
     (case reg_rd env S0SPSR tr of (sr, tr) \<Rightarrow>
        if sr AND SPSR_SPIF \<noteq> 0 then Some (True, tr)
        else if 0 < timeout_ms then
          if timeout_ms * 2000 < elapsed + 1 then Some (False, tr)
          else wait_spif env timeout_ms (elapsed + 1) tr
        else wait_spif env timeout_ms elapsed tr)"

function spi0_bytes ::
  "env \<Rightarrow> buf \<Rightarrow> nat \<Rightarrow> u32 \<Rightarrow> nat \<Rightarrow> buf \<Rightarrow> trace \<Rightarrow> (spi_status \<times> buf \<times> trace) option"
where
  "spi0_bytes env tx len timeout_ms i rx tr =
     (if i < len
      then do {
        b \<leftarrow> rd8 tx i;
        (ok, tr) \<leftarrow> wait_spif env timeout_ms 0 (reg_wr S0SPDR (ucast b) tr);
        if \<not> ok then Some (Spi_TIMEOUT, rx, tr)
        else do {
          let (_, tr) = reg_rd env S0SPSR tr;
          let (v, tr) = reg_rd env S0SPDR tr;
          rx \<leftarrow> wr8 rx i (ucast v);
          spi0_bytes env tx len timeout_ms (Suc i) rx tr } }
      else Some (Spi_OK, rx, tr))"
  by pat_completeness auto
termination
  by (relation "measure (\<lambda>(env, tx, len, t, i, rx, tr). len - i)") auto

declare spi0_bytes.simps [simp del]

definition spi0_transfer ::
  "env \<Rightarrow> buf option \<Rightarrow> buf option \<Rightarrow> nat \<Rightarrow> u32 \<Rightarrow> trace \<Rightarrow> (spi_status \<times> buf \<times> trace) option"
where
  "spi0_transfer env tx rx len timeout_ms tr =
     (case (tx, rx) of
        (Some t, Some r) \<Rightarrow> spi0_bytes env t len timeout_ms 0 r tr
      | (_, r) \<Rightarrow> Some (Spi_HW_ERROR, (case r of None \<Rightarrow> [] | Some r \<Rightarrow> r), tr))"

text \<open>The class as an \<^verbatim>\<open>ISpi\<close>.\<close>

definition spi0_dev :: "env \<Rightarrow> trace spi_dev" where
  "spi0_dev env = \<lparr>spi_init = spi0_init env, spi_transfer = spi0_transfer env,
     spi_select = spi0_select, spi_deselect = spi0_deselect\<rparr>"

lemma spi0_dev_simps [simp]:
  "spi_init (spi0_dev env) = spi0_init env"
  "spi_transfer (spi0_dev env) = spi0_transfer env"
  "spi_select (spi0_dev env) = spi0_select"
  "spi_deselect (spi0_dev env) = spi0_deselect"
  by (simp_all add: spi0_dev_def)

subsection \<open>Transfers\<close>

lemma wait_spif_returns:
  assumes "0 < t"
  shows "e \<le> t * 2000 \<Longrightarrow>
    \<exists>ok evs. wait_spif env t e tr = Some (ok, tr @ evs) \<and> writes evs = [] \<and> reads_at S0SPDR evs = []"
proof (induction "unat (t * 2000) - unat e" arbitrary: e tr rule: less_induct)
  case less
  let ?ev = "Rd S0SPSR (env tr S0SPSR)"
  have ne: "S0SPDR \<noteq> S0SPSR" by (simp add: spi0_regs)
  show ?case
  proof (cases "env tr S0SPSR AND SPSR_SPIF \<noteq> 0 \<or> t * 2000 < e + 1")
    case True
    then show ?thesis
      using assms ne by (intro exI [of _ "env tr S0SPSR AND SPSR_SPIF \<noteq> 0"] exI [of _ "[?ev]"])
        (subst wait_spif.simps, auto)
  next
    case False
    then have s: "unat (e + 1) = unat e + 1" "e + 1 \<le> t * 2000" using ticks_step less.prems by blast+
    then have lt: "unat (t * 2000) - unat (e + 1) < unat (t * 2000) - unat e" by (simp add: word_le_nat_alt)
    obtain ok evs where "wait_spif env t (e + 1) (tr @ [?ev]) = Some (ok, (tr @ [?ev]) @ evs)"
      "writes evs = []" "reads_at S0SPDR evs = []"
      using less.hyps [OF lt s(2)] by blast
    moreover have "wait_spif env t e tr = wait_spif env t (e + 1) (tr @ [?ev])"
      using False assms by (subst wait_spif.simps) simp
    ultimately show ?thesis
      using ne by (intro exI [of _ ok] exI [of _ "?ev # evs"]) simp
  qed
qed

lemma spi0_bytes_returns:
  assumes "0 < t" and len: "len \<le> length tx"
  shows "i \<le> len \<Longrightarrow> len \<le> length rx \<Longrightarrow>
    \<exists>st rxs k evs. spi0_bytes env tx len t i rx tr =
        Some (st, take i rx @ rxs @ drop (i + length rxs) rx, tr @ evs) \<and>
      rxs = map ucast (reads_at S0SPDR evs) \<and> writes evs = map (\<lambda>b. (S0SPDR, ucast b)) (take k (drop i tx)) \<and>
      i + k \<le> len \<and> (if st = Spi_OK then k = len - i \<and> length rxs = k else st = Spi_TIMEOUT \<and> k = Suc (length rxs))"
proof (induction "len - i" arbitrary: i rx tr)
  case 0
  then show ?case
    by (intro exI [of _ Spi_OK] exI [of _ "[]"] exI [of _ 0]) (subst spi0_bytes.simps, simp)
next
  case (Suc n)
  then have i: "i < len" "n = len - Suc i" by simp_all
  let ?w = "Wr S0SPDR (ucast (tx ! i))"
  have ne: "S0SPDR \<noteq> S0SPSR" by (simp add: spi0_regs)
  obtain ok evs where w: "wait_spif env t 0 (tr @ [?w]) = Some (ok, (tr @ [?w]) @ evs)" "writes evs = []"
    "reads_at S0SPDR evs = []"
    using wait_spif_returns [OF assms(1), of 0 env "tr @ [?w]"] by auto
  have one: "take 1 (drop i tx) = [tx ! i]" using i len take_Suc_drop [of i tx 0] by simp
  show ?case
  proof (cases ok)
    case False
    then show ?thesis
      using w i len one by (intro exI [of _ Spi_TIMEOUT] exI [of _ "[]"] exI [of _ 1] exI [of _ "?w # evs"])
        (subst spi0_bytes.simps, simp)
  next
    case True
    let ?t1 = "(tr @ [?w]) @ evs"
    let ?t2 = "?t1 @ [Rd S0SPSR (env ?t1 S0SPSR)]"
    let ?v = "env ?t2 S0SPDR"
    let ?t3 = "?t2 @ [Rd S0SPDR ?v]"
    let ?rx = "rx[i := ucast ?v]"
    have "spi0_bytes env tx len t i rx tr = spi0_bytes env tx len t (Suc i) ?rx ?t3"
      using w True i len Suc.prems by (subst spi0_bytes.simps) simp
    moreover obtain st rxs k evs' where r: "spi0_bytes env tx len t (Suc i) ?rx ?t3 =
        Some (st, take (Suc i) ?rx @ rxs @ drop (Suc i + length rxs) ?rx, ?t3 @ evs')"
      "rxs = map ucast (reads_at S0SPDR evs')"
      "writes evs' = map (\<lambda>b. (S0SPDR, ucast b)) (take k (drop (Suc i) tx))" "Suc i + k \<le> len"
      "if st = Spi_OK then k = len - Suc i \<and> length rxs = k else st = Spi_TIMEOUT \<and> k = Suc (length rxs)"
      using Suc.hyps(1) [OF i(2), of ?rx ?t3] Suc.prems i by auto
    moreover have "take (Suc i) ?rx = take i rx @ [ucast ?v]" using i Suc.prems by (intro take_update_last) simp
    moreover have "take (Suc k) (drop i tx) = tx ! i # take k (drop (Suc i) tx)"
      using i len by (intro take_Suc_drop) simp
    ultimately show ?thesis
      using w i ne by (intro exI [of _ st] exI [of _ "ucast ?v # rxs"] exI [of _ "Suc k"]
          exI [of _ "?w # evs @ [Rd S0SPSR (env ?t1 S0SPSR), Rd S0SPDR ?v] @ evs'"]) (auto split: if_splits)
  qed
qed

subsection \<open>The port meets the contracts\<close>

definition spi0_selected :: "trace \<Rightarrow> bool" where
  "spi0_selected tr \<longleftrightarrow> \<not> pin_level SPI_FIO0SET SPI_FIO0CLR SPI_CS_MASK True tr"

interpretation spi0: spi_selecting "spi0_dev env" "\<lambda>_. True" spi0_selected for env
proof
  fix s s' :: trace and i n and tx rx :: buf and t :: u32 and st
  show "\<exists>st s'. spi_select (spi0_dev env) i s = Some (st, s') \<and> True"
    "\<exists>st s'. spi_deselect (spi0_dev env) i s = Some (st, s') \<and> True"
    by (simp_all add: spi0_select_def spi0_deselect_def)
  show "\<not> spi0_selected s'" if "spi_deselect (spi0_dev env) i s = Some (st, s')"
    using that by (auto simp: spi0_deselect_def spi0_selected_def spi0_regs)
  show "spi0_selected s'" if "spi_select (spi0_dev env) i s = Some (Spi_OK, s')"
    using that by (auto simp: spi0_select_def spi0_selected_def spi0_regs)
  show "spi0_selected s' = spi0_selected s" if "spi_select (spi0_dev env) i s = Some (st, s')" "st \<noteq> Spi_OK"
    using that by (simp add: spi0_select_def)
  show "\<exists>st rx' s'. spi_transfer (spi0_dev env) (Some tx) (Some rx) n t s = Some (st, rx', s') \<and>
      length rx' = length rx \<and> True" if "n \<le> length tx" "n \<le> length rx" "t = 100"
  proof -
    have "0 < t" using that(3) by simp
    from spi0_bytes_returns [OF this that(1), of 0 rx env s] that(2) obtain st rxs k evs where
      r: "spi0_bytes env tx n t 0 rx s = Some (st, take 0 rx @ rxs @ drop (0 + length rxs) rx, s @ evs)"
        "0 + k \<le> n"
      and k: "if st = Spi_OK then k = n - 0 \<and> length rxs = k else st = Spi_TIMEOUT \<and> k = Suc (length rxs)"
      by blast
    have "length rxs \<le> n" using r(2) k by (simp split: if_splits)
    then show ?thesis using that(2) r(1) by (simp add: spi0_transfer_def)
  qed
qed

subsection \<open>Properties\<close>

text \<open>
  C40: \<^verbatim>\<open>SpiLpc1768::transfer\<close> with a timeout always returns, whatever the peripheral does. It has
  then written a prefix of \<^verbatim>\<open>tx\<close> to the data register, in order and nothing else, and stored the
  bytes read from it at the front of \<^verbatim>\<open>rx\<close>; with \<open>OK\<close> all of them, with \<open>TIMEOUT\<close> one less than it sent,
  the rest of \<^verbatim>\<open>rx\<close> being untouched.
\<close>

theorem spi0_transfer_returns:
  assumes "0 < t" "len \<le> length tx" "len \<le> length rx"
  shows "\<exists>st rxs k evs. spi_transfer (spi0_dev env) (Some tx) (Some rx) len t tr =
      Some (st, rxs @ drop (length rxs) rx, tr @ evs) \<and>
    rxs = map ucast (reads_at S0SPDR evs) \<and>
    writes evs = map (\<lambda>b. (S0SPDR, ucast b)) (take k tx) \<and> k \<le> len \<and>
    (if st = Spi_OK then k = len \<and> length rxs = k else st = Spi_TIMEOUT \<and> k = Suc (length rxs))"
  using spi0_bytes_returns [OF assms(1,2) le0 assms(3), of env tr]
  unfolding spi0_dev_simps spi0_transfer_def take_0 append_Nil add_0 drop_0 diff_zero prod.case option.case .

lemma spi0_divisor_bounds:
  assumes "clock_hz \<noteq> 0" "clock_hz \<le> 3000000"
  shows "even (unat (spi0_divisor clock_hz)) \<and> 8 \<le> unat (spi0_divisor clock_hz) \<and>
    24000000 \<le> unat (spi0_divisor clock_hz) * unat clock_hz \<and>
    (unat (spi0_divisor clock_hz) = 8 \<or> (unat (spi0_divisor clock_hz) - 2) * unat clock_hz < 24000000)"
proof -
  let ?c = "unat clock_hz"
  define d where "d = (PCLK_SPI_HZ + clock_hz - 1) div clock_hz"
  define q where "q = (24000000 + ?c - 1) div ?c"
  have c: "0 < ?c" "?c \<le> 3000000"
    using assms by (simp_all add: unat_gt_0 word_le_nat_alt)
  have eq: "PCLK_SPI_HZ + clock_hz - 1 = 23999999 + clock_hz"
    by (simp add: PCLK_SPI_HZ_def)
  have "unat (23999999 + clock_hz) = 23999999 + ?c"
    using c by (simp add: unat_word_ariths)
  then have d: "unat d = q"
    by (simp add: d_def q_def eq unat_div)
  have "q * ?c + (24000000 + ?c - 1) mod ?c = 24000000 + ?c - 1"
    unfolding q_def by (rule div_mult_mod_eq)
  moreover have "(24000000 + ?c - 1) mod ?c < ?c" using c(1) by simp
  ultimately have q: "24000000 \<le> q * ?c" "q * ?c \<le> 23999999 + ?c" by linarith+
  have q8: "8 \<le> q"
  proof (rule ccontr)
    assume "\<not> 8 \<le> q"
    then have "q * ?c \<le> 7 * 3000000" using c(2) by (intro mult_le_mono) simp_all
    then show False using q(1) by simp
  qed
  have ql: "q \<le> 24000000"
  proof (rule ccontr)
    assume "\<not> q \<le> 24000000"
    then have "24000001 * ?c \<le> q * ?c" by (intro mult_le_mono1) simp
    then show False using q(2) c(1) by linarith
  qed
  have "bit (unat d) 0 = bit d 0" unfolding bit_unsigned_iff by simp
  then have odd: "(d AND 1 \<noteq> 0) = odd q" by (simp add: and_one_eq odd_iff_mod_2_eq_one d bit_0)
  have "\<not> d < 8" using q8 d by (simp add: word_less_nat_alt)
  then have r: "spi0_divisor clock_hz = (if odd q then d + 1 else d)"
    using odd by (simp add: spi0_divisor_def Let_def flip: d_def)
  have "unat (d + 1) = q + 1" using d ql by (simp add: unat_word_ariths)
  then have u: "unat (spi0_divisor clock_hz) = (if odd q then q + 1 else q)" using r d by simp
  have e1: "(q - 1) * ?c = q * ?c - ?c" "(q - 2) * ?c = q * ?c - 2 * ?c" by (simp_all add: diff_mult_distrib)
  show ?thesis
    unfolding u using q q8 c e1 by (auto simp: algebra_simps)
qed

text \<open>
  \<^verbatim>\<open>SpiLpc1768::init\<close> refuses a zero clock, a clock above 3 MHz and a mode above 3 without touching a
  register. Otherwise it always succeeds and leaves the slave deselected, and the divisor it programs is
  even and at least 8, as the manual asks, makes the bus no faster than requested, and is the
  smallest such divisor.
\<close>

theorem spi0_init_clock:
  "if clock_hz = 0 \<or> 3000000 < clock_hz \<or> 3 < mode
   then spi0_init env clock_hz mode tr = Some (Spi_HW_ERROR, tr)
   else \<exists>evs d. spi0_init env clock_hz mode tr = Some (Spi_OK, tr @ evs) \<and>
     (S0SPCCR, d) \<in> set (writes evs) \<and> \<not> spi0_selected (tr @ evs) \<and>
     even (unat d) \<and> 8 \<le> unat d \<and> 24000000 \<le> unat d * unat clock_hz \<and>
     (unat d = 8 \<or> (unat d - 2) * unat clock_hz < 24000000)"
proof (cases "clock_hz = 0 \<or> 3000000 < clock_hz \<or> 3 < mode")
  case True
  then show ?thesis by (auto simp: spi0_init_def PCLK_SPI_HZ_def)
next
  case False
  then have "clock_hz \<noteq> 0" "clock_hz \<le> 3000000" by auto
  note b = spi0_divisor_bounds [OF this]
  from False have "\<exists>evs. spi0_init env clock_hz mode tr = Some (Spi_OK, tr @ evs) \<and>
      (S0SPCCR, spi0_divisor clock_hz) \<in> set (writes evs) \<and> \<not> spi0_selected (tr @ evs)"
    by (simp add: spi0_init_def PCLK_SPI_HZ_def Let_def reg_or_def spi0_selected_def spi0_regs)
  then show ?thesis using b by (simp only: if_not_P [OF False]) blast
qed

text \<open>
  Every method of the CAN driver over the SPI0 peripheral returns, whatever the hardware
  does, a peripheral that never finishes a byte included, and leaves the chip deselected; a frame it
  reports as received is well formed, and a failed receive leaves the caller's frame.
\<close>

theorem can_driver_total_on_spi0:
  assumes "\<not> spi0_selected tr" and "length (f_data f) = 8"
    and "\<And>us tr. spi0_selected (delay us tr) = spi0_selected tr"
  shows "(\<exists>ok tr'. mcp_init (spi0_dev env) i delay c1 c2 c3 m osc tr = Some (ok, tr') \<and> \<not> spi0_selected tr') \<and>
    (\<exists>ok tr'. mcp_send (spi0_dev env) i f tr = Some (ok, tr') \<and> \<not> spi0_selected tr') \<and>
    (\<exists>ok tr'. mcp_has_message (spi0_dev env) i tr = Some (ok, tr') \<and> \<not> spi0_selected tr') \<and>
    (\<exists>ok f' tr'. mcp_receive (spi0_dev env) i f tr = Some (ok, f', tr') \<and> \<not> spi0_selected tr' \<and>
      (if ok then frame_ok f' else f' = f))"
proof (intro conjI)
  have idle: "True \<and> \<not> spi0_selected tr" using assms(1) by simp
  show "\<exists>ok tr'. mcp_init (spi0_dev env) i delay c1 c2 c3 m osc tr = Some (ok, tr') \<and> \<not> spi0_selected tr'"
    by (rule spi0.idle.init_returns [OF idle, of delay env i c1 c2 c3 m osc]) (use assms(3) in auto)
  show "\<exists>ok tr'. mcp_send (spi0_dev env) i f tr = Some (ok, tr') \<and> \<not> spi0_selected tr'"
    by (rule spi0.idle.send_returns [OF idle assms(2), of env i]) auto
  show "\<exists>ok tr'. mcp_has_message (spi0_dev env) i tr = Some (ok, tr') \<and> \<not> spi0_selected tr'"
    by (rule spi0.idle.has_message_returns [OF idle, of env i]) auto
  show "\<exists>ok f' tr'. mcp_receive (spi0_dev env) i f tr = Some (ok, f', tr') \<and> \<not> spi0_selected tr' \<and>
      (if ok then frame_ok f' else f' = f)"
    by (rule spi0.idle.receive_returns [OF idle assms(2), of env i]) auto
qed

theorem can_driver_total_on_spi0_witness:
  "\<exists>ok tr'. mcp_init (spi0_dev (\<lambda>_ _. 0)) 0 (\<lambda>us tr. tr @ [Spin us]) 3 0xB6 4 NORMAL 12000000
      [] = Some (ok, tr') \<and> \<not> spi0_selected tr'"
  using can_driver_total_on_spi0 [of "[]" frame_new "\<lambda>us tr. tr @ [Spin us]"]
  by (simp add: spi0_selected_def frame_new_def)

theorem spi0_transfer_returns_witness:
  "\<exists>st rx' tr'. spi_transfer (spi0_dev (\<lambda>_ _. 0)) (Some [1, 2]) (Some [0, 0]) 2 100 [] = Some (st, rx', tr')"
  using spi0_transfer_returns [of 100 2 "[1, 2]" "[0, 0]" "\<lambda>_ _. 0" "[]"] by (simp, blast)

end
