(* ===== verification/Bitbang_I2c_Lpc.thy ===== *)
theory Bitbang_I2c_Lpc
  imports Hal Mmio
begin

text \<open>
  \<^verbatim>\<open>src/hal/lpc1768/bitbang_i2c_lpc1768.cpp\<close>: I2C on two pins of GPIO port 2. A line is driven low by
  making its pin an output, and released by making it an input. The static methods act on the
  register history alone; the object adds the delay count.

  The specification is a transaction on the edges of the two lines, against a slave that is
  any function from the edges seen so far to the level it gives the data line. The lemmas show that the
  code produces those edges, returns that transaction's status and stores that transaction's bytes.
  What the code does with a clock line that never rises is a theorem too.
\<close>

subsection \<open>Registers and pins\<close>

definition I2C_FIO2DIR :: u32 where "I2C_FIO2DIR = 0x2009C040"
definition I2C_FIO2PIN :: u32 where "I2C_FIO2PIN = 0x2009C054"
definition I2C_FIO2CLR :: u32 where "I2C_FIO2CLR = 0x2009C05C"
definition I2C_PINSEL4 :: u32 where "I2C_PINSEL4 = 0x4002C010"
definition SCL_MASK :: u32 where "SCL_MASK = push_bit 4 1"
definition SDA_MASK :: u32 where "SDA_MASK = push_bit 5 1"
definition STRETCH_TIMEOUT_LOOPS :: u32 where "STRETCH_TIMEOUT_LOOPS = 100000"

lemmas i2c_regs = I2C_FIO2DIR_def I2C_FIO2PIN_def I2C_FIO2CLR_def I2C_PINSEL4_def

record bb_i2c =
  bi_delay :: u32
  bi_hw :: trace

definition bb_i2c_new :: "trace \<Rightarrow> bb_i2c" where
  "bb_i2c_new hw = \<lparr>bi_delay = 0, bi_hw = hw\<rparr>"

subsection \<open>The code\<close>

definition sda_low :: "env \<Rightarrow> trace \<Rightarrow> trace" where
  "sda_low env tr = reg_wr I2C_FIO2CLR SDA_MASK (reg_or env I2C_FIO2DIR SDA_MASK tr)"

definition sda_release :: "env \<Rightarrow> trace \<Rightarrow> trace" where
  "sda_release env tr = reg_clear env I2C_FIO2DIR SDA_MASK tr"

definition scl_low :: "env \<Rightarrow> trace \<Rightarrow> trace" where
  "scl_low env tr = reg_wr I2C_FIO2CLR SCL_MASK (reg_or env I2C_FIO2DIR SCL_MASK tr)"

definition sda_read :: "env \<Rightarrow> trace \<Rightarrow> u8 \<times> trace" where
  "sda_read env tr = (let (v, tr) = reg_rd env I2C_FIO2PIN tr in (if v AND SDA_MASK \<noteq> 0 then 1 else 0, tr))"

text \<open>\<^verbatim>\<open>while (!(FIO2PIN & SCL_MASK)) if (--timeout == 0) return false;\<close>\<close>

function scl_wait :: "env \<Rightarrow> u32 \<Rightarrow> trace \<Rightarrow> bool \<times> trace" where
  "scl_wait env timeout tr =
     (let (v, tr) = reg_rd env I2C_FIO2PIN tr
      in if v AND SCL_MASK \<noteq> 0 then (True, tr)
         else if timeout - 1 = 0 then (False, tr)
         else scl_wait env (timeout - 1) tr)"
  by pat_completeness auto
termination
proof (relation "measure (\<lambda>(env, timeout, tr). unat (timeout - 1))", goal_cases)
  case (2 env timeout tr p v tr')
  then have "timeout - 1 \<noteq> 0" by simp
  then have "unat (timeout - 1 - 1) < unat (timeout - 1)" by (rule measure_unat)
  then show ?case by simp
qed simp

declare scl_wait.simps [simp del]

definition scl_release_and_wait :: "env \<Rightarrow> trace \<Rightarrow> bool \<times> trace" where
  "scl_release_and_wait env tr =
     scl_wait env STRETCH_TIMEOUT_LOOPS (reg_clear env I2C_FIO2DIR SCL_MASK tr)"

definition i2c_delay :: "u32 \<Rightarrow> trace \<Rightarrow> trace" where
  "i2c_delay n tr = tr @ [Spin n]"

definition i2c_start :: "env \<Rightarrow> u32 \<Rightarrow> trace \<Rightarrow> trace" where
  "i2c_start env n tr =
     (let tr = sda_release env tr;
          (_, tr) = scl_release_and_wait env tr;
          tr = i2c_delay n tr;
          tr = sda_low env tr;
          tr = i2c_delay n tr
      in scl_low env tr)"

definition i2c_stop :: "env \<Rightarrow> u32 \<Rightarrow> trace \<Rightarrow> trace" where
  "i2c_stop env n tr =
     (let tr = sda_low env tr;
          tr = i2c_delay n tr;
          (_, tr) = scl_release_and_wait env tr;
          tr = i2c_delay n tr;
          tr = sda_release env tr
      in i2c_delay n tr)"

text \<open>\<^verbatim>\<open>for (bit = 7; bit >= 0; bit--)\<close>: \<open>k\<close> turns are left, the next one sends bit \<open>k - 1\<close>.\<close>

fun i2c_write_bits :: "env \<Rightarrow> u32 \<Rightarrow> u8 \<Rightarrow> nat \<Rightarrow> trace \<Rightarrow> trace" where
  "i2c_write_bits env n b 0 tr = tr"
| "i2c_write_bits env n b (Suc k) tr =
     (let tr = (if bit b k then sda_release env tr else sda_low env tr);
          tr = i2c_delay n tr;
          (_, tr) = scl_release_and_wait env tr;
          tr = i2c_delay n tr
      in i2c_write_bits env n b k (scl_low env tr))"

definition i2c_write_byte :: "env \<Rightarrow> u32 \<Rightarrow> u8 \<Rightarrow> trace \<Rightarrow> bool \<times> trace" where
  "i2c_write_byte env n b tr =
     (let tr = i2c_write_bits env n b 8 tr;
          tr = sda_release env tr;
          tr = i2c_delay n tr;
          (_, tr) = scl_release_and_wait env tr;
          (v, tr) = sda_read env tr;
          tr = i2c_delay n tr
      in (v = 0, scl_low env tr))"

fun i2c_read_bits :: "env \<Rightarrow> u32 \<Rightarrow> nat \<Rightarrow> u8 \<Rightarrow> trace \<Rightarrow> u8 \<times> trace" where
  "i2c_read_bits env n 0 acc tr = (acc, tr)"
| "i2c_read_bits env n (Suc k) acc tr =
     (let tr = i2c_delay n tr;
          (_, tr) = scl_release_and_wait env tr;
          (v, tr) = sda_read env tr;
          tr = i2c_delay n tr
      in i2c_read_bits env n k (push_bit 1 acc OR v) (scl_low env tr))"

definition i2c_read_byte :: "env \<Rightarrow> u32 \<Rightarrow> bool \<Rightarrow> trace \<Rightarrow> u8 \<times> trace" where
  "i2c_read_byte env n send_ack tr =
     (let (acc, tr) = i2c_read_bits env n 8 0 (sda_release env tr);
          tr = (if send_ack then sda_low env tr else sda_release env tr);
          tr = i2c_delay n tr;
          (_, tr) = scl_release_and_wait env tr;
          tr = i2c_delay n tr;
          tr = scl_low env tr
      in (acc, sda_release env tr))"

definition bi_init :: "env \<Rightarrow> u32 \<Rightarrow> bb_i2c \<Rightarrow> (i2c_status \<times> bb_i2c) option" where
  "bi_init env clock_hz ob =
     (if clock_hz = 0 \<or> 400000 < clock_hz then Some (I2c_HW_ERROR, ob)
      else
        let half_period_ns = 500000000 div clock_hz;
            d = (half_period_ns * 24) div 1000;
            d = (if d < 1 then 1 else d);
            tr = reg_clear env I2C_PINSEL4 (push_bit 8 3 OR push_bit 10 3) (bi_hw ob);
            tr = sda_release env tr;
            tr = reg_clear env I2C_FIO2DIR SCL_MASK tr
        in Some (I2c_OK, ob\<lparr>bi_delay := d, bi_hw := tr\<rparr>))"

text \<open>The loop over the bytes to send: \<open>False\<close> at the first byte that is not acknowledged.\<close>

function i2c_send_all :: "env \<Rightarrow> u32 \<Rightarrow> buf \<Rightarrow> nat \<Rightarrow> nat \<Rightarrow> trace \<Rightarrow> (bool \<times> trace) option" where
  "i2c_send_all env n d len i tr =
     (if i < len
      then do {
        b \<leftarrow> rd8 d i;
        let (ack, tr) = i2c_write_byte env n b tr;
        if \<not> ack then Some (False, tr) else i2c_send_all env n d len (Suc i) tr }
      else Some (True, tr))"
  by pat_completeness auto
termination
  by (relation "measure (\<lambda>(env, n, d, len, i, tr). len - i)") auto

function i2c_read_all :: "env \<Rightarrow> u32 \<Rightarrow> nat \<Rightarrow> nat \<Rightarrow> buf \<Rightarrow> trace \<Rightarrow> (buf \<times> trace) option" where
  "i2c_read_all env n len i rd tr =
     (if i < len
      then do {
        let (v, tr) = i2c_read_byte env n (\<not> i = len - 1) tr;
        rd \<leftarrow> wr8 rd i v;
        i2c_read_all env n len (Suc i) rd tr }
      else Some (rd, tr))"
  by pat_completeness auto
termination
  by (relation "measure (\<lambda>(env, n, len, i, rd, tr). len - i)") auto

declare i2c_send_all.simps [simp del] i2c_read_all.simps [simp del]

text \<open>What a null pointer with a zero length points to: no bytes.\<close>

definition ptr_buf :: "buf option \<Rightarrow> buf" where
  "ptr_buf p = (case p of None \<Rightarrow> [] | Some b \<Rightarrow> b)"

definition bi_write :: "env \<Rightarrow> u8 \<Rightarrow> buf option \<Rightarrow> nat \<Rightarrow> bb_i2c \<Rightarrow> (i2c_status \<times> bb_i2c) option" where
  "bi_write env dev_addr data len ob =
     (if data = None \<and> 0 < len then Some (I2c_HW_ERROR, ob)
      else
        let n = bi_delay ob;
            tr = i2c_start env n (bi_hw ob);
            (ack, tr) = i2c_write_byte env n (push_bit 1 dev_addr) tr
        in if \<not> ack then Some (I2c_NACK, ob\<lparr>bi_hw := i2c_stop env n tr\<rparr>)
           else do {
             (ack, tr) \<leftarrow> i2c_send_all env n (ptr_buf data) len 0 tr;
             Some (if ack then I2c_OK else I2c_NACK, ob\<lparr>bi_hw := i2c_stop env n tr\<rparr>) })"

definition bi_write_read ::
  "env \<Rightarrow> u8 \<Rightarrow> buf option \<Rightarrow> nat \<Rightarrow> buf option \<Rightarrow> nat \<Rightarrow> bb_i2c \<Rightarrow> (i2c_status \<times> buf \<times> bb_i2c) option"
where
  "bi_write_read env dev_addr wdata wlen rdata rlen ob =
     (if wdata = None \<and> 0 < wlen \<or> rdata = None \<and> 0 < rlen then Some (I2c_HW_ERROR, ptr_buf rdata, ob)
      else
        let n = bi_delay ob;
            tr = i2c_start env n (bi_hw ob);
            (ack, tr) = i2c_write_byte env n (push_bit 1 dev_addr) tr
        in if \<not> ack then Some (I2c_NACK, ptr_buf rdata, ob\<lparr>bi_hw := i2c_stop env n tr\<rparr>)
           else do {
             (ack, tr) \<leftarrow> i2c_send_all env n (ptr_buf wdata) wlen 0 tr;
             if \<not> ack then Some (I2c_NACK, ptr_buf rdata, ob\<lparr>bi_hw := i2c_stop env n tr\<rparr>)
             else
               let tr = i2c_start env n tr;
                   (ack, tr) = i2c_write_byte env n (push_bit 1 dev_addr OR 1) tr
               in if \<not> ack then Some (I2c_NACK, ptr_buf rdata, ob\<lparr>bi_hw := i2c_stop env n tr\<rparr>)
                  else do {
                    (rd, tr) \<leftarrow> i2c_read_all env n rlen 0 (ptr_buf rdata) tr;
                    Some (I2c_OK, rd, ob\<lparr>bi_hw := i2c_stop env n tr\<rparr>) } })"

text \<open>The class as an \<^verbatim>\<open>II2c\<close>.\<close>

definition bb_i2c_dev :: "env \<Rightarrow> bb_i2c i2c_dev" where
  "bb_i2c_dev env = \<lparr>i2c_init = bi_init env, i2c_write = bi_write env, i2c_write_read = bi_write_read env\<rparr>"

lemma bb_i2c_dev_simps [simp]:
  "i2c_init (bb_i2c_dev env) = bi_init env"
  "i2c_write (bb_i2c_dev env) = bi_write env"
  "i2c_write_read (bb_i2c_dev env) = bi_write_read env"
  by (simp_all add: bb_i2c_dev_def)

subsection \<open>The two lines, as the driver moves them\<close>

datatype edge = Scl_rise bool | Scl_fall | Start_cond | Stop_cond

text \<open>
  An observer of the direction register. Its state is whether the data and the clock line are
  held low, and the edges so far: the clock rising, with the level of the data line, or falling, and the data line
  falling (start) or rising (stop) while the clock is high. The output latch of a pin used here
  is low since reset: nothing in the program sets it.
\<close>

definition i2c_edge :: "bool \<times> bool \<times> edge list \<Rightarrow> u32 \<Rightarrow> bool \<times> bool \<times> edge list" where
  "i2c_edge w v = (case w of (a, c, E) \<Rightarrow>
     (let a' = (v AND SDA_MASK \<noteq> 0); c' = (v AND SCL_MASK \<noteq> 0)
      in (a', c', E @ (if c \<and> \<not> c' then [Scl_rise (\<not> a')] else if \<not> c \<and> c' then [Scl_fall]
            else if \<not> c \<and> a \<noteq> a' then [if a' then Start_cond else Stop_cond] else []))))"

fun i2c_watch :: "bool \<times> bool \<times> edge list \<Rightarrow> trace \<Rightarrow> bool \<times> bool \<times> edge list" where
  "i2c_watch w [] = w"
| "i2c_watch w (Wr r v # tr) = i2c_watch (if r = I2C_FIO2DIR then i2c_edge w v else w) tr"
| "i2c_watch w (_ # tr) = i2c_watch w tr"

text \<open>Since reset, when all pins are inputs.\<close>

definition i2c_lines :: "trace \<Rightarrow> bool \<times> bool \<times> edge list" where
  "i2c_lines tr = i2c_watch (False, False, []) tr"

text \<open>
  The hardware: the direction register reads back what was written, and the data pin reads high
  when neither the driver nor the slave holds it low. The slave answers to the edges. Nothing is
  said of the clock pin: a slave may stretch the clock as it likes.
\<close>

type_synonym slave = "edge list \<Rightarrow> bool"

definition i2c_bus :: "env \<Rightarrow> slave \<Rightarrow> bool" where
  "i2c_bus env sl \<longleftrightarrow> (\<forall>tr. case i2c_lines tr of (a, c, E) \<Rightarrow>
     (env tr I2C_FIO2DIR AND SDA_MASK \<noteq> 0) = a \<and> (env tr I2C_FIO2DIR AND SCL_MASK \<noteq> 0) = c \<and>
     (env tr I2C_FIO2PIN AND SDA_MASK \<noteq> 0) = (\<not> a \<and> sl E))"

lemma i2c_watch_append [simp]: "i2c_watch w (tr @ tr') = i2c_watch (i2c_watch w tr) tr'"
  by (induction w tr rule: i2c_watch.induct) simp_all

lemma i2c_lines_events [simp]:
  "i2c_lines (tr @ [Rd r v]) = i2c_lines tr"
  "i2c_lines (tr @ [Spin n]) = i2c_lines tr"
  "r \<noteq> I2C_FIO2DIR \<Longrightarrow> i2c_lines (tr @ [Wr r v]) = i2c_lines tr"
  "i2c_lines (tr @ [Wr I2C_FIO2DIR v]) = i2c_edge (i2c_lines tr) v"
  by (simp_all add: i2c_lines_def)

lemma i2c_lines_rmw [simp]:
  "i2c_lines (tr @ [Rd r u, Wr I2C_FIO2DIR v]) = i2c_edge (i2c_lines tr) v"
  "i2c_lines (tr @ [Rd r u, Wr I2C_FIO2DIR v, Wr I2C_FIO2CLR v']) = i2c_edge (i2c_lines tr) v"
  by (simp_all add: i2c_lines_def i2c_regs)

lemma i2c_bus_reads:
  assumes "i2c_bus env sl" "i2c_lines tr = (a, c, E)"
  shows "(env tr I2C_FIO2DIR AND SDA_MASK \<noteq> 0) = a" "(env tr I2C_FIO2DIR AND SCL_MASK \<noteq> 0) = c"
    "(env tr I2C_FIO2PIN AND SDA_MASK \<noteq> 0) = (\<not> a \<and> sl E)"
  using assms(1) [unfolded i2c_bus_def, rule_format, of tr] assms(2) by simp_all

lemma mask_ne_zero: "(v AND push_bit k 1 \<noteq> 0) = bit (v :: u32) k"
  by (simp add: and_exp_eq_0_iff_not_bit push_bit_of_1)

lemma i2c_masks [simp]:
  "((v OR SDA_MASK) AND SDA_MASK \<noteq> 0) = True" "((v OR SDA_MASK) AND SCL_MASK \<noteq> 0) = (v AND SCL_MASK \<noteq> 0)"
  "((v OR SCL_MASK) AND SCL_MASK \<noteq> 0) = True" "((v OR SCL_MASK) AND SDA_MASK \<noteq> 0) = (v AND SDA_MASK \<noteq> 0)"
  "((v AND NOT SDA_MASK) AND SDA_MASK \<noteq> 0) = False"
  "((v AND NOT SDA_MASK) AND SCL_MASK \<noteq> 0) = (v AND SCL_MASK \<noteq> 0)"
  "((v AND NOT SCL_MASK) AND SCL_MASK \<noteq> 0) = False"
  "((v AND NOT SCL_MASK) AND SDA_MASK \<noteq> 0) = (v AND SDA_MASK \<noteq> 0)"
  unfolding SDA_MASK_def SCL_MASK_def unfolding mask_ne_zero by (simp_all add: bit_simps)

lemma i2c_masks_nonzero [simp]: "SDA_MASK \<noteq> 0" "SCL_MASK \<noteq> 0"
  by (simp_all add: SDA_MASK_def SCL_MASK_def)

lemma scl_wait_lines [simp]: "i2c_lines (snd (scl_wait env n tr)) = i2c_lines tr"
  by (induction env n tr rule: scl_wait.induct) (subst scl_wait.simps, simp)

lemma sda_low_lines:
  "i2c_bus env sl \<Longrightarrow> i2c_lines (sda_low env tr) = (case i2c_lines tr of (a, c, E) \<Rightarrow>
     (True, c, E @ (if \<not> c \<and> \<not> a then [Start_cond] else [])))"
  using i2c_bus_reads [of env sl tr]
  by (cases "i2c_lines tr") (simp add: sda_low_def reg_or_def i2c_edge_def Let_def)

lemma sda_release_lines:
  "i2c_bus env sl \<Longrightarrow> i2c_lines (sda_release env tr) = (case i2c_lines tr of (a, c, E) \<Rightarrow>
     (False, c, E @ (if \<not> c \<and> a then [Stop_cond] else [])))"
  using i2c_bus_reads [of env sl tr]
  by (cases "i2c_lines tr") (simp add: sda_release_def reg_clear_def i2c_edge_def Let_def)

lemma scl_low_lines:
  "i2c_bus env sl \<Longrightarrow> i2c_lines (scl_low env tr) = (case i2c_lines tr of (a, c, E) \<Rightarrow>
     (a, True, E @ (if c then [] else [Scl_fall])))"
  using i2c_bus_reads [of env sl tr]
  by (cases "i2c_lines tr") (simp add: scl_low_def reg_or_def i2c_edge_def Let_def)

lemma scl_release_lines:
  "i2c_bus env sl \<Longrightarrow> i2c_lines (snd (scl_release_and_wait env tr)) = (case i2c_lines tr of (a, c, E) \<Rightarrow>
     (a, False, E @ (if c then [Scl_rise (\<not> a)] else [])))"
  using i2c_bus_reads [of env sl tr]
  by (cases "i2c_lines tr") (simp add: scl_release_and_wait_def reg_clear_def i2c_edge_def Let_def)

lemma sda_read_lines:
  "i2c_bus env sl \<Longrightarrow> i2c_lines (snd (sda_read env tr)) = i2c_lines tr"
  "i2c_bus env sl \<Longrightarrow> fst (sda_read env tr) = (case i2c_lines tr of (a, c, E) \<Rightarrow> if \<not> a \<and> sl E then 1 else 0)"
  using i2c_bus_reads [of env sl tr] by (cases "i2c_lines tr"; simp add: sda_read_def)+

lemma i2c_delay_lines [simp]: "i2c_lines (i2c_delay n tr) = i2c_lines tr"
  by (simp add: i2c_delay_def)

lemmas i2c_step_lines = sda_low_lines sda_release_lines scl_low_lines scl_release_lines sda_read_lines

text \<open>A bus of this kind: nothing but the pull-ups and the slave, which never stretches the clock.\<close>

definition i2c_sim :: "slave \<Rightarrow> env" where
  "i2c_sim sl tr r = (case i2c_lines tr of (a, c, E) \<Rightarrow>
     if r = I2C_FIO2DIR then (if a then SDA_MASK else 0) OR (if c then SCL_MASK else 0)
     else if r = I2C_FIO2PIN then (if \<not> a \<and> sl E then SDA_MASK else 0) OR (if c then 0 else SCL_MASK)
     else 0)"

lemma i2c_sim_bus: "i2c_bus (i2c_sim sl) sl"
proof -
  have "case i2c_lines tr of (a, c, E) \<Rightarrow>
      (i2c_sim sl tr I2C_FIO2DIR AND SDA_MASK \<noteq> 0) = a \<and> (i2c_sim sl tr I2C_FIO2DIR AND SCL_MASK \<noteq> 0) = c \<and>
      (i2c_sim sl tr I2C_FIO2PIN AND SDA_MASK \<noteq> 0) = (\<not> a \<and> sl E)" for tr
  proof (cases "i2c_lines tr")
    case (fields a c E)
    then show ?thesis
      by (cases a; cases c; cases "sl E"; simp add: i2c_sim_def i2c_regs SDA_MASK_def SCL_MASK_def)
  qed
  then show ?thesis unfolding i2c_bus_def by blast
qed

subsection \<open>The transaction on the edges\<close>

definition held :: "trace \<Rightarrow> edge list \<Rightarrow> bool" where
  "held tr E \<longleftrightarrow> (\<exists>a. i2c_lines tr = (a, True, E))"

definition idle_bus :: "trace \<Rightarrow> edge list \<Rightarrow> bool" where
  "idle_bus tr E \<longleftrightarrow> i2c_lines tr = (False, False, E)"

fun byte_edges :: "u8 \<Rightarrow> nat \<Rightarrow> edge list" where
  "byte_edges b 0 = []"
| "byte_edges b (Suc k) = Scl_rise (bit b k) # Scl_fall # byte_edges b k"

text \<open>Send bytes until the slave leaves the data line high at the ninth clock.\<close>

fun send_spec :: "slave \<Rightarrow> edge list \<Rightarrow> buf \<Rightarrow> bool \<times> edge list" where
  "send_spec sl E [] = (True, E)"
| "send_spec sl E (b # bs) =
     (let A = E @ byte_edges b 8 @ [Scl_rise True]
      in if sl A then (False, A @ [Scl_fall]) else send_spec sl (A @ [Scl_fall]) bs)"

fun slave_bits :: "slave \<Rightarrow> edge list \<Rightarrow> nat \<Rightarrow> u8 \<Rightarrow> u8 \<times> edge list" where
  "slave_bits sl E 0 acc = (acc, E)"
| "slave_bits sl E (Suc k) acc =
     (let A = E @ [Scl_rise True]
      in slave_bits sl (A @ [Scl_fall]) k (push_bit 1 acc OR (if sl A then 1 else 0)))"

text \<open>Take bytes from the slave, acknowledging all but the last.\<close>

fun read_spec :: "slave \<Rightarrow> edge list \<Rightarrow> nat \<Rightarrow> buf \<times> edge list" where
  "read_spec sl E 0 = ([], E)"
| "read_spec sl E (Suc k) =
     (let (v, A) = slave_bits sl E 8 0; (vs, B) = read_spec sl (A @ [Scl_rise (k = 0), Scl_fall]) k
      in (v # vs, B))"

definition stop_edges :: "edge list" where
  "stop_edges = [Scl_rise False, Stop_cond]"

definition write_spec :: "slave \<Rightarrow> edge list \<Rightarrow> u8 \<Rightarrow> buf \<Rightarrow> i2c_status \<times> edge list" where
  "write_spec sl E addr d =
     (let (ok, A) = send_spec sl (E @ [Start_cond, Scl_fall]) (push_bit 1 addr # d)
      in (if ok then I2c_OK else I2c_NACK, A @ stop_edges))"

definition write_read_spec :: "slave \<Rightarrow> edge list \<Rightarrow> u8 \<Rightarrow> buf \<Rightarrow> nat \<Rightarrow> i2c_status \<times> buf \<times> edge list" where
  "write_read_spec sl E addr d n =
     (let (ok, A) = send_spec sl (E @ [Start_cond, Scl_fall]) (push_bit 1 addr # d)
      in if \<not> ok then (I2c_NACK, [], A @ stop_edges)
         else
           let (ok, B) = send_spec sl (A @ [Scl_rise True, Start_cond, Scl_fall]) [push_bit 1 addr OR 1]
           in if \<not> ok then (I2c_NACK, [], B @ stop_edges)
              else let (vs, C) = read_spec sl B n in (I2c_OK, vs, C @ stop_edges))"

subsection \<open>The code follows the transaction\<close>

lemma start_idle:
  assumes "i2c_bus env sl" "idle_bus tr E"
  shows "held (i2c_start env n tr) (E @ [Start_cond, Scl_fall])"
  using assms by (simp add: i2c_start_def Let_def split_beta held_def idle_bus_def i2c_step_lines [OF assms(1)])

lemma start_again:
  assumes "i2c_bus env sl" "held tr E"
  shows "held (i2c_start env n tr) (E @ [Scl_rise True, Start_cond, Scl_fall])"
  using assms by (auto simp: i2c_start_def Let_def split_beta held_def i2c_step_lines [OF assms(1)])

lemma stop_held:
  assumes "i2c_bus env sl" "held tr E"
  shows "idle_bus (i2c_stop env n tr) (E @ stop_edges)"
  using assms by (auto simp: i2c_stop_def Let_def split_beta held_def idle_bus_def i2c_step_lines [OF assms(1)] stop_edges_def)

lemma write_bits_held:
  assumes "i2c_bus env sl"
  shows "held tr E \<Longrightarrow> held (i2c_write_bits env n b k tr) (E @ byte_edges b k)"
proof (induction k arbitrary: tr E)
  case (Suc k)
  let ?tr = "scl_low env (i2c_delay n (snd (scl_release_and_wait env (i2c_delay n
      (if bit b k then sda_release env tr else sda_low env tr)))))"
  from Suc.prems have "held ?tr (E @ [Scl_rise (bit b k), Scl_fall])"
    using assms by (auto simp: held_def i2c_step_lines [OF assms(1)])
  from Suc.IH [OF this] show ?case by (simp add: Let_def split_beta)
qed simp

lemma write_byte_held:
  assumes "i2c_bus env sl" "held tr E"
  shows "fst (i2c_write_byte env n b tr) = (\<not> sl (E @ byte_edges b 8 @ [Scl_rise True]))"
    "held (snd (i2c_write_byte env n b tr)) (E @ byte_edges b 8 @ [Scl_rise True, Scl_fall])"
  using write_bits_held [OF assms, of n b 8] assms(1)
  by (auto simp: i2c_write_byte_def Let_def split_beta held_def i2c_step_lines [OF assms(1)])

lemma read_bits_held:
  assumes "i2c_bus env sl"
  shows "i2c_lines tr = (False, True, E) \<Longrightarrow>
    fst (i2c_read_bits env n k acc tr) = fst (slave_bits sl E k acc) \<and>
    i2c_lines (snd (i2c_read_bits env n k acc tr)) = (False, True, snd (slave_bits sl E k acc))"
  by (induction k arbitrary: tr E acc) (simp_all add: Let_def split_beta i2c_step_lines [OF assms(1)])

lemma read_byte_held:
  assumes "i2c_bus env sl" "held tr E"
  shows "fst (i2c_read_byte env n ack tr) = fst (slave_bits sl E 8 0)"
    "held (snd (i2c_read_byte env n ack tr)) (snd (slave_bits sl E 8 0) @ [Scl_rise (\<not> ack), Scl_fall])"
proof -
  from assms have "i2c_lines (sda_release env tr) = (False, True, E)"
    by (auto simp: held_def i2c_step_lines [OF assms(1)])
  from read_bits_held [OF assms(1) this, of n 8 0] assms(1)
  show "fst (i2c_read_byte env n ack tr) = fst (slave_bits sl E 8 0)"
    "held (snd (i2c_read_byte env n ack tr)) (snd (slave_bits sl E 8 0) @ [Scl_rise (\<not> ack), Scl_fall])"
    by (simp_all add: i2c_read_byte_def Let_def split_beta held_def i2c_step_lines [OF assms(1)])
qed

lemma send_all_held:
  assumes "i2c_bus env sl"
  shows "held tr E \<Longrightarrow> i \<le> len \<Longrightarrow> len \<le> length d \<Longrightarrow>
    \<exists>tr'. i2c_send_all env n d len i tr = Some (fst (send_spec sl E (take (len - i) (drop i d))), tr') \<and>
      held tr' (snd (send_spec sl E (take (len - i) (drop i d))))"
proof (induction "len - i" arbitrary: i tr E)
  case 0
  then show ?case by (subst i2c_send_all.simps) simp
next
  case (Suc m)
  then have i: "i < len" "m = len - Suc i" by simp_all
  note w = write_byte_held [OF assms Suc.prems(1), of n "d ! i"]
  have tk: "take (len - i) (drop i d) = d ! i # take (len - Suc i) (drop (Suc i) d)"
    using i Suc.prems by (intro take_diff_drop) simp_all
  show ?case
  proof (cases "sl (E @ byte_edges (d ! i) 8 @ [Scl_rise True])")
    case True
    then show ?thesis
      using w i Suc.prems unfolding tk by (subst i2c_send_all.simps) (simp add: split_beta Let_def)
  next
    case False
    from Suc.hyps(1) [OF i(2) w(2)] i Suc.prems show ?thesis
      using w(1) False unfolding tk by (subst i2c_send_all.simps) (simp add: split_beta Let_def)
  qed
qed

lemma address_then_send:
  assumes "i2c_bus env sl" "held tr E" "len \<le> length d"
  shows "if fst (i2c_write_byte env n a tr)
    then \<exists>tr'. i2c_send_all env n d len 0 (snd (i2c_write_byte env n a tr)) =
        Some (fst (send_spec sl E (a # take len d)), tr') \<and> held tr' (snd (send_spec sl E (a # take len d)))
    else \<not> fst (send_spec sl E (a # take len d)) \<and>
      held (snd (i2c_write_byte env n a tr)) (snd (send_spec sl E (a # take len d)))"
proof -
  note w = write_byte_held [OF assms(1,2), of n a]
  show ?thesis
    using w send_all_held [OF assms(1) w(2) le0 assms(3), of n] by (simp add: Let_def)
qed

lemma length_read_spec [simp]: "length (fst (read_spec sl E n)) = n"
  by (induction n arbitrary: E) (simp_all add: split_beta Let_def)

lemma read_all_held:
  assumes "i2c_bus env sl"
  shows "held tr E \<Longrightarrow> i \<le> len \<Longrightarrow> len \<le> length rd \<Longrightarrow>
    \<exists>tr'. i2c_read_all env n len i rd tr =
        Some (take i rd @ fst (read_spec sl E (len - i)) @ drop len rd, tr') \<and>
      held tr' (snd (read_spec sl E (len - i)))"
proof (induction "len - i" arbitrary: i rd tr E)
  case 0
  then show ?case by (subst i2c_read_all.simps) simp
next
  case (Suc m)
  then have i: "i < len" "m = len - Suc i" by simp_all
  note r = read_byte_held [OF assms Suc.prems(1), of n "\<not> i = len - 1"]
  let ?v = "fst (slave_bits sl E 8 0)"
  have last: "(\<not> \<not> i = len - 1) = (m = 0)" using i by auto
  note r = r [unfolded last]
  have d: "len - i = Suc m" using Suc by simp
  have "take (Suc i) (rd[i := ?v]) = take i rd @ [?v]" using i Suc.prems by (intro take_update_last) simp
  moreover have "drop len (rd[i := ?v]) = drop len rd" using i by simp
  ultimately show ?case
    using Suc.hyps(1) [OF i(2) r(2), of "rd[i := ?v]"] r(1) i Suc.prems
    unfolding d by (subst i2c_read_all.simps) (simp add: split_beta Let_def)
qed

subsection \<open>An observer of the bytes\<close>

text \<open>
  What a bus analyser prints: the data bits of every group of nine clocks after a start. It is
  independent of the transactions above.
\<close>

fun wire_bytes :: "bool list \<Rightarrow> edge list \<Rightarrow> bool list list" where
  "wire_bytes bs [] = []"
| "wire_bytes bs (Scl_rise v # E) =
     (if length bs = 8 then bs # wire_bytes [] E else wire_bytes (bs @ [v]) E)"
| "wire_bytes bs (Scl_fall # E) = wire_bytes bs E"
| "wire_bytes bs (_ # E) = wire_bytes [] E"

definition msb_first :: "u8 \<Rightarrow> bool list" where
  "msb_first b = map (bit b) (rev [0..<8])"

lemma wire_byte: "wire_bytes [] (byte_edges b 8 @ [Scl_rise v, Scl_fall] @ E) = msb_first b # wire_bytes [] E"
  by (simp add: msb_first_def eval_nat_numeral upt_rec)

lemma send_spec_extends:
  "\<exists>k E'. send_spec sl E bs = (k = length bs \<and> fst (send_spec sl E bs), E @ E') \<and> k \<le> length bs \<and>
     (\<forall>F. wire_bytes [] (E' @ F) = map msb_first (take k bs) @ wire_bytes [] F)"
proof (induction bs arbitrary: E)
  case (Cons b bs)
  let ?A = "E @ byte_edges b 8 @ [Scl_rise True]"
  show ?case
  proof (cases "sl ?A")
    case True
    then show ?thesis
      using wire_byte [of b True]
      by (intro exI [of _ 1] exI [of _ "byte_edges b 8 @ [Scl_rise True, Scl_fall]"]) (simp add: Let_def)
  next
    case False
    obtain k E' where "send_spec sl (?A @ [Scl_fall]) bs =
        (k = length bs \<and> fst (send_spec sl (?A @ [Scl_fall]) bs), (?A @ [Scl_fall]) @ E')" "k \<le> length bs"
      "\<forall>F. wire_bytes [] (E' @ F) = map msb_first (take k bs) @ wire_bytes [] F"
      using Cons.IH by blast
    then show ?thesis
      using False wire_byte [of b True]
      by (intro exI [of _ "Suc k"] exI [of _ "byte_edges b 8 @ [Scl_rise True, Scl_fall] @ E'"]) (simp add: Let_def)
  qed
qed simp

lemma stop_edges_silent [simp]: "wire_bytes [] stop_edges = []"
  by (simp add: stop_edges_def)

lemma ptr_buf_simps [simp]: "ptr_buf (Some b) = b" "ptr_buf None = []"
  by (simp_all add: ptr_buf_def)

lemma write_read_transaction:
  assumes "i2c_bus env sl" "idle_bus (bi_hw ob) E" "wlen \<le> length w" "rlen \<le> length rd"
  shows "case write_read_spec sl E addr (take wlen w) rlen of (st, vs, F) \<Rightarrow>
    (\<exists>tr. i2c_write_read (bb_i2c_dev env) addr (Some w) wlen (Some rd) rlen ob =
      Some (st, vs @ drop (length vs) rd, ob\<lparr>bi_hw := tr\<rparr>) \<and> idle_bus tr F) \<and>
    length vs = (if st = I2c_OK then rlen else 0)"
proof -
  let ?n = "bi_delay ob" and ?a = "push_bit 1 addr" and ?r = "push_bit 1 addr OR 1"
  let ?S = "send_spec sl (E @ [Start_cond, Scl_fall]) (?a # take wlen w)"
  let ?w1 = "i2c_write_byte env ?n ?a (i2c_start env ?n (bi_hw ob))"
  let ?R = "send_spec sl (snd ?S @ [Scl_rise True, Start_cond, Scl_fall]) [?r]"
  note ph = address_then_send [OF assms(1) start_idle [OF assms(1,2)] assms(3), of ?n ?a ?n]
  note spec = write_read_spec_def Let_def split_beta prod.sel
  have intro: ?thesis if "write_read_spec sl E addr (take wlen w) rlen = (st, vs, F)"
    "i2c_write_read (bb_i2c_dev env) addr (Some w) wlen (Some rd) rlen ob = Some (st, rd', ob\<lparr>bi_hw := tr\<rparr>)"
    "rd' = vs @ drop (length vs) rd" "idle_bus tr F" "length vs = (if st = I2c_OK then rlen else 0)" for st vs F rd' tr
    using that by (simp only: prod.case) blast
  show ?thesis
  proof (cases "fst ?w1")
    case False
    with ph have S: "\<not> fst ?S" "held (snd ?w1) (snd ?S)" unfolding if_not_P [OF False] by blast+
    show ?thesis
    proof (rule intro)
      show "write_read_spec sl E addr (take wlen w) rlen = (I2c_NACK, [], snd ?S @ stop_edges)"
        by (simp only: spec S(1) not_False_eq_True if_True)
      show "i2c_write_read (bb_i2c_dev env) addr (Some w) wlen (Some rd) rlen ob =
          Some (I2c_NACK, rd, ob\<lparr>bi_hw := i2c_stop env ?n (snd ?w1)\<rparr>)"
        using False by (simp add: bi_write_read_def Let_def split_beta)
    qed (simp_all only: stop_held [OF assms(1) S(2)], simp_all)
  next
    case True
    with ph obtain t1 where t1: "i2c_send_all env ?n w wlen 0 (snd ?w1) = Some (fst ?S, t1)" "held t1 (snd ?S)"
      unfolding if_P [OF True] by blast
    let ?w2 = "i2c_write_byte env ?n ?r (i2c_start env ?n t1)"
    note w2 = write_byte_held [OF assms(1) start_again [OF assms(1) t1(2)], of ?n ?r ?n]
    have R: "fst ?w2 = fst ?R" "held (snd ?w2) (snd ?R)"
      using w2 unfolding send_spec.simps Let_def by (simp_all only: append_assoc append_Cons append_Nil prod.sel split: if_split) auto
    consider "\<not> fst ?S" | "fst ?S" "\<not> fst ?R" | "fst ?S" "fst ?R" by blast
    then show ?thesis
    proof cases
      case 1
      show ?thesis
      proof (rule intro)
        show "write_read_spec sl E addr (take wlen w) rlen = (I2c_NACK, [], snd ?S @ stop_edges)"
          by (simp only: spec 1 not_False_eq_True if_True)
        show "i2c_write_read (bb_i2c_dev env) addr (Some w) wlen (Some rd) rlen ob =
            Some (I2c_NACK, rd, ob\<lparr>bi_hw := i2c_stop env ?n t1\<rparr>)"
          using True t1(1) 1 by (simp del: send_spec.simps add: bi_write_read_def Let_def split_beta)
      qed (simp_all only: stop_held [OF assms(1) t1(2)], simp_all)
    next
      case 2
      show ?thesis
      proof (rule intro)
        show "write_read_spec sl E addr (take wlen w) rlen = (I2c_NACK, [], snd ?R @ stop_edges)"
          by (simp only: spec 2 not_False_eq_True not_True_eq_False if_True if_False)
        show "i2c_write_read (bb_i2c_dev env) addr (Some w) wlen (Some rd) rlen ob =
            Some (I2c_NACK, rd, ob\<lparr>bi_hw := i2c_stop env ?n (snd ?w2)\<rparr>)"
          using True t1(1) 2 R(1) by (simp del: send_spec.simps add: bi_write_read_def Let_def split_beta)
      qed (simp_all only: stop_held [OF assms(1) R(2)], simp_all)
    next
      case 3
      let ?P = "read_spec sl (snd ?R) rlen"
      obtain t2 where t2: "i2c_read_all env ?n rlen 0 rd (snd ?w2) = Some (fst ?P @ drop rlen rd, t2)"
        "held t2 (snd ?P)"
        using read_all_held [OF assms(1) R(2) le0 assms(4), of ?n] unfolding take_0 append_Nil diff_zero by blast
      show ?thesis
      proof (rule intro)
        show "write_read_spec sl E addr (take wlen w) rlen = (I2c_OK, fst ?P, snd ?P @ stop_edges)"
          by (simp only: spec 3 not_True_eq_False if_False)
        show "i2c_write_read (bb_i2c_dev env) addr (Some w) wlen (Some rd) rlen ob =
            Some (I2c_OK, fst ?P @ drop rlen rd, ob\<lparr>bi_hw := i2c_stop env ?n t2\<rparr>)"
          using True t1(1) 3 R(1) t2(1) by (simp del: send_spec.simps add: bi_write_read_def Let_def split_beta)
      qed (simp_all only: stop_held [OF assms(1) t2(2)] length_read_spec, simp_all)
    qed
  qed
qed

subsection \<open>Any hardware, and a dead one\<close>

lemma send_all_returns:
  "len \<le> length d \<Longrightarrow> \<exists>ok tr'. i2c_send_all env n d len i tr = Some (ok, tr')"
proof (induction "len - i" arbitrary: i tr)
  case 0
  then show ?case by (subst i2c_send_all.simps) simp
next
  case (Suc m)
  then have "i < len" "m = len - Suc i" by simp_all
  then show ?case
    using Suc.hyps(1) Suc.prems by (subst i2c_send_all.simps) (simp add: split_beta Let_def)
qed

lemma read_all_returns:
  "len \<le> length rd \<Longrightarrow> \<exists>rd' tr'. i2c_read_all env n len i rd tr = Some (rd', tr') \<and> length rd' = length rd"
proof (induction "len - i" arbitrary: i rd tr)
  case 0
  then show ?case by (subst i2c_read_all.simps) simp
next
  case (Suc m)
  then have i: "i < len" "m = len - Suc i" by simp_all
  let ?b = "i2c_read_byte env n (\<not> i = len - 1) tr"
  from Suc.hyps(1) [OF i(2), of "rd[i := fst ?b]" "snd ?b"] Suc.prems i show ?case
    by (subst i2c_read_all.simps) (simp add: split_beta Let_def)
qed

definition pins_dead :: "env \<Rightarrow> bool" where
  "pins_dead env \<longleftrightarrow> (\<forall>tr. env tr I2C_FIO2PIN = 0)"

lemma dead_scl: "pins_dead env \<Longrightarrow> \<not> fst (scl_wait env n tr)"
  by (induction env n tr rule: scl_wait.induct) (subst scl_wait.simps, simp add: pins_dead_def)

lemma dead_sda: "pins_dead env \<Longrightarrow> fst (sda_read env tr) = 0"
  by (simp add: sda_read_def pins_dead_def)

lemma dead_write_byte: "pins_dead env \<Longrightarrow> fst (i2c_write_byte env n b tr)"
  by (simp add: i2c_write_byte_def Let_def split_beta dead_sda)

lemma dead_read_bits: "pins_dead env \<Longrightarrow> fst (i2c_read_bits env n k 0 tr) = 0"
  by (induction k arbitrary: tr) (simp_all add: Let_def split_beta dead_sda)

lemma dead_read_byte: "pins_dead env \<Longrightarrow> fst (i2c_read_byte env n ack tr) = 0"
  by (simp add: i2c_read_byte_def Let_def split_beta dead_read_bits)

lemma dead_send_all:
  assumes "pins_dead env"
  shows "len \<le> length d \<Longrightarrow> \<exists>tr'. i2c_send_all env n d len i tr = Some (True, tr')"
proof (induction "len - i" arbitrary: i tr)
  case 0
  then show ?case by (subst i2c_send_all.simps) simp
next
  case (Suc m)
  then have "i < len" "m = len - Suc i" by simp_all
  then show ?case
    using Suc.hyps(1) Suc.prems dead_write_byte [OF assms]
    by (subst i2c_send_all.simps) (simp add: split_beta Let_def)
qed

lemma dead_read_all:
  assumes "pins_dead env"
  shows "i \<le> len \<Longrightarrow> len \<le> length rd \<Longrightarrow>
    \<exists>tr'. i2c_read_all env n len i rd tr = Some (take i rd @ replicate (len - i) 0 @ drop len rd, tr')"
proof (induction "len - i" arbitrary: i rd tr)
  case 0
  then show ?case by (subst i2c_read_all.simps) simp
next
  case (Suc m)
  then have i: "i < len" "m = len - Suc i" "len - i = Suc m" by simp_all
  have "take (Suc i) (rd[i := 0]) = take i rd @ [0]" using i Suc.prems by (intro take_update_last) simp
  moreover have "drop len (rd[i := 0]) = drop len rd" using i by simp
  ultimately show ?case
    using Suc.hyps(1) [OF i(2), of "rd[i := 0]" "snd (i2c_read_byte env n (\<not> i = len - 1) tr)"]
      Suc.prems dead_read_byte [OF assms] i(1,2)
    unfolding i(3) by (subst i2c_read_all.simps) (simp add: split_beta Let_def)
qed

lemma dead_write_read:
  assumes "pins_dead env" "len \<le> length d" "n \<le> length rd"
  shows "\<exists>tr'. i2c_write_read (bb_i2c_dev env) addr (Some d) len (Some rd) n ob =
    Some (I2c_OK, replicate n 0 @ drop n rd, ob\<lparr>bi_hw := tr'\<rparr>)"
proof -
  let ?n = "bi_delay ob" and ?a = "push_bit 1 addr"
  obtain t1 where s: "i2c_send_all env ?n d len 0 (snd (i2c_write_byte env ?n ?a (i2c_start env ?n (bi_hw ob)))) = Some (True, t1)"
    using dead_send_all [OF assms(1,2)] by blast
  obtain t2 where r: "i2c_read_all env ?n n 0 rd (snd (i2c_write_byte env ?n (?a OR 1) (i2c_start env ?n t1))) =
      Some (take 0 rd @ replicate (n - 0) 0 @ drop n rd, t2)"
    using dead_read_all [OF assms(1) le0 assms(3)] by blast
  show ?thesis
    using s r dead_write_byte [OF assms(1)]
    by (intro exI [of _ "i2c_stop env ?n t2"]) (simp add: bi_write_read_def Let_def split_beta)
qed

subsection \<open>Properties\<close>

text \<open>
  \<^verbatim>\<open>BitbangI2cLpc1768::write\<close> from an idle bus is the specified transaction, for every slave: a
  start, the address byte with the write bit and the data bytes in order, each with its ninth clock, up
  to the first one the slave does not acknowledge, and a stop that leaves the bus idle. A bus analyser
  reads exactly those bytes, and all of them when the status is \<open>OK\<close>.
\<close>

theorem i2c_write_refines:
  assumes "i2c_bus env sl" "idle_bus (bi_hw ob) E" "len \<le> length d"
  shows "\<exists>tr k E'. i2c_write (bb_i2c_dev env) addr (Some d) len ob =
      Some (fst (write_spec sl E addr (take len d)), ob\<lparr>bi_hw := tr\<rparr>) \<and>
    idle_bus tr (snd (write_spec sl E addr (take len d))) \<and>
    snd (write_spec sl E addr (take len d)) = E @ Start_cond # E' \<and>
    wire_bytes [] E' = map msb_first (take k (push_bit 1 addr # take len d)) \<and>
    (if fst (write_spec sl E addr (take len d)) = I2c_OK then k = Suc len else k \<le> Suc len)"
proof -
  let ?E = "E @ [Start_cond, Scl_fall]" and ?n = "bi_delay ob" and ?bs = "push_bit 1 addr # take len d"
  let ?t1 = "i2c_start env ?n (bi_hw ob)"
  let ?S = "send_spec sl ?E ?bs"
  note ph = address_then_send [OF assms(1) start_idle [OF assms(1,2)] assms(3), of ?n "push_bit 1 addr" ?n]
  obtain k E' where s: "?S = (k = length ?bs \<and> fst ?S, ?E @ E')" "k \<le> length ?bs"
    "\<And>F. wire_bytes [] (E' @ F) = map msb_first (take k ?bs) @ wire_bytes [] F"
    using send_spec_extends [of sl ?E ?bs] by blast
  have ws: "write_spec sl E addr (take len d) = (if fst ?S then I2c_OK else I2c_NACK, snd ?S @ stop_edges)"
    by (simp only: write_spec_def Let_def split_beta prod.sel)
  have run: "\<exists>tr. i2c_write (bb_i2c_dev env) addr (Some d) len ob =
      Some (if fst ?S then I2c_OK else I2c_NACK, ob\<lparr>bi_hw := tr\<rparr>) \<and> idle_bus tr (snd ?S @ stop_edges)"
  proof (cases "fst (i2c_write_byte env ?n (push_bit 1 addr) ?t1)")
    case True
    with ph obtain tr where tr: "i2c_send_all env ?n d len 0 (snd (i2c_write_byte env ?n (push_bit 1 addr) ?t1)) =
        Some (fst ?S, tr)" "held tr (snd ?S)" unfolding if_P [OF True] by blast
    then show ?thesis
      using True stop_held [OF assms(1) tr(2), of ?n] unfolding bb_i2c_dev_simps
      by (intro exI [of _ "i2c_stop env ?n tr"]) (simp del: send_spec.simps add: bi_write_def Let_def split_beta)
  next
    case False
    with ph have "\<not> fst ?S" "held (snd (i2c_write_byte env ?n (push_bit 1 addr) ?t1)) (snd ?S)"
      unfolding if_not_P [OF False] by blast+
    then show ?thesis
      using False stop_held [OF assms(1), of _ "snd ?S" ?n] unfolding bb_i2c_dev_simps
      by (intro exI [of _ "i2c_stop env ?n (snd (i2c_write_byte env ?n (push_bit 1 addr) ?t1))"]) (simp del: send_spec.simps add: bi_write_def Let_def split_beta)
  qed
  have "fst ?S = (k = length ?bs \<and> fst ?S)" by (rule arg_cong [OF s(1), of fst, unfolded prod.sel])
  then have k: "if fst ?S then k = Suc len else k \<le> Suc len"
    using s(2) assms(3) by (cases "fst ?S") (simp_all only: if_True if_False simp_thms list.size length_take min_absorb2 add_0_right add_Suc_right One_nat_def)
  have "snd ?S = ?E @ E'" by (rule arg_cong [OF s(1), of snd, unfolded prod.sel])
  then have "snd ?S @ stop_edges = E @ Start_cond # Scl_fall # E' @ stop_edges"
    "wire_bytes [] (Scl_fall # E' @ stop_edges) = map msb_first (take k ?bs)"
    using s(3) [of stop_edges] by (simp_all del: send_spec.simps)
  moreover obtain tr where "i2c_write (bb_i2c_dev env) addr (Some d) len ob =
      Some (if fst ?S then I2c_OK else I2c_NACK, ob\<lparr>bi_hw := tr\<rparr>)" "idle_bus tr (snd ?S @ stop_edges)"
    using run by blast
  moreover have "if (if fst ?S then I2c_OK else I2c_NACK) = I2c_OK then k = Suc len else k \<le> Suc len"
    using k by (cases "fst ?S") (simp_all del: send_spec.simps)
  ultimately show ?thesis
    unfolding ws prod.sel
    by (intro exI [of _ tr] exI [of _ k] exI [of _ "Scl_fall # E' @ stop_edges"] conjI)
qed

text \<open>
  C15: \<^verbatim>\<open>write_read\<close> from an idle bus is the specified combined transaction, for every slave: the written
  bytes, a repeated start, the address with the read bit, then \<^verbatim>\<open>rlen\<close> bytes of which all but the last are
  acknowledged, and a stop. With \<open>OK\<close> the buffer holds exactly the bytes the slave shifted out; with \<open>NACK\<close> it
  is untouched. The bus is idle again in either case.
\<close>

theorem i2c_write_read_refines:
  assumes "i2c_bus env sl" "idle_bus (bi_hw ob) E" "wlen \<le> length w" "rlen \<le> length rd"
  shows "case write_read_spec sl E addr (take wlen w) rlen of (st, vs, F) \<Rightarrow>
    (\<exists>tr. i2c_write_read (bb_i2c_dev env) addr (Some w) wlen (Some rd) rlen ob =
      Some (st, vs @ drop (length vs) rd, ob\<lparr>bi_hw := tr\<rparr>) \<and> idle_bus tr F) \<and>
    length vs = (if st = I2c_OK then rlen else 0)"
  by (rule write_read_transaction [OF assms])

text \<open>
  C39: whatever the hardware does, \<^verbatim>\<open>write\<close> and \<^verbatim>\<open>write_read\<close> return, with \<open>OK\<close> or \<open>NACK\<close> and never with
  \<open>TIMEOUT\<close>: the result of waiting for the clock line is not looked at. On a bus whose two lines are stuck low (no
  pull-up, no power) every wait for the clock fails, and still every write reports success and every read
  reports success with bytes that are all zero.
\<close>

theorem i2c_stuck_bus_reports_ok:
  assumes "len \<le> length d" "n \<le> length rd"
  shows "(\<exists>st ob'. i2c_write (bb_i2c_dev env) addr (Some d) len ob = Some (st, ob') \<and> st \<in> {I2c_OK, I2c_NACK}) \<and>
    (\<exists>st rd' ob'. i2c_write_read (bb_i2c_dev env) addr (Some d) len (Some rd) n ob = Some (st, rd', ob') \<and>
      st \<in> {I2c_OK, I2c_NACK} \<and> length rd' = length rd) \<and>
    (pins_dead env \<longrightarrow>
      (\<forall>tr. \<not> fst (scl_release_and_wait env tr)) \<and>
      (\<exists>ob'. i2c_write (bb_i2c_dev env) addr (Some d) len ob = Some (I2c_OK, ob')) \<and>
      (\<exists>ob'. i2c_write_read (bb_i2c_dev env) addr (Some d) len (Some rd) n ob =
        Some (I2c_OK, replicate n 0 @ drop n rd, ob')))"
proof (intro conjI impI)
  let ?n = "bi_delay ob" and ?a = "push_bit 1 addr"
  let ?w1 = "i2c_write_byte env ?n ?a (i2c_start env ?n (bi_hw ob))"
  obtain ok t1 where s: "i2c_send_all env ?n d len 0 (snd ?w1) = Some (ok, t1)"
    using send_all_returns [OF assms(1)] by blast
  let ?w2 = "i2c_write_byte env ?n (?a OR 1) (i2c_start env ?n t1)"
  obtain rd' t2 where r: "i2c_read_all env ?n n 0 rd (snd ?w2) = Some (rd', t2)" "length rd' = length rd"
    using read_all_returns [OF assms(2)] by blast
  show "\<exists>st ob'. i2c_write (bb_i2c_dev env) addr (Some d) len ob = Some (st, ob') \<and> st \<in> {I2c_OK, I2c_NACK}"
    using s by (simp add: bi_write_def Let_def split_beta)
  show "\<exists>st rd' ob'. i2c_write_read (bb_i2c_dev env) addr (Some d) len (Some rd) n ob = Some (st, rd', ob') \<and>
      st \<in> {I2c_OK, I2c_NACK} \<and> length rd' = length rd"
    using s r by (simp add: bi_write_read_def Let_def split_beta)
  assume dead: "pins_dead env"
  show "\<forall>tr. \<not> fst (scl_release_and_wait env tr)" using dead_scl [OF dead] by (simp add: scl_release_and_wait_def)
  have ok: ok using dead_send_all [OF dead assms(1), of ?n 0 "snd ?w1"] s by auto
  show "\<exists>ob'. i2c_write (bb_i2c_dev env) addr (Some d) len ob = Some (I2c_OK, ob')"
    using s ok dead_write_byte [OF dead] by (simp add: bi_write_def Let_def split_beta)
  show "\<exists>ob'. i2c_write_read (bb_i2c_dev env) addr (Some d) len (Some rd) n ob =
      Some (I2c_OK, replicate n 0 @ drop n rd, ob')"
    using dead_write_read [OF dead assms] by blast
qed

text \<open>A slave that acknowledges everything and sends zeros, and a bus without a slave.\<close>

theorem i2c_write_refines_witness:
  "\<exists>ob'. i2c_write (bb_i2c_dev (i2c_sim (\<lambda>_. False))) 0x76 (Some [0xD0, 1]) 2 (bb_i2c_new []) = Some (I2c_OK, ob')"
  using i2c_write_refines [OF i2c_sim_bus [of "\<lambda>_. False"], of "bb_i2c_new []" "[]" 2 "[0xD0, 1]" "0x76"]
  by (simp add: idle_bus_def i2c_lines_def bb_i2c_new_def write_spec_def Let_def eval_nat_numeral) blast

theorem i2c_write_read_refines_witness:
  "\<exists>ob'. i2c_write_read (bb_i2c_dev (i2c_sim (\<lambda>_. True))) 0x76 (Some [0xD0]) 1 (Some [7]) 1 (bb_i2c_new []) =
     Some (I2c_NACK, [7], ob')"
  using i2c_write_read_refines [OF i2c_sim_bus [of "\<lambda>_. True"], of "bb_i2c_new []" "[]" 1 "[0xD0]" 1 "[7]" "0x76"]
  by (simp add: idle_bus_def i2c_lines_def bb_i2c_new_def write_read_spec_def Let_def eval_nat_numeral) blast

theorem i2c_stuck_bus_reports_ok_witness:
  "\<exists>ob'. i2c_write (bb_i2c_dev (\<lambda>_ _. 0)) 0x76 (Some [0xD0, 1]) 2 (bb_i2c_new []) = Some (I2c_OK, ob')"
  using i2c_stuck_bus_reports_ok [of 2 "[0xD0, 1]" 0 "[]" "\<lambda>_ _. 0" "0x76" "bb_i2c_new []"]
  by (simp add: pins_dead_def)

end
