(* ===== verification/Bitbang_Spi_Rp.thy ===== *)
theory Bitbang_Spi_Rp
  imports Bitbang_Spi_Lpc Pico
begin

text \<open>
  \<^verbatim>\<open>rp2040/bitbang_spi_rp2040.cpp\<close> and \<^verbatim>\<open>.hpp\<close>: SPI on four GPIOs through the Pico SDK. The
  object's fields and the log of SDK calls form the state; the level \<^verbatim>\<open>gpio_get\<close> returns is a
  parameter, any function of the log and the pin.

  The wires are the ones of the LPC1768 port under other pin numbers. \<open>on_wires\<close> reads the log as
  pin events of that port, and then the observer and the contracts of the LPC1768 port apply: the
  port is shown to be a bit shifter, an infallible and selecting SPI device, and a framed one.
\<close>

subsection \<open>The code\<close>

definition RP_SCK_PIN :: u32 where "RP_SCK_PIN = 2"
definition RP_MOSI_PIN :: u32 where "RP_MOSI_PIN = 3"
definition RP_MISO_PIN :: u32 where "RP_MISO_PIN = 4"
definition RP_CS_PIN :: u32 where "RP_CS_PIN = 5"

lemmas rp_pins = RP_SCK_PIN_def RP_MOSI_PIN_def RP_MISO_PIN_def RP_CS_PIN_def

type_synonym pins = "pico_trace \<Rightarrow> u32 \<Rightarrow> bool"

record rp_spi =
  rs_half_ns :: u32
  rs_cpol :: u8
  rs_cpha :: u8
  rs_log :: pico_trace

definition rp_spi_new :: "pico_trace \<Rightarrow> rp_spi" where
  "rp_spi_new lg = \<lparr>rs_half_ns = 0, rs_cpol = 0, rs_cpha = 0, rs_log = lg\<rparr>"

definition rp_set_sck :: "bool \<Rightarrow> pico_trace \<Rightarrow> pico_trace" where
  "rp_set_sck v lg = lg @ [Gpio_put RP_SCK_PIN v]"

definition rp_set_mosi :: "bool \<Rightarrow> pico_trace \<Rightarrow> pico_trace" where
  "rp_set_mosi v lg = lg @ [Gpio_put RP_MOSI_PIN v]"

definition rp_get_miso :: "pins \<Rightarrow> pico_trace \<Rightarrow> bool \<times> pico_trace" where
  "rp_get_miso pins lg = (let v = pins lg RP_MISO_PIN in (v, lg @ [Gpio_get RP_MISO_PIN v]))"

definition rp_spi_init :: "u32 \<Rightarrow> u8 \<Rightarrow> rp_spi \<Rightarrow> (spi_status \<times> rp_spi) option" where
  "rp_spi_init clock_hz mode ob =
     (if clock_hz = 0 \<or> 3 < mode then Some (Spi_HW_ERROR, ob)
      else
        let ob = ob\<lparr>rs_cpol := drop_bit 1 mode AND 1, rs_cpha := mode AND 1\<rparr>;
            half_period_ns = 500000000 div clock_hz;
            ob = ob\<lparr>rs_half_ns := (if half_period_ns < 1000 then 1000 else half_period_ns)\<rparr>;
            lg = rs_log ob @ [Gpio_init RP_SCK_PIN, Gpio_init RP_MOSI_PIN, Gpio_init RP_MISO_PIN,
              Gpio_init RP_CS_PIN, Gpio_put RP_CS_PIN True,
              Gpio_set_dir RP_SCK_PIN True, Gpio_set_dir RP_MOSI_PIN True,
              Gpio_set_dir RP_MISO_PIN False, Gpio_set_dir RP_CS_PIN True,
              Gpio_pull_up RP_MISO_PIN];
            lg = rp_set_sck (rs_cpol ob \<noteq> 0) lg;
            lg = lg @ [Gpio_put RP_CS_PIN True]
        in Some (Spi_OK, ob\<lparr>rs_log := lg\<rparr>))"

definition rp_half_us :: "rp_spi \<Rightarrow> u32" where
  "rp_half_us ob = rs_half_ns ob div 1000 + 1"

text \<open>The body of the bit loop.\<close>

definition rp_bit :: "pins \<Rightarrow> rp_spi \<Rightarrow> bool \<Rightarrow> u8 \<Rightarrow> pico_trace \<Rightarrow> u8 \<times> pico_trace" where
  "rp_bit pins ob mosi rxb lg =
     (let cpol = (rs_cpol ob \<noteq> 0);
          lg = rp_set_mosi mosi lg
      in if rs_cpha ob = 0 then
           let lg = lg @ [Sleep_us (rp_half_us ob)];
               lg = rp_set_sck (\<not> cpol) lg;
               (b, lg) = rp_get_miso pins lg;
               lg = lg @ [Sleep_us (rp_half_us ob)];
               lg = rp_set_sck cpol lg
           in (shift_in rxb b, lg)
         else
           let lg = rp_set_sck (\<not> cpol) lg;
               lg = lg @ [Sleep_us (rp_half_us ob)];
               lg = rp_set_sck cpol lg;
               (b, lg) = rp_get_miso pins lg;
               lg = lg @ [Sleep_us (rp_half_us ob)]
           in (shift_in rxb b, lg))"

definition rp_spi_transfer ::
  "pins \<Rightarrow> buf option \<Rightarrow> buf option \<Rightarrow> nat \<Rightarrow> u32 \<Rightarrow> rp_spi \<Rightarrow> (spi_status \<times> buf \<times> rp_spi) option"
where
  "rp_spi_transfer pins tx rx len timeout_ms ob =
     (case (tx, rx) of
        (Some t, Some r) \<Rightarrow> do {
          (r, lg) \<leftarrow> shift_bytes (rp_bit pins ob) t len 0 r (rs_log ob);
          Some (Spi_OK, r, ob\<lparr>rs_log := lg\<rparr>) }
      | (_, r) \<Rightarrow> Some (Spi_HW_ERROR, (case r of None \<Rightarrow> [] | Some r \<Rightarrow> r), ob))"

definition rp_log :: "pico_trace \<Rightarrow> rp_spi \<Rightarrow> rp_spi" where
  "rp_log evs ob = ob\<lparr>rs_log := rs_log ob @ evs\<rparr>"

definition rp_spi_select :: "u8 \<Rightarrow> rp_spi \<Rightarrow> (spi_status \<times> rp_spi) option" where
  "rp_spi_select i ob = Some (Spi_OK, rp_log [Gpio_put RP_CS_PIN False, Sleep_us 5] ob)"

definition rp_spi_deselect :: "u8 \<Rightarrow> rp_spi \<Rightarrow> (spi_status \<times> rp_spi) option" where
  "rp_spi_deselect i ob = Some (Spi_OK, rp_log [Sleep_us 5, Gpio_put RP_CS_PIN True, Sleep_us 5] ob)"

text \<open>The class as an \<^verbatim>\<open>ISpi\<close>.\<close>

definition rp_spi_dev :: "pins \<Rightarrow> rp_spi spi_dev" where
  "rp_spi_dev pins = \<lparr>spi_init = rp_spi_init, spi_transfer = rp_spi_transfer pins,
     spi_select = rp_spi_select, spi_deselect = rp_spi_deselect\<rparr>"

lemma rp_spi_dev_simps [simp]:
  "spi_init (rp_spi_dev pins) = rp_spi_init"
  "spi_transfer (rp_spi_dev pins) = rp_spi_transfer pins"
  "spi_select (rp_spi_dev pins) = rp_spi_select"
  "spi_deselect (rp_spi_dev pins) = rp_spi_deselect"
  by (simp_all add: rp_spi_dev_def)

subsection \<open>The log as pin events\<close>

definition wire_mask :: "u32 \<Rightarrow> u32" where
  "wire_mask p = (if p = RP_SCK_PIN then SCK_MASK else if p = RP_MOSI_PIN then MOSI_MASK
     else if p = RP_CS_PIN then CS_MASK else 0)"

fun on_wires :: "pico_trace \<Rightarrow> trace" where
  "on_wires [] = []"
| "on_wires (Gpio_put p v # lg) = Wr (if v then FIO2SET else FIO2CLR) (wire_mask p) # on_wires lg"
| "on_wires (Gpio_get p v # lg) =
     (if p = RP_MISO_PIN then [Rd FIO2PIN (if v then MISO_MASK else 0)] else []) @ on_wires lg"
| "on_wires (_ # lg) = on_wires lg"

lemma on_wires_append [simp]: "on_wires (lg @ lg') = on_wires lg @ on_wires lg'"
  by (induction lg rule: on_wires.induct) simp_all

text \<open>The LPC1768 object with the same clock polarity and phase.\<close>

definition as_bb :: "rp_spi \<Rightarrow> bb_spi" where
  "as_bb ob = \<lparr>bb_delay = 0, bb_cpol = rs_cpol ob, bb_cpha = rs_cpha ob, bb_pwron = 0, bb_hw = on_wires (rs_log ob)\<rparr>"

lemma as_bb_log [simp]:
  "sends (as_bb (ob\<lparr>rs_log := lg\<rparr>)) = sends (as_bb ob)"
  "frames_on (as_bb (ob\<lparr>rs_log := lg\<rparr>)) = frames_on (as_bb ob)"
  by (simp_all add: fun_eq_iff sends_def frames_on_def idle_clock_def sampling_edge_def as_bb_def)

text \<open>Events that send \<open>bits\<close>, read \<open>levels\<close> and do not touch the LED.\<close>

definition rp_sends :: "rp_spi \<Rightarrow> pico_trace \<Rightarrow> bool list \<Rightarrow> bool list \<Rightarrow> bool" where
  "rp_sends ob evs bits levels \<longleftrightarrow> pixels evs = [] \<and> sends (as_bb ob) (on_wires evs) bits levels"

lemma rp_bit_sends:
  "\<exists>evs b. rp_bit pins ob m rxb lg = (shift_in rxb b, lg @ evs) \<and> rp_sends ob evs [m] [b]"
  unfolding rp_bit_def rp_sends_def sends_def rp_set_sck_def rp_set_mosi_def rp_get_miso_def Let_def
  by (cases m; cases "rs_cpha ob = 0"; cases "rs_cpol ob = 0")
     (auto simp: miso_levels_def idle_clock_def sampling_edge_def wire_step_def pin_after_def as_bb_def
       Let_def bb_spi_regs rp_pins wire_mask_def)

interpretation rps: bit_shifter "rp_bit pins ob"
  "\<lambda>lg lg' bits levels. \<exists>evs. lg' = lg @ evs \<and> rp_sends ob evs bits levels" for pins ob
proof
  fix lg lg' lg'' :: pico_trace and bs ls bs' ls' m r
  show "\<exists>evs. lg = lg @ evs \<and> rp_sends ob evs [] []" by (simp add: rp_sends_def sends_Nil)
  show "\<exists>evs. lg'' = lg @ evs \<and> rp_sends ob evs (bs @ bs') (ls @ ls')"
    if "\<exists>evs. lg' = lg @ evs \<and> rp_sends ob evs bs ls"
      "\<exists>evs. lg'' = lg' @ evs \<and> rp_sends ob evs bs' ls'"
    using that sends_append unfolding rp_sends_def by fastforce
  show "\<exists>b s'. rp_bit pins ob m r lg = (shift_in r b, s') \<and>
      (\<exists>evs. s' = lg @ evs \<and> rp_sends ob evs [m] [b])"
    using rp_bit_sends [of pins ob m r lg] by blast
qed

lemma rp_transfer_sends:
  assumes "len \<le> length tx" and "len \<le> length rx"
  obtains rxs evs where
    "rp_spi_transfer pins (Some tx) (Some rx) len t ob = Some (Spi_OK, rxs @ drop len rx, rp_log evs ob)"
    "length rxs = len" "rp_sends ob evs (bytes_bits (take len tx)) (bytes_bits rxs)"
  using rps.bytes_sent [OF assms le0, of pins ob "rs_log ob"] that
  by (auto simp: rp_spi_transfer_def rp_log_def)

subsection \<open>The class meets the SPI contracts\<close>

definition rp_selected :: "rp_spi \<Rightarrow> bool" where
  "rp_selected ob \<longleftrightarrow> \<not> pin_level FIO2SET FIO2CLR CS_MASK True (on_wires (rs_log ob))"

interpretation rp: spi_infallible "rp_spi_dev pins" "\<lambda>_. True" for pins
proof
  fix s :: rp_spi and i n and tx rx :: buf and t st rx' s'
  show "\<exists>st s'. spi_select (rp_spi_dev pins) i s = Some (st, s') \<and> True"
    "\<exists>st s'. spi_deselect (rp_spi_dev pins) i s = Some (st, s') \<and> True"
    by (simp_all add: rp_spi_select_def rp_spi_deselect_def)
  show "st = Spi_OK" if "spi_select (rp_spi_dev pins) i s = Some (st, s')"
    using that by (simp add: rp_spi_select_def)
  assume n: "n \<le> length tx" "n \<le> length rx"
  show "\<exists>st rx' s'. spi_transfer (rp_spi_dev pins) (Some tx) (Some rx) n t s = Some (st, rx', s') \<and>
      length rx' = length rx \<and> True"
    by (rule rp_transfer_sends [OF n, of pins t s]) (use n in auto)
  show "st = Spi_OK"
    if "spi_transfer (rp_spi_dev pins) (Some tx) (Some rx) n 100 s = Some (st, rx', s')"
    by (rule rp_transfer_sends [OF n, of pins 100 s]) (use that in auto)
qed

interpretation rp: spi_selecting "rp_spi_dev pins" "\<lambda>_. True" rp_selected for pins
  by unfold_locales
     (auto simp: rp_spi_select_def rp_spi_deselect_def rp_selected_def rp_log_def wire_mask_def rp_pins bb_spi_regs)

lemma rp_transaction:
  assumes "n \<le> length tx" and "n \<le> length rx"
  obtains rxs evs where
    "spi_transaction (rp_spi_dev pins) i tx rx n ob = Some (True, rxs @ drop n rx, rp_log evs ob)"
    "length rxs = n" "bytes_bits rxs = miso_levels (on_wires evs)"
    "frames_on (as_bb ob) (on_wires evs) [bytes_bits (take n tx)]" "pixels evs = []"
proof -
  let ?pre = "[Gpio_put RP_CS_PIN False, Sleep_us 5]"
  let ?post = "[Sleep_us 5, Gpio_put RP_CS_PIN True, Sleep_us 5]"
  obtain rxs evs where t: "rp_spi_transfer pins (Some tx) (Some rx) n 100 (rp_log ?pre ob) =
      Some (Spi_OK, rxs @ drop n rx, rp_log evs (rp_log ?pre ob))" "length rxs = n"
    and s: "sends (as_bb ob) (on_wires evs) (bytes_bits (take n tx)) (bytes_bits rxs)" "pixels evs = []"
    by (rule rp_transfer_sends [OF assms, of pins 100 "rp_log ?pre ob"]) (auto simp: rp_log_def rp_sends_def)
  have w: "on_wires (?pre @ evs @ ?post) = Wr FIO2CLR CS_MASK # on_wires evs @ [Wr FIO2SET CS_MASK]"
    by (simp add: wire_mask_def rp_pins)
  show ?thesis
  proof (rule that)
    show "spi_transaction (rp_spi_dev pins) i tx rx n ob = Some (True, rxs @ drop n rx, rp_log (?pre @ evs @ ?post) ob)"
      using t by (simp add: spi_transaction_def SPI_TIMEOUT_MS_def rp_spi_select_def rp_spi_deselect_def)
        (simp add: rp_log_def)
    show "bytes_bits rxs = miso_levels (on_wires (?pre @ evs @ ?post))"
      using s(1) unfolding w by (simp add: sends_def miso_levels_def)
    show "frames_on (as_bb ob) (on_wires (?pre @ evs @ ?post)) [bytes_bits (take n tx)]"
      unfolding w by (rule frames_on_framed [OF s(1)])
    show "pixels (?pre @ evs @ ?post) = []" using s(2) by simp
  qed (fact t(2))
qed

definition rp_framed :: "rp_spi \<Rightarrow> rp_spi \<Rightarrow> buf list \<Rightarrow> buf list \<Rightarrow> bool" where
  "rp_framed ob ob' out inp \<longleftrightarrow> (\<exists>evs. ob' = rp_log evs ob \<and> pixels evs = [] \<and>
     frames_on (as_bb ob) (on_wires evs) (map bytes_bits out) \<and>
     miso_levels (on_wires evs) = concat (map bytes_bits inp))"

lemma rp_framed_silent:
  "on_wires evs = [] \<Longrightarrow> pixels evs = [] \<Longrightarrow> rp_framed ob (rp_log evs ob) [] []"
  unfolding rp_framed_def by (intro exI [of _ evs]) (simp add: frames_on_def)

interpretation rpf: spi_framed "rp_spi_dev pins" rp_framed for pins
proof
  fix n i and tx rx :: buf and s s' s'' :: rp_spi and xs ys xs' ys'
  show "rp_framed s s [] []"
    using rp_framed_silent [of "[]" s] by (simp add: rp_log_def)
  show "rp_framed s s'' (xs @ xs') (ys @ ys')" if f: "rp_framed s s' xs ys" "rp_framed s' s'' xs' ys'"
  proof -
    obtain e where 1: "s' = rp_log e s" "pixels e = []" "frames_on (as_bb s) (on_wires e) (map bytes_bits xs)"
      "miso_levels (on_wires e) = concat (map bytes_bits ys)"
      using f(1) unfolding rp_framed_def by (elim exE conjE) (rule that)
    obtain e' where 2: "s'' = rp_log e' s'" "pixels e' = []" "frames_on (as_bb s') (on_wires e') (map bytes_bits xs')"
      "miso_levels (on_wires e') = concat (map bytes_bits ys')"
      using f(2) unfolding rp_framed_def by (elim exE conjE) (rule that)
    show ?thesis
      unfolding rp_framed_def using 1 2 frames_on_append [OF 1(3), of "on_wires e'"]
      by (intro exI [of _ "e @ e'"]) (simp add: rp_log_def)
  qed
  show "\<exists>rxs s'. spi_transaction (rp_spi_dev pins) i tx rx n s = Some (True, rxs @ drop n rx, s') \<and>
      length rxs = n \<and> rp_framed s s' [take n tx] [rxs]" if "n \<le> length tx" "n \<le> length rx"
    by (rule rp_transaction [OF that, of pins i s]) (auto simp: rp_framed_def)
qed

end
