(* ===== verification/Can_Programs.thy ===== *)
theory Can_Programs
  imports Bitbang_Spi_Rp
begin

text \<open>
  The two RP2040 programs on the CAN controller: \<^verbatim>\<open>rp2040/can_node.cpp\<close> and
  \<^verbatim>\<open>rp2040/can_loopback_test.cpp\<close>. Each is its set-up and one turn of its infinite loop; the state is
  the SPI object with the log of SDK calls. The lemmas describe any number of turns: which frames
  the chip is shown, what the LED shows, and that every turn returns.
\<close>

subsection \<open>Shared code\<close>

definition delay_us_fn :: "u32 \<Rightarrow> rp_spi \<Rightarrow> rp_spi" where
  "delay_us_fn us ob = rp_log [Sleep_us us] ob"

text \<open>How the set-up ends: in the loop, or in the endless red blinking of a given period.\<close>

datatype boot = Running | Blinking u32

definition led_boot :: pico_trace where
  "led_boot = [Pio_setup WS2812_PIN 800000] @ boot_blinks 3"

text \<open>One turn of \<^verbatim>\<open>while (true) { put_pixel(red); sleep; put_pixel(0); sleep; }\<close>\<close>

definition error_blink :: "u32 \<Rightarrow> pico_trace" where
  "error_blink ms = put_pixel (rgb 32 0 0) @ [Sleep_ms ms] @ put_pixel 0 @ [Sleep_ms ms]"

definition can_set_up :: "pins \<Rightarrow> mode \<Rightarrow> u32 \<Rightarrow> u32 \<Rightarrow> pico_trace \<Rightarrow> (boot \<times> rp_spi) option" where
  "can_set_up pins m spi_ms can_ms lg = do {
     (st, ob) \<leftarrow> spi_init (rp_spi_dev pins) 1000000 0 (rp_spi_new (lg @ led_boot));
     if st \<noteq> Spi_OK then Some (Blinking spi_ms, ob)
     else do {
       (ok, ob) \<leftarrow> mcp_init (rp_spi_dev pins) 0 delay_us_fn 0xC1 0xA4 0x04 m 8000000 ob;
       Some (if ok then Running else Blinking can_ms, ob) } }"

subsection \<open>The CAN node\<close>

text \<open>Bit modify on \<^verbatim>\<open>CANCTRL\<close>: one-shot mode. The code of the LPC1768's node is the same.\<close>

definition one_shot :: "'s spi_dev \<Rightarrow> 's \<Rightarrow> 's option" where
  "one_shot dev s = do {
     (_, s) \<leftarrow> spi_select dev 0 s;
     (_, _, s) \<leftarrow> spi_transfer dev (Some [0x05, 0x0F, 0x08, 0x08]) (Some [0, 0, 0, 0]) 4 100 s;
     (_, s) \<leftarrow> spi_deselect dev 0 s;
     Some s }"

definition can_node_boot :: "pins \<Rightarrow> pico_trace \<Rightarrow> (boot \<times> rp_spi) option" where
  "can_node_boot pins lg = do {
     (b, ob) \<leftarrow> can_set_up pins NORMAL 200 100 lg;
     if b \<noteq> Running then Some (b, ob) else do { ob \<leftarrow> one_shot (rp_spi_dev pins) ob; Some (Running, ob) } }"

definition node_frame :: "u8 \<Rightarrow> frame" where
  "node_frame counter = frame_new\<lparr>f_id := 0x100, f_dlc := 1, f_data := (f_data frame_new)[0 := counter]\<rparr>"

definition from_lpc :: "frame \<Rightarrow> bool" where
  "from_lpc rx \<longleftrightarrow> f_id rx = 0x200 \<and> f_dlc rx = 1"

text \<open>\<^verbatim>\<open>for (int i = 0; i < 200; i++)\<close>, with the turns that are left.\<close>

fun can_listen :: "pins \<Rightarrow> nat \<Rightarrow> bool \<Rightarrow> rp_spi \<Rightarrow> (bool \<times> rp_spi) option" where
  "can_listen pins 0 heard ob = Some (heard, ob)"
| "can_listen pins (Suc n) heard ob = do {
     (ok, rx, ob) \<leftarrow> mcp_receive (rp_spi_dev pins) 0 frame_new ob;
     let heard = (if ok \<and> from_lpc rx then True else heard);
     can_listen pins n heard (rp_log [Sleep_ms 5] ob) }"

definition show_result :: "bool \<Rightarrow> pico_trace" where
  "show_result ok = put_pixel (if ok then rgb 0 32 0 else rgb 32 0 0) @ [Sleep_ms 50] @ put_pixel 0"

definition can_node_turn :: "pins \<Rightarrow> u8 \<Rightarrow> rp_spi \<Rightarrow> (u8 \<times> rp_spi) option" where
  "can_node_turn pins counter ob = do {
     (_, ob) \<leftarrow> mcp_send (rp_spi_dev pins) 0 (node_frame counter) ob;
     (heard, ob) \<leftarrow> can_listen pins 200 False ob;
     Some (counter + 1, rp_log (show_result heard) ob) }"

fun can_node_run :: "pins \<Rightarrow> nat \<Rightarrow> u8 \<Rightarrow> rp_spi \<Rightarrow> (u8 \<times> rp_spi) option" where
  "can_node_run pins 0 counter ob = Some (counter, ob)"
| "can_node_run pins (Suc n) counter ob = do {
     (counter, ob) \<leftarrow> can_node_turn pins counter ob; can_node_run pins n counter ob }"

subsection \<open>The loopback test\<close>

definition can_loopback_boot :: "pins \<Rightarrow> pico_trace \<Rightarrow> (boot \<times> rp_spi) option" where
  "can_loopback_boot pins lg = can_set_up pins LOOPBACK 100 50 lg"

definition loopback_frame :: "u16 \<Rightarrow> frame" where
  "loopback_frame sid = frame_new\<lparr>f_id := sid, f_dlc := 4,
     f_data := (f_data frame_new)[0 := 0xDE, 1 := 0xAD, 2 := 0xBE, 3 := 0xEF]\<rparr>"

text \<open>
  The exchange of one turn, over any SPI device: \<^verbatim>\<open>tests/mcp2515_loopback_test.cpp\<close> has the same code on the
  port of the LPC1768. First \<^verbatim>\<open>for (int i = 0; i < 1000 && !can.has_message(); i++) { }\<close>.
\<close>

fun wait_message :: "'s spi_dev \<Rightarrow> nat \<Rightarrow> 's \<Rightarrow> 's option" where
  "wait_message dev 0 s = Some s"
| "wait_message dev (Suc n) s = do {
     (b, s) \<leftarrow> mcp_has_message dev 0 s;
     if b then Some s else wait_message dev n s }"

text \<open>\<^verbatim>\<open>for (uint8_t i = 0; pass && i < tx.dlc; i++)\<close>\<close>

fun same_data :: "buf \<Rightarrow> buf \<Rightarrow> nat \<Rightarrow> nat \<Rightarrow> bool option" where
  "same_data a b i 0 = Some True"
| "same_data a b i (Suc n) = do {
     x \<leftarrow> rd8 a i; y \<leftarrow> rd8 b i;
     if x \<noteq> y then Some False else same_data a b (Suc i) n }"

definition loopback_check :: "'s spi_dev \<Rightarrow> frame \<Rightarrow> 's \<Rightarrow> (bool \<times> 's) option" where
  "loopback_check dev tx s = do {
     (sent, s) \<leftarrow> mcp_send dev 0 tx s;
     if \<not> sent then Some (False, s)
     else do {
       s \<leftarrow> wait_message dev 1000 s;
       (b, s) \<leftarrow> mcp_has_message dev 0 s;
       if \<not> b then Some (False, s)
       else do {
         (ok, rx, s) \<leftarrow> mcp_receive dev 0 frame_new s;
         if \<not> ok then Some (False, s)
         else if f_id rx = f_id tx \<and> f_dlc rx = f_dlc tx
         then do { pass \<leftarrow> same_data (f_data rx) (f_data tx) 0 (unat (f_dlc tx)); Some (pass, s) }
         else Some (False, s) } } }"

definition next_id :: "u16 \<Rightarrow> u16" where
  "next_id sid = (if sid = 0x7FF then 0x000 else sid + 1)"

definition can_loopback_turn :: "pins \<Rightarrow> u16 \<Rightarrow> rp_spi \<Rightarrow> (u16 \<times> rp_spi) option" where
  "can_loopback_turn pins sid ob = do {
     (pass, ob) \<leftarrow> loopback_check (rp_spi_dev pins) (loopback_frame sid) ob;
     Some (next_id sid, rp_log (show_result pass @ [Sleep_ms 950]) ob) }"

fun can_loopback_run :: "pins \<Rightarrow> nat \<Rightarrow> u16 \<Rightarrow> rp_spi \<Rightarrow> (u16 \<times> rp_spi) option" where
  "can_loopback_run pins 0 sid ob = Some (sid, ob)"
| "can_loopback_run pins (Suc n) sid ob = do {
     (sid, ob) \<leftarrow> can_loopback_turn pins sid ob; can_loopback_run pins n sid ob }"

text \<open>The states at the head of the loop, from the state \<open>ob0\<close> after the set-up.\<close>

inductive loopback_reach :: "pins \<Rightarrow> rp_spi \<Rightarrow> u16 \<Rightarrow> rp_spi \<Rightarrow> bool" for pins ob0 where
  loop_start: "loopback_reach pins ob0 0x100 ob0"
| loop_turn: "loopback_reach pins ob0 sid ob \<Longrightarrow> can_loopback_turn pins sid ob = Some (sid', ob') \<Longrightarrow>
    loopback_reach pins ob0 sid' ob'"

subsection \<open>Rounds of the node\<close>

lemma rp_log_simps [simp]:
  "rp_log [] ob = ob" "rp_log evs' (rp_log evs ob) = rp_log (evs @ evs') ob"
  by (simp_all add: rp_log_def)

lemma show_result_simps [simp]:
  "on_wires (show_result ok) = []"
  "pixels (show_result ok) = [push_bit 8 (if ok then rgb 0 32 0 else rgb 32 0 0), 0]"
  by (simp_all add: show_result_def put_pixel_def)

definition node_round :: "u8 \<Rightarrow> buf list" where
  "node_round counter = [tx_header (node_frame counter) @ tx_payload (node_frame counter), [0x81]] @
     replicate 200 (0x90 # replicate 13 0)"

text \<open>\<open>rounds c n\<close>: the frames of \<open>n\<close> rounds from the counter value \<open>c\<close>.\<close>

fun rounds :: "u8 \<Rightarrow> nat \<Rightarrow> buf list" where
  "rounds c 0 = []"
| "rounds c (Suc n) = node_round c @ rounds (c + 1) n"

lemma node_frame_ok: "frame_ok (node_frame c)"
  by (simp add: node_frame_def frame_ok_def frame_new_def)

lemma rp_framed_log:
  "rp_framed ob ob' out inp \<Longrightarrow> on_wires evs = [] \<Longrightarrow> pixels evs = [] \<Longrightarrow> rp_framed ob (rp_log evs ob') out inp"
  using rpf.framed_trans [OF _ rp_framed_silent, of ob ob' out inp evs] by simp

lemma listen_framed:
  "\<exists>ob' ys. can_listen pins n heard ob = Some (heard \<or> (\<exists>y \<in> set ys. from_lpc (rx_frame y)), ob') \<and>
     length ys = n \<and> (\<forall>y \<in> set ys. length y = 14) \<and> rp_framed ob ob' (replicate n (0x90 # replicate 13 0)) ys"
proof (induction n arbitrary: heard ob)
  case 0
  show ?case using rpf.framed_none by simp
next
  case (Suc n)
  obtain ob1 y where 1: "mcp_receive (rp_spi_dev pins) 0 frame_new ob = Some (True, rx_frame y, ob1)"
    "length y = 14" "rp_framed ob ob1 [0x90 # replicate 13 0] [y]"
    by (rule rpf.receive_framed [of frame_new pins 0 ob]) (auto simp: frame_new_def)
  let ?h = "if from_lpc (rx_frame y) then True else heard"
  have f: "rp_framed ob (rp_log [Sleep_ms 5] ob1) [0x90 # replicate 13 0] [y]"
    by (rule rp_framed_log [OF 1(3)]) simp_all
  obtain ob2 ys where 2: "can_listen pins n ?h (rp_log [Sleep_ms 5] ob1) =
      Some (?h \<or> (\<exists>y \<in> set ys. from_lpc (rx_frame y)), ob2)" "length ys = n" "\<forall>y \<in> set ys. length y = 14"
    "rp_framed (rp_log [Sleep_ms 5] ob1) ob2 (replicate n (0x90 # replicate 13 0)) ys"
    using Suc.IH by blast
  show ?case
    using 1(1,2) 2(1-3) rpf.framed_trans [OF f 2(4)]
    by (intro exI [of _ ob2] exI [of _ "y # ys"]) auto
qed

lemma node_turn_framed:
  "\<exists>evs inp ys. can_node_turn pins c ob = Some (c + 1, rp_log evs ob) \<and>
     frames_on (as_bb ob) (on_wires evs) (map bytes_bits (node_round c)) \<and>
     miso_levels (on_wires evs) = concat (map bytes_bits (inp @ ys)) \<and> length inp = 2 \<and> length ys = 200 \<and>
     pixels evs = [push_bit 8 (if \<exists>y \<in> set ys. from_lpc (rx_frame y) then rgb 0 32 0 else rgb 32 0 0), 0]"
proof -
  obtain ob1 y1 y2 where 1: "mcp_send (rp_spi_dev pins) 0 (node_frame c) ob = Some (True, ob1)"
    "rp_framed ob ob1 [tx_header (node_frame c) @ tx_payload (node_frame c), [0x81]] [y1, y2]"
    by (rule rpf.send_framed [OF node_frame_ok, of pins 0 c ob])
  obtain ob2 ys where 2: "can_listen pins 200 False ob1 = Some (\<exists>y \<in> set ys. from_lpc (rx_frame y), ob2)"
    "length ys = 200" "rp_framed ob1 ob2 (replicate 200 (0x90 # replicate 13 0)) ys"
    using listen_framed [of pins 200 False ob1] unfolding simp_thms by blast
  have "rp_framed ob ob2 (node_round c) ([y1, y2] @ ys)"
    unfolding node_round_def by (rule rpf.framed_trans [OF 1(2) 2(3)])
  then obtain evs where e: "ob2 = rp_log evs ob" "pixels evs = []"
    "frames_on (as_bb ob) (on_wires evs) (map bytes_bits (node_round c))"
    "miso_levels (on_wires evs) = concat (map bytes_bits ([y1, y2] @ ys))"
    unfolding rp_framed_def by (elim exE conjE)
  let ?r = "show_result (\<exists>y \<in> set ys. from_lpc (rx_frame y))"
  have "can_node_turn pins c ob = Some (c + 1, rp_log (evs @ ?r) ob)"
    using 1(1) 2(1) e(1) unfolding can_node_turn_def by simp
  moreover have "on_wires (evs @ ?r) = on_wires evs" by simp
  ultimately show ?thesis
    using e(2-4) 2(2) by (intro exI [of _ "evs @ ?r"] exI [of _ "[y1, y2]"] exI [of _ ys]) (simp del: map_append)
qed

definition led_result :: "bool \<Rightarrow> u32 list" where
  "led_result ok = [push_bit 8 (if ok then rgb 0 32 0 else rgb 32 0 0), 0]"

text \<open>The chip's answers of a round: to the two frames of the send, and to the 200 reads.\<close>

type_synonym answers = "buf list \<times> buf list"

definition heard_lpc :: "answers \<Rightarrow> bool" where
  "heard_lpc a \<longleftrightarrow> (\<exists>y \<in> set (snd a). from_lpc (rx_frame y))"

definition node_follows :: "rp_spi \<Rightarrow> pico_trace \<Rightarrow> u8 \<Rightarrow> answers list \<Rightarrow> bool" where
  "node_follows ob evs c as \<longleftrightarrow>
     frames_on (as_bb ob) (on_wires evs) (map bytes_bits (rounds c (length as))) \<and>
     miso_levels (on_wires evs) = concat (map (\<lambda>a. concat (map bytes_bits (fst a @ snd a))) as) \<and>
     pixels evs = concat (map (led_result \<circ> heard_lpc) as) \<and>
     list_all (\<lambda>a. length (fst a) = 2 \<and> length (snd a) = 200) as"

lemma node_run_follows:
  "\<exists>evs as. can_node_run pins n c ob = Some (c + of_nat n, rp_log evs ob) \<and> length as = n \<and>
     node_follows ob evs c as"
proof (induction n arbitrary: c ob)
  case 0
  show ?case
    by (intro exI [of _ "[]"]) (simp add: node_follows_def frames_on_def)
next
  case (Suc n)
  obtain e inp ys where 1: "can_node_turn pins c ob = Some (c + 1, rp_log e ob)"
    "frames_on (as_bb ob) (on_wires e) (map bytes_bits (node_round c))"
    "miso_levels (on_wires e) = concat (map bytes_bits (inp @ ys))" "length inp = 2" "length ys = 200"
    "pixels e = [push_bit 8 (if \<exists>y \<in> set ys. from_lpc (rx_frame y) then rgb 0 32 0 else rgb 32 0 0), 0]"
    using node_turn_framed [of pins c ob] by blast
  obtain e' as where 2: "can_node_run pins n (c + 1) (rp_log e ob) = Some (c + 1 + of_nat n, rp_log e' (rp_log e ob))"
    "length as = n" "node_follows (rp_log e ob) e' (c + 1) as"
    using Suc.IH by blast
  have "frames_on (as_bb (rp_log e ob)) = frames_on (as_bb ob)" by (simp add: rp_log_def)
  then have f: "frames_on (as_bb ob) (on_wires e @ on_wires e')
      (map bytes_bits (node_round c) @ map bytes_bits (rounds (c + 1) n))"
    using 2(2,3) by (intro frames_on_append [OF 1(2)]) (simp add: node_follows_def)
  have "can_node_run pins (Suc n) c ob = Some (c + of_nat (Suc n), rp_log (e @ e') ob)"
    using 1(1) 2(1) by (simp add: add.assoc)
  moreover have "node_follows ob (e @ e') c ((inp, ys) # as)"
    using 1(3-6) 2(2,3) f by (simp add: node_follows_def led_result_def heard_lpc_def)
  ultimately show ?case using 2(2) by (intro exI [of _ "e @ e'"] exI [of _ "(inp, ys) # as"]) simp
qed

lemma set_up_returns:
  obtains b ob where "can_set_up pins m spi_ms can_ms lg = Some (b, ob)" "b = Running \<or> b = Blinking can_ms"
proof -
  obtain ob1 where 1: "rp_spi_init 1000000 0 (rp_spi_new (lg @ led_boot)) = Some (Spi_OK, ob1)"
    by (simp add: rp_spi_init_def Let_def)
  obtain ok ob2 where "mcp_init (rp_spi_dev pins) 0 delay_us_fn 0xC1 0xA4 0x04 m 8000000 ob1 = Some (ok, ob2)"
    by (rule rp.plain.init_returns [where s = ob1 and delay = delay_us_fn and pins = pins and i = 0 and ?cnf1.0 = "0xC1" and
        ?cnf2.0 = "0xA4" and ?cnf3.0 = "0x04" and m = m and osc = 8000000]) auto
  with 1 show ?thesis by (intro that [of "if ok then Running else Blinking can_ms" ob2]) (auto simp: can_set_up_def)
qed

lemma one_shot_returns: "\<exists>ob'. one_shot (rp_spi_dev pins) ob = Some ob'"
proof -
  let ?ob = "rp_log [Gpio_put RP_CS_PIN False, Sleep_us 5] ob"
  obtain rxs evs where "rp_spi_transfer pins (Some [0x05, 0x0F, 0x08, 0x08]) (Some [0, 0, 0, 0]) 4 100 ?ob =
      Some (Spi_OK, rxs @ drop 4 [0, 0, 0, 0], rp_log evs ?ob)"
    by (rule rp_transfer_sends [of 4 "[0x05, 0x0F, 0x08, 0x08]" "[0, 0, 0, 0]" pins 100 ?ob]) auto
  then show ?thesis by (simp add: one_shot_def rp_spi_select_def rp_spi_deselect_def)
qed

subsection \<open>Turns of the loopback test\<close>

lemma loopback_frame_data: "f_data (loopback_frame sid) = [0xDE, 0xAD, 0xBE, 0xEF, 0, 0, 0, 0]"
  by (simp add: loopback_frame_def frame_new_def eval_nat_numeral)

lemma loopback_frame_simps [simp]: "f_id (loopback_frame sid) = sid" "f_dlc (loopback_frame sid) = 4"
  by (simp_all add: loopback_frame_def)

lemma loopback_frame_padded:
  "(loopback_frame sid)\<lparr>f_data := tx_payload (loopback_frame sid) @
     replicate (8 - unat (f_dlc (loopback_frame sid))) 0\<rparr> = loopback_frame sid"
proof -
  have "replicate 4 0 = [0, 0, 0, 0 :: u8]" by (simp add: eval_nat_numeral)
  then show ?thesis by (intro frame.equality) (simp_all add: tx_payload_def loopback_frame_data)
qed

lemma loopback_frame_ok: "sid \<le> 0x7FF \<Longrightarrow> frame_ok (loopback_frame sid)"
  by (simp add: frame_ok_def loopback_frame_data)

lemma next_id_bound: "sid \<le> 0x7FF \<Longrightarrow> next_id sid \<le> 0x7FF"
  by (auto simp: next_id_def inc_le order.not_eq_order_implies_strict)

lemma same_data_result:
  "i + n \<le> length a \<Longrightarrow> i + n \<le> length b \<Longrightarrow>
   same_data a b i n = Some (take n (drop i a) = take n (drop i b))"
  by (induction n arbitrary: i) (simp_all add: take_Suc_drop)

lemma wait_message_framed:
  "\<exists>k ob' ys. wait_message (rp_spi_dev pins) n ob = Some ob' \<and> k \<le> n \<and> length ys = k \<and>
     rp_framed ob ob' (replicate k [0x03, 0x2C, 0]) ys"
proof (induction n arbitrary: ob)
  case 0
  show ?case using rpf.framed_none [of ob] by (intro exI [of _ 0]) auto
next
  case (Suc n)
  obtain ob1 y where 1: "mcp_has_message (rp_spi_dev pins) 0 ob = Some (y ! 2 AND 0x01 \<noteq> 0, ob1)"
    "rp_framed ob ob1 [[0x03, 0x2C, 0]] [y]"
    by (rule rpf.has_message_framed [of pins 0 ob]) auto
  show ?case
  proof (cases "y ! 2 AND 0x01 \<noteq> 0")
    case True
    then show ?thesis using 1 by (intro exI [of _ 1] exI [of _ ob1] exI [of _ "[y]"]) simp
  next
    case False
    obtain k ob2 ys where 2: "wait_message (rp_spi_dev pins) n ob1 = Some ob2" "k \<le> n" "length ys = k"
      "rp_framed ob1 ob2 (replicate k [0x03, 0x2C, 0]) ys" using Suc.IH by blast
    show ?thesis
      using False 1(1) 2(1-3) rpf.framed_trans [OF 1(2) 2(4)]
      by (intro exI [of _ "Suc k"] exI [of _ ob2] exI [of _ "[y] @ ys"]) simp
  qed
qed

lemma rx_is_loopback:
  assumes "length y = 14"
  shows "rx_frame y = loopback_frame sid \<longleftrightarrow> f_id (rx_frame y) = sid \<and> f_dlc (rx_frame y) = 4 \<and>
    take 4 (f_data (rx_frame y)) = take 4 (f_data (loopback_frame sid))"
proof -
  have "drop 4 (f_data (rx_frame y)) = replicate 4 0" if "f_dlc (rx_frame y) = 4"
    using that assms by (simp add: rx_frame_def Let_def)
  moreover have "drop 4 (f_data (loopback_frame sid)) = replicate 4 0"
    by (simp add: loopback_frame_data eval_nat_numeral)
  ultimately have "f_data (rx_frame y) = f_data (loopback_frame sid)"
    if "f_dlc (rx_frame y) = 4" "take 4 (f_data (rx_frame y)) = take 4 (f_data (loopback_frame sid))"
    using that append_take_drop_id [of 4 "f_data (rx_frame y)"] append_take_drop_id [of 4 "f_data (loopback_frame sid)"]
    by metis
  then show ?thesis by (auto intro: frame.equality)
qed

text \<open>The frames of one turn: the send, \<open>k\<close> flag reads, and the read of the buffer if a flag was seen.\<close>

definition loopback_frames :: "u16 \<Rightarrow> nat \<Rightarrow> bool \<Rightarrow> buf list" where
  "loopback_frames sid k read =
     [tx_header (loopback_frame sid) @ tx_payload (loopback_frame sid), [0x81]] @
     replicate k [0x03, 0x2C, 0] @ (if read then [0x90 # replicate 13 0] else [])"

text \<open>Two answers to the send, one per flag read, and the buffer exactly if the last one has the flag.\<close>

definition flag_answers :: "nat \<Rightarrow> bool \<Rightarrow> buf list \<Rightarrow> bool" where
  "flag_answers k read inp \<longleftrightarrow> 1 \<le> k \<and> k \<le> 1001 \<and> length inp = 2 + k + (if read then 1 else 0) \<and>
     read = ((inp ! (k + 1)) ! 2 AND 0x01 \<noteq> 0)"

lemma loopback_check_framed:
  assumes "sid \<le> 0x7FF"
  shows "\<exists>k read inp ob'. loopback_check (rp_spi_dev pins) (loopback_frame sid) ob =
      Some (read \<and> rx_frame (last inp) = loopback_frame sid, ob') \<and> flag_answers k read inp \<and>
    rp_framed ob ob' (loopback_frames sid k read) inp"
proof -
  let ?f = "loopback_frame sid"
  obtain ob1 y1 y2 where 1: "mcp_send (rp_spi_dev pins) 0 ?f ob = Some (True, ob1)"
    "rp_framed ob ob1 [tx_header ?f @ tx_payload ?f, [0x81]] [y1, y2]"
    by (rule rpf.send_framed [OF loopback_frame_ok [OF assms], of pins 0 ob])
  obtain k ob2 ys where 2: "wait_message (rp_spi_dev pins) 1000 ob1 = Some ob2" "k \<le> 1000" "length ys = k"
    "rp_framed ob1 ob2 (replicate k [0x03, 0x2C, 0]) ys"
    using wait_message_framed by blast
  obtain ob3 y where 3: "mcp_has_message (rp_spi_dev pins) 0 ob2 = Some (y ! 2 AND 0x01 \<noteq> 0, ob3)"
    "rp_framed ob2 ob3 [[0x03, 0x2C, 0]] [y]"
    by (rule rpf.has_message_framed [of pins 0 ob2]) auto
  note f3 = rpf.framed_trans [OF rpf.framed_trans [OF 1(2) 2(4)] 3(2)]
  have rep: "replicate k x @ [x] = replicate (Suc k) x" for x :: buf by (simp add: replicate_append_same)
  show ?thesis
  proof (cases "y ! 2 AND 0x01 \<noteq> 0")
    case False
    then have "loopback_check (rp_spi_dev pins) ?f ob = Some (False, ob3)"
      using 1(1) 2(1) 3(1) by (simp add: loopback_check_def)
    moreover have "rp_framed ob ob3 (loopback_frames sid (Suc k) False) (([y1, y2] @ ys) @ [y])"
      using f3 unfolding loopback_frames_def rep [symmetric] by simp
    ultimately show ?thesis
      using 2(2,3) False
      by (intro exI [of _ "Suc k"] exI [of _ False] exI [of _ "([y1, y2] @ ys) @ [y]"] exI [of _ ob3])
        (simp add: flag_answers_def nth_append)
  next
    case True
    obtain ob4 z where 4: "mcp_receive (rp_spi_dev pins) 0 frame_new ob3 = Some (True, rx_frame z, ob4)"
      "length z = 14" "rp_framed ob3 ob4 [0x90 # replicate 13 0] [z]"
      by (rule rpf.receive_framed [of frame_new pins 0 ob3]) (auto simp: frame_new_def)
    have l: "length (f_data (rx_frame z)) = 8" using 4(2) rx_dlc_bound [of z]
      by (simp add: rx_frame_def Let_def word_le_nat_alt)
    have "same_data (f_data (rx_frame z)) (f_data ?f) 0 4 =
        Some (take 4 (f_data (rx_frame z)) = take 4 (f_data ?f))"
      using same_data_result [of 0 4 "f_data (rx_frame z)" "f_data ?f"] l by (simp add: loopback_frame_data)
    then have "loopback_check (rp_spi_dev pins) ?f ob = Some (rx_frame z = ?f, ob4)"
      using 1(1) 2(1) 3(1) True 4(1) rx_is_loopback [OF 4(2), of sid] by (auto simp: loopback_check_def)
    moreover have "rp_framed ob ob4 (loopback_frames sid (Suc k) True) ((([y1, y2] @ ys) @ [y]) @ [z])"
      using rpf.framed_trans [OF f3 4(3)] unfolding loopback_frames_def rep [symmetric] by simp
    ultimately show ?thesis
      using 2(2,3) True
      by (intro exI [of _ "Suc k"] exI [of _ True] exI [of _ "(([y1, y2] @ ys) @ [y]) @ [z]"] exI [of _ ob4])
        (simp add: flag_answers_def nth_append)
  qed
qed

definition loopback_follows :: "rp_spi \<Rightarrow> pico_trace \<Rightarrow> u16 \<Rightarrow> bool" where
  "loopback_follows ob evs sid \<longleftrightarrow> (\<exists>k read inp. flag_answers k read inp \<and>
     frames_on (as_bb ob) (on_wires evs) (map bytes_bits (loopback_frames sid k read)) \<and>
     miso_levels (on_wires evs) = concat (map bytes_bits inp) \<and>
     pixels evs = led_result (read \<and> rx_frame (last inp) = loopback_frame sid))"

lemma loopback_turn_follows:
  assumes "sid \<le> 0x7FF"
  shows "\<exists>evs. can_loopback_turn pins sid ob = Some (next_id sid, rp_log evs ob) \<and> loopback_follows ob evs sid"
proof -
  obtain k read inp ob' where c: "loopback_check (rp_spi_dev pins) (loopback_frame sid) ob =
      Some (read \<and> rx_frame (last inp) = loopback_frame sid, ob')" "flag_answers k read inp"
    "rp_framed ob ob' (loopback_frames sid k read) inp"
    using loopback_check_framed [OF assms, of pins ob] by blast
  then obtain e where e: "ob' = rp_log e ob" "pixels e = []"
    "frames_on (as_bb ob) (on_wires e) (map bytes_bits (loopback_frames sid k read))"
    "miso_levels (on_wires e) = concat (map bytes_bits inp)"
    unfolding rp_framed_def by (elim exE conjE)
  let ?evs = "e @ show_result (read \<and> rx_frame (last inp) = loopback_frame sid) @ [Sleep_ms 950]"
  have "loopback_follows ob ?evs sid"
    unfolding loopback_follows_def using c(2) e(2-4)
    by (intro exI [of _ k] exI [of _ read] exI [of _ inp]) (simp add: led_result_def)
  moreover have "can_loopback_turn pins sid ob = Some (next_id sid, rp_log ?evs ob)"
    using c(1) e(1) by (simp add: can_loopback_turn_def)
  ultimately show ?thesis by blast
qed

lemma loopback_invariant: "loopback_reach pins ob0 sid ob \<Longrightarrow> sid \<le> 0x7FF"
proof (induction rule: loopback_reach.induct)
  case (loop_turn sid ob sid' ob')
  with loopback_turn_follows [of sid pins ob] show ?case by (auto dest: next_id_bound)
qed simp

subsection \<open>Properties\<close>

text \<open>
  The CAN node never stops: for every chip and every behaviour of the bus its set-up returns, into the
  red blinking or into the loop, and then every number of rounds is completed. The chip is shown
  exactly the frames of those rounds: the counter frame (whose counter goes up by one per round and
  wraps), the request to send, and 200 reads of the receive buffer; and the LED is green in exactly
  the rounds in which one of the 200 answers decodes to identifier 0x200 with one byte.
\<close>

theorem can_node_rounds:
  "\<exists>b ob. can_node_boot pins lg = Some (b, ob) \<and> (b = Blinking 100 \<or> b = Running \<and>
     (\<forall>n. \<exists>evs as. can_node_run pins n 0 ob = Some (of_nat n, rp_log evs ob) \<and> length as = n \<and>
        node_follows ob evs 0 as))"
proof -
  obtain b ob where 1: "can_set_up pins NORMAL 200 100 lg = Some (b, ob)" "b = Running \<or> b = Blinking 100"
    by (rule set_up_returns)
  obtain ob' where 2: "one_shot (rp_spi_dev pins) ob = Some ob'" using one_shot_returns by blast
  note run = node_run_follows [of pins _ 0, unfolded add_0]
  show ?thesis
  proof (cases "b = Running")
    case True
    then have "can_node_boot pins lg = Some (Running, ob')" using 1(1) 2 by (simp add: can_node_boot_def)
    then show ?thesis using run by blast
  next
    case False
    then have "can_node_boot pins lg = Some (Blinking 100, ob)" using 1 by (simp add: can_node_boot_def)
    then show ?thesis by blast
  qed
qed

text \<open>
  In every state the loopback test reaches, whatever the chip answers, the identifier is a valid
  11-bit one, so no send is refused, and the next turn returns. It shows the chip the frame with that
  identifier, at most 1001 reads of the interrupt flags, and a read of the receive buffer only
  after a flag was seen; the LED is green exactly when the last answer decodes to the frame sent;
  and the identifiers run through 0x000 to 0x7FF in order.
\<close>

theorem loopback_ids_valid:
  assumes "loopback_reach pins ob0 sid ob"
  shows "sid \<le> 0x7FF \<and> frame_ok (loopback_frame sid) \<and>
    (\<exists>evs. can_loopback_turn pins sid ob = Some (of_nat (Suc (unat sid) mod 0x800), rp_log evs ob) \<and>
      loopback_follows ob evs sid)"
proof -
  have b: "sid \<le> 0x7FF" using loopback_invariant [OF assms] .
  have "next_id sid = of_nat (Suc (unat sid) mod 0x800)"
  proof (cases "sid = 0x7FF")
    case False
    with b have "unat sid < 0x7FF" by (simp add: word_le_nat_alt word_unat_eq_iff)
    then show ?thesis using False by (simp add: next_id_def add.commute)
  qed (simp add: next_id_def)
  with loopback_turn_follows [OF b, of pins ob] loopback_frame_ok [OF b] b show ?thesis by simp
qed

theorem loopback_ids_valid_witness:
  "\<exists>evs. can_loopback_turn (\<lambda>_ _. False) 0x100 (rp_spi_new []) = Some (0x101, rp_log evs (rp_spi_new []))"
  using loopback_ids_valid [OF loop_start, of "\<lambda>_ _. False" "rp_spi_new []"] by auto

end
