(* ===== verification/Echo_Responder.thy ===== *)
theory Echo_Responder
  imports Rs485_Lpc Pico
begin

text \<open>
  \<^verbatim>\<open>rp2040/echo_responder.cpp\<close>, the byte echo on the RP2040, and \<^verbatim>\<open>tests/rs485_test.cpp\<close>, the program on the
  LPC1768 that is run against it, as its set-up and one turn of its loop. The lemmas show that the echo
  puts every byte back on the line and keeps the driver off otherwise, that the UART port
  returns what has arrived, and that the two programs together pass their test round after round.
\<close>

subsection \<open>The echo\<close>

definition ECHO_DE_PIN :: u32 where "ECHO_DE_PIN = 6"

definition set_de_tx :: pico_trace where
  "set_de_tx = [Gpio_put ECHO_DE_PIN True]"

definition set_de_rx :: pico_trace where
  "set_de_rx = [Uart_tx_wait, Gpio_put ECHO_DE_PIN False]"

definition echo_boot :: pico_trace where
  "echo_boot = [Pio_setup WS2812_PIN 800000] @ boot_blinks 3 @
     [Uart_init 115200, Gpio_set_function 4, Gpio_set_function 5,
      Gpio_init ECHO_DE_PIN, Gpio_set_dir ECHO_DE_PIN True, Gpio_put ECHO_DE_PIN False]"

text \<open>The loop body for a byte that is there; without one it does nothing.\<close>

definition echo_byte :: "u8 \<Rightarrow> pico_trace" where
  "echo_byte b = put_pixel (rgb 0 32 0) @ set_de_tx @ [Uart_write [b]] @ set_de_rx @ put_pixel 0"

fun echo_run :: "buf \<Rightarrow> pico_trace" where
  "echo_run [] = []"
| "echo_run (b # bs) = echo_byte b @ echo_run bs"

text \<open>The same as the machine at the other end of a line.\<close>

definition echo_machine :: "unit \<Rightarrow> u8 \<Rightarrow> buf \<times> unit" where
  "echo_machine m b = (bus_bytes ECHO_DE_PIN False (echo_byte b), m)"

lemma echo_byte_bus [simp]:
  "bus_bytes ECHO_DE_PIN False (echo_byte b) = [b]" "bus_driven ECHO_DE_PIN de (echo_byte b) = False"
  by (simp_all add: echo_byte_def set_de_tx_def set_de_rx_def)

lemma boot_blinks_bus [simp]:
  "bus_bytes pin de (boot_blinks n) = []" "bus_driven pin de (boot_blinks n) = de"
  by (induction n) simp_all

lemma echo_run_bus: "bus_bytes ECHO_DE_PIN False (echo_run bs) = bs \<and> \<not> bus_driven ECHO_DE_PIN False (echo_run bs)"
  by (induction bs) simp_all

lemma echo_program_bus:
  "bus_bytes ECHO_DE_PIN de (echo_boot @ echo_run bs) = bs" "\<not> bus_driven ECHO_DE_PIN de (echo_boot @ echo_run bs)"
  using echo_run_bus [of bs] by (simp_all add: echo_boot_def)

lemma echo_machine_out [simp]: "machine_out echo_machine m bs = bs"
  by (induction bs arbitrary: m) (simp_all add: echo_machine_def)

abbreviation echo_peer :: "buf \<Rightarrow> buf" where
  "echo_peer \<equiv> machine_peer echo_machine () []"

lemma echo_peer_simp [simp]: "echo_peer xs = xs"
  by (simp add: machine_peer_def)

subsection \<open>The test program\<close>

definition HIL_PINSEL3 :: u32 where "HIL_PINSEL3 = 0x4002C00C"
definition HIL_FIO1DIR :: u32 where "HIL_FIO1DIR = 0x2009C020"
definition HIL_FIO1PIN :: u32 where "HIL_FIO1PIN = 0x2009C034"
definition HIL_FIO1SET :: u32 where "HIL_FIO1SET = 0x2009C038"
definition HIL_FIO1CLR :: u32 where "HIL_FIO1CLR = 0x2009C03C"
definition HIL_LED1 :: u32 where "HIL_LED1 = push_bit 18 1"
definition HIL_LED4 :: u32 where "HIL_LED4 = push_bit 23 1"

lemmas hil_regs = HIL_PINSEL3_def HIL_FIO1DIR_def HIL_FIO1PIN_def HIL_FIO1SET_def HIL_FIO1CLR_def

definition hil_set_up :: "env \<Rightarrow> trace \<Rightarrow> (status \<times> trace) option" where
  "hil_set_up env tr =
     (let tr = reg_clear env HIL_PINSEL3 (push_bit 4 3 OR push_bit 14 3) tr;
          tr = reg_or env HIL_FIO1DIR (HIL_LED1 OR HIL_LED4) tr;
          tr = reg_wr HIL_FIO1CLR (HIL_LED1 OR HIL_LED4) tr
      in do {
        (st, tr) \<leftarrow> rs_init (lpc_rs_dev env) 115200 tr;
        Some (st, if st \<noteq> St_OK then reg_wr HIL_FIO1SET (HIL_LED1 OR HIL_LED4) tr else tr) })"

definition hil_pattern :: "u8 \<Rightarrow> buf" where
  "hil_pattern sq = [0x55, 0xAA, sq, NOT sq, 0x01, 0x02, 0x03, 0x04]"

text \<open>\<^verbatim>\<open>for (i = 0; i < sizeof(tx); i++) if (rx[i] != tx[i]) { pass = false; break; }\<close>\<close>

fun hil_compare :: "buf \<Rightarrow> buf \<Rightarrow> nat \<Rightarrow> nat \<Rightarrow> bool option" where
  "hil_compare rx tx i 0 = Some True"
| "hil_compare rx tx i (Suc n) = do {
     x \<leftarrow> rd8 rx i; y \<leftarrow> rd8 tx i;
     if x \<noteq> y then Some False else hil_compare rx tx (Suc i) n }"

definition hil_exchange :: "env \<Rightarrow> buf \<Rightarrow> trace \<Rightarrow> (bool \<times> trace) option" where
  "hil_exchange env tx tr = do {
     (st, tr) \<leftarrow> rs_send (lpc_rs_dev env) (Some tx) 8 100 tr;
     if st \<noteq> St_OK then Some (False, tr)
     else do {
       (st, rx, rx_len, tr) \<leftarrow> rs_recv (lpc_rs_dev env) (Some (replicate 8 0)) 8 100 tr;
       if st = St_OK \<and> rx_len = 8 then do { pass \<leftarrow> hil_compare rx tx 0 8; Some (pass, tr) }
       else Some (False, tr) } }"

definition hil_turn :: "env \<Rightarrow> u8 \<Rightarrow> trace \<Rightarrow> (u8 \<times> trace) option" where
  "hil_turn env sq tr = do {
     (pass, tr) \<leftarrow> hil_exchange env (hil_pattern sq) tr;
     let tr = (if pass then reg_wr HIL_FIO1CLR HIL_LED4 (reg_update env HIL_FIO1PIN (\<lambda>v. v XOR HIL_LED1) tr)
               else reg_wr HIL_FIO1SET HIL_LED4 tr);
     Some (sq + 1, tr @ [Spin 10000000]) }"

fun hil_run :: "env \<Rightarrow> nat \<Rightarrow> u8 \<Rightarrow> trace \<Rightarrow> (u8 \<times> trace) option" where
  "hil_run env 0 sq tr = Some (sq, tr)"
| "hil_run env (Suc n) sq tr = do { (sq, tr) \<leftarrow> hil_turn env sq tr; hil_run env n sq tr }"

subsection \<open>Reading several bytes\<close>

lemma recv_loop_pending:
  assumes "0 < t"
  shows "\<not> p_dlab (port_of tr) \<Longrightarrow> i \<le> len \<Longrightarrow> len \<le> length d \<Longrightarrow>
    p_got (port_of tr) + (len - i) \<le> length (peer (p_out (port_of tr))) \<Longrightarrow>
    \<exists>tr'. recv_loop (uart_env peer env0) len t d i e tr =
        Some (take i d @ take (len - i) (drop (p_got (port_of tr)) (peer (p_out (port_of tr)))) @ drop len d, len, tr') \<and>
      port_of tr' = (port_of tr)\<lparr>p_got := p_got (port_of tr) + (len - i)\<rparr> \<and> writes tr' = writes tr"
proof (induction "len - i" arbitrary: i d e tr)
  case 0
  then show ?case by (subst recv_loop.simps) simp
next
  case (Suc n)
  then have i: "i < len" "n = len - Suc i" "len - i = Suc n" by simp_all
  let ?env = "uart_env peer env0" and ?g = "p_got (port_of tr)" and ?q = "peer (p_out (port_of tr))"
  let ?t1 = "tr @ [Rd U2LSR (ucast (ucast (?env tr U2LSR) :: u8))]"
  have p1: "port_of ?t1 = port_of tr" by (simp add: rs485_regs)
  have lt: "?g < length ?q" using Suc.prems(4) i(3) by simp
  have b: "(ucast (?env ?t1 U2RBR) :: u8) = ?q ! ?g"
    using uart_env_rbr [of ?t1 peer env0] lt unfolding p1 by simp
  let ?t2 = "?t1 @ [Rd U2RBR (ucast (?q ! ?g))]"
  have p2: "port_of ?t2 = (port_of tr)\<lparr>p_got := Suc ?g\<rparr>"
    using p1 Suc.prems(1) by (simp only: port_of_simps port_step.simps) simp
  have av: "(ucast (?env tr U2LSR) :: u8) AND LSR_RDR \<noteq> 0"
    using uart_env_lsr(3) [of peer env0 tr] lt by simp
  have "recv_loop ?env len t d i e tr = recv_loop ?env len t (d[i := ?q ! ?g]) (Suc i) 0 ?t2"
    using av b i(1) Suc.prems(3) by (subst recv_loop.simps) (simp add: rx_available_def read_byte_def)
  moreover have "take (Suc i) (d[i := ?q ! ?g]) = take i d @ [?q ! ?g]"
    using i(1) Suc.prems(3) by (intro take_update_last) simp
  moreover have "take (Suc n) (drop ?g ?q) = ?q ! ?g # take n (drop (Suc ?g) ?q)"
    using lt by (rule take_Suc_drop)
  ultimately show ?case
    using Suc.hyps(1) [OF i(2), of ?t2 "d[i := ?q ! ?g]" 0] Suc.prems i(1,2) unfolding i(3) p2 by simp
qed

lemma port_recv_pending:
  assumes "0 < t" "0 < len" "len \<le> length d" "\<not> p_dlab (port_of tr)"
    and "p_got (port_of tr) + len \<le> length (peer (p_out (port_of tr)))"
  shows "\<exists>tr'. lpc_rs_recv (uart_env peer env0) (Some d) len t tr = Some (St_OK,
      take len (drop (p_got (port_of tr)) (peer (p_out (port_of tr)))) @ drop len d, len, tr') \<and>
    port_of tr' = (port_of tr)\<lparr>p_de := False, p_got := p_got (port_of tr) + len\<rparr> \<and>
    writes tr' = writes tr @ [(FIO0CLR, DE_MASK)]"
proof -
  have p0: "port_of (set_rx_mode tr) = (port_of tr)\<lparr>p_de := False\<rparr>" by (simp add: set_rx_mode_def rs485_regs)
  show ?thesis
    using recv_loop_pending [OF assms(1), of "set_rx_mode tr" 0 len d peer env0 0] assms(2-5)
    unfolding p0 by (auto simp: lpc_rs_recv_def Let_def set_rx_mode_def)
qed

lemma hil_compare_result:
  "i + n \<le> length a \<Longrightarrow> i + n \<le> length b \<Longrightarrow>
   hil_compare a b i n = Some (take n (drop i a) = take n (drop i b))"
  by (induction n arbitrary: i) (simp_all add: take_Suc_drop)

subsection \<open>The two programs together\<close>

text \<open>Everything the echo has sent is taken: the two programs are between two rounds.\<close>

definition echo_idle :: "trace \<Rightarrow> bool" where
  "echo_idle tr \<longleftrightarrow> \<not> p_dlab (port_of tr) \<and> p_got (port_of tr) = length (p_out (port_of tr))"

fun hil_patterns :: "u8 \<Rightarrow> nat \<Rightarrow> buf" where
  "hil_patterns sq 0 = []"
| "hil_patterns sq (Suc n) = hil_pattern sq @ hil_patterns (sq + 1) n"

definition fail_led :: "trace \<Rightarrow> bool" where
  "fail_led tr = pin_level HIL_FIO1SET HIL_FIO1CLR HIL_LED4 False tr"

lemma hil_exchange_passes:
  assumes "echo_idle tr" and "length tx = 8"
  shows "\<exists>tr'. hil_exchange (uart_env echo_peer env0) tx tr = Some (True, tr') \<and>
    port_of tr' = (port_of tr)\<lparr>p_de := False, p_out := p_out (port_of tr) @ tx, p_got := p_got (port_of tr) + 8\<rparr>"
proof -
  obtain t1 where 1: "lpc_rs_send (uart_env echo_peer env0) (Some tx) 8 100 tr = Some (St_OK, t1)"
    "port_of t1 = (port_of tr)\<lparr>p_de := False, p_out := p_out (port_of tr) @ tx\<rparr>"
    using port_send [of tr 8 tx echo_peer env0 100] assms by (auto simp: echo_idle_def)
  have q: "drop (p_got (port_of t1)) (echo_peer (p_out (port_of t1))) = tx"
    using 1(2) assms(1) by (simp add: echo_idle_def)
  obtain t2 where 2: "lpc_rs_recv (uart_env echo_peer env0) (Some (replicate 8 0)) 8 100 t1 =
      Some (St_OK, take 8 tx @ drop 8 (replicate 8 0), 8, t2)"
    "port_of t2 = (port_of t1)\<lparr>p_de := False, p_got := p_got (port_of t1) + 8\<rparr>"
    using port_recv_pending [of 100 8 "replicate 8 0" t1 echo_peer env0, unfolded q] 1(2) assms
    by (auto simp: echo_idle_def)
  have "hil_compare tx tx 0 8 = Some True" using hil_compare_result [of 0 8 tx tx] assms(2) by simp
  then have "hil_exchange (uart_env echo_peer env0) tx tr = Some (True, t2)"
    using 1(1) 2(1) assms(2) by (simp add: hil_exchange_def lpc_rs_dev_def)
  then show ?thesis using 1(2) 2(2) by auto
qed

lemma hil_turn_passes:
  assumes "echo_idle tr"
  shows "\<exists>tr'. hil_turn (uart_env echo_peer env0) sq tr = Some (sq + 1, tr') \<and> echo_idle tr' \<and>
    p_out (port_of tr') = p_out (port_of tr) @ hil_pattern sq \<and> \<not> fail_led tr'"
proof -
  have l: "length (hil_pattern sq) = 8" by (simp add: hil_pattern_def)
  obtain t1 where 1: "hil_exchange (uart_env echo_peer env0) (hil_pattern sq) tr = Some (True, t1)"
    "port_of t1 = (port_of tr)\<lparr>p_de := False, p_out := p_out (port_of tr) @ hil_pattern sq,
       p_got := p_got (port_of tr) + 8\<rparr>"
    using hil_exchange_passes [OF assms l] by blast
  let ?v = "uart_env echo_peer env0 t1 HIL_FIO1PIN"
  let ?t2 = "t1 @ [Rd HIL_FIO1PIN ?v, Wr HIL_FIO1PIN (?v XOR HIL_LED1), Wr HIL_FIO1CLR HIL_LED4, Spin 10000000]"
  have p: "port_of ?t2 = port_of t1" by (simp add: rs485_regs hil_regs)
  have "\<not> fail_led ?t2" by (simp add: fail_led_def hil_regs HIL_LED4_def)
  moreover have "hil_turn (uart_env echo_peer env0) sq tr = Some (sq + 1, ?t2)"
    using 1(1) by (simp add: hil_turn_def Let_def)
  moreover have "echo_idle ?t2" using assms l unfolding echo_idle_def p 1(2) by simp
  moreover have "p_out (port_of ?t2) = p_out (port_of tr) @ hil_pattern sq" unfolding p 1(2) by simp
  ultimately show ?thesis by blast
qed

lemma hil_run_passes:
  "echo_idle tr \<Longrightarrow> \<not> fail_led tr \<Longrightarrow>
   \<exists>tr'. hil_run (uart_env echo_peer env0) n sq tr = Some (sq + of_nat n, tr') \<and> echo_idle tr' \<and>
     p_out (port_of tr') = p_out (port_of tr) @ hil_patterns sq n \<and> \<not> fail_led tr'"
proof (induction n arbitrary: sq tr)
  case (Suc n)
  obtain t1 where 1: "hil_turn (uart_env echo_peer env0) sq tr = Some (sq + 1, t1)" "echo_idle t1"
    "p_out (port_of t1) = p_out (port_of tr) @ hil_pattern sq" "\<not> fail_led t1"
    using hil_turn_passes [OF Suc.prems(1)] by blast
  obtain t2 where "hil_run (uart_env echo_peer env0) n (sq + 1) t1 = Some (sq + 1 + of_nat n, t2)" "echo_idle t2"
    "p_out (port_of t2) = p_out (port_of t1) @ hil_patterns (sq + 1) n" "\<not> fail_led t2"
    using Suc.IH [OF 1(2,4)] by blast
  then show ?case
    using 1(1,3) by (intro exI [of _ t2]) (simp del: echo_peer_simp add: add.assoc)
qed simp

text \<open>
  C27: the two programs, connected, pass every round: for every number of rounds the test program on the
  UART port returns from each, has sent the patterns of the rounds and got every one of them back, and the fail
  LED is off; the echo has put exactly the bytes it was sent on the line and leaves its driver off.
\<close>

theorem hil_echo_passes:
  assumes "echo_idle tr" and "\<not> fail_led tr"
  shows "\<exists>tr'. hil_run (uart_env echo_peer env0) n sq tr = Some (sq + of_nat n, tr') \<and> echo_idle tr' \<and>
    p_out (port_of tr') = p_out (port_of tr) @ hil_patterns sq n \<and> \<not> fail_led tr' \<and>
    bus_bytes ECHO_DE_PIN de (echo_boot @ echo_run (hil_patterns sq n)) = hil_patterns sq n \<and>
    \<not> bus_driven ECHO_DE_PIN de (echo_boot @ echo_run (hil_patterns sq n))"
  using hil_run_passes [OF assms, of env0 n sq] echo_program_bus by blast

theorem hil_echo_passes_witness:
  "\<exists>tr'. hil_run (uart_env echo_peer (\<lambda>_ _. 0)) 2 0 [] = Some (2, tr') \<and>
     p_out (port_of tr') = hil_pattern 0 @ hil_pattern 1"
proof -
  have "echo_idle []" "\<not> fail_led []" by (simp_all add: echo_idle_def fail_led_def port_reset_def)
  from hil_echo_passes [OF this, of "\<lambda>_ _. 0" 2 0 False] show ?thesis
    by (auto simp del: hil_run.simps simp: numeral_2_eq_2 port_reset_def)
qed

end
