(* ===== verification/Spi_Rp.thy ===== *)
theory Spi_Rp
  imports Mcp2515 Pico
begin

text \<open>
  \<^verbatim>\<open>rp2040/spi_rp2040.cpp\<close> and \<^verbatim>\<open>.hpp\<close>: the SPI port over the Pico SDK's \<^verbatim>\<open>hardware_spi\<close>. The class has no
  fields; its state is the log of SDK calls. \<^verbatim>\<open>spi_write_read_blocking\<close> belongs to the SDK and is a
  parameter: the count it returns and the bytes it stores, any function of the log and the
  bytes it is given. It blocks until the transfer is complete, so it has a result. The port is shown to meet
  the SPI contracts for every such function.
\<close>

subsection \<open>The code\<close>

definition HW_SCK_PIN :: u32 where "HW_SCK_PIN = 2"
definition HW_MOSI_PIN :: u32 where "HW_MOSI_PIN = 3"
definition HW_MISO_PIN :: u32 where "HW_MISO_PIN = 4"
definition HW_CS_PIN :: u32 where "HW_CS_PIN = 5"

type_synonym spi_sdk = "pico_trace \<Rightarrow> buf \<Rightarrow> int \<times> (nat \<Rightarrow> u8)"

definition hw_spi_init :: "u32 \<Rightarrow> u8 \<Rightarrow> pico_trace \<Rightarrow> (spi_status \<times> pico_trace) option" where
  "hw_spi_init clock_hz mode lg =
     (if clock_hz = 0 \<or> 3 < mode then Some (Spi_HW_ERROR, lg)
      else
        let lg = lg @ [Spi_init clock_hz];
            cpol = (mode AND 2 \<noteq> 0);
            cpha = (mode AND 1 \<noteq> 0);
            lg = lg @ [Spi_set_format cpol cpha,
              Gpio_set_function HW_SCK_PIN, Gpio_set_function HW_MOSI_PIN, Gpio_set_function HW_MISO_PIN,
              Gpio_init HW_CS_PIN, Gpio_set_dir HW_CS_PIN True, Gpio_put HW_CS_PIN True]
        in Some (Spi_OK, lg))"

text \<open>
  \<^verbatim>\<open>static_cast<int>(len)\<close> is the signed 32-bit value. The call reads \<open>len\<close> bytes of \<open>tx\<close> and writes as
  many of \<open>rx\<close>.
\<close>

definition hw_spi_transfer ::
  "spi_sdk \<Rightarrow> buf option \<Rightarrow> buf option \<Rightarrow> nat \<Rightarrow> u32 \<Rightarrow> pico_trace \<Rightarrow> (spi_status \<times> buf \<times> pico_trace) option"
where
  "hw_spi_transfer sdk tx rx len timeout_ms lg =
     (case (tx, rx) of
        (Some t, Some r) \<Rightarrow>
          if len \<le> length t \<and> len \<le> length r then
            let (written, bytes) = sdk lg (take len t);
                lg = lg @ [Spi_write_read (take len t)];
                r = map bytes [0..<len] @ drop len r
            in Some (if written = sint (of_nat len :: u32) then Spi_OK else Spi_HW_ERROR, r, lg)
          else None
      | (_, r) \<Rightarrow> Some (Spi_HW_ERROR, (case r of None \<Rightarrow> [] | Some r \<Rightarrow> r), lg))"

definition hw_spi_select :: "u8 \<Rightarrow> pico_trace \<Rightarrow> (spi_status \<times> pico_trace) option" where
  "hw_spi_select i lg = Some (Spi_OK, lg @ [Gpio_put HW_CS_PIN False, Sleep_us 5])"

definition hw_spi_deselect :: "u8 \<Rightarrow> pico_trace \<Rightarrow> (spi_status \<times> pico_trace) option" where
  "hw_spi_deselect i lg = Some (Spi_OK, lg @ [Sleep_us 5, Gpio_put HW_CS_PIN True, Sleep_us 5])"

text \<open>The class as an \<^verbatim>\<open>ISpi\<close>.\<close>

definition hw_spi_dev :: "spi_sdk \<Rightarrow> pico_trace spi_dev" where
  "hw_spi_dev sdk = \<lparr>spi_init = hw_spi_init, spi_transfer = hw_spi_transfer sdk,
     spi_select = hw_spi_select, spi_deselect = hw_spi_deselect\<rparr>"

lemma hw_spi_dev_simps [simp]:
  "spi_init (hw_spi_dev sdk) = hw_spi_init"
  "spi_transfer (hw_spi_dev sdk) = hw_spi_transfer sdk"
  "spi_select (hw_spi_dev sdk) = hw_spi_select"
  "spi_deselect (hw_spi_dev sdk) = hw_spi_deselect"
  by (simp_all add: hw_spi_dev_def)

subsection \<open>The port meets the SPI contracts\<close>

text \<open>Chip select is driven low.\<close>

fun gpio_level :: "u32 \<Rightarrow> bool \<Rightarrow> pico_trace \<Rightarrow> bool" where
  "gpio_level pin lvl [] = lvl"
| "gpio_level pin lvl (Gpio_put p v # lg) = gpio_level pin (if p = pin then v else lvl) lg"
| "gpio_level pin lvl (_ # lg) = gpio_level pin lvl lg"

lemma gpio_level_append [simp]:
  "gpio_level pin lvl (lg @ lg') = gpio_level pin (gpio_level pin lvl lg) lg'"
  by (induction pin lvl lg rule: gpio_level.induct) simp_all

definition hw_selected :: "pico_trace \<Rightarrow> bool" where
  "hw_selected lg \<longleftrightarrow> \<not> gpio_level HW_CS_PIN True lg"

lemma hw_transfer_result:
  "len \<le> length t \<Longrightarrow> len \<le> length r \<Longrightarrow>
   hw_spi_transfer sdk (Some t) (Some r) len ms lg =
     Some (if fst (sdk lg (take len t)) = sint (of_nat len :: u32) then Spi_OK else Spi_HW_ERROR,
       map (snd (sdk lg (take len t))) [0..<len] @ drop len r, lg @ [Spi_write_read (take len t)])"
  by (simp add: hw_spi_transfer_def Let_def split_beta)

interpretation hw: spi_selecting "hw_spi_dev sdk" "\<lambda>_. True" hw_selected for sdk
  by unfold_locales
     (auto simp: hw_spi_select_def hw_spi_deselect_def hw_selected_def hw_transfer_result)

text \<open>So the CAN driver returns over this port too, whatever the SDK call reports, and leaves the chip deselected.\<close>

lemma can_driver_total_on_hw_spi:
  assumes "\<not> hw_selected lg" and "length (f_data f) = 8"
  shows "(\<exists>ok lg'. mcp_send (hw_spi_dev sdk) i f lg = Some (ok, lg') \<and> \<not> hw_selected lg') \<and>
    (\<exists>ok lg'. mcp_has_message (hw_spi_dev sdk) i lg = Some (ok, lg') \<and> \<not> hw_selected lg') \<and>
    (\<exists>ok f' lg'. mcp_receive (hw_spi_dev sdk) i f lg = Some (ok, f', lg') \<and> \<not> hw_selected lg')"
proof (intro conjI)
  have idle: "True \<and> \<not> hw_selected lg" using assms(1) by simp
  show "\<exists>ok lg'. mcp_send (hw_spi_dev sdk) i f lg = Some (ok, lg') \<and> \<not> hw_selected lg'"
    by (rule hw.idle.send_returns [OF idle assms(2), of sdk i]) auto
  show "\<exists>ok lg'. mcp_has_message (hw_spi_dev sdk) i lg = Some (ok, lg') \<and> \<not> hw_selected lg'"
    by (rule hw.idle.has_message_returns [OF idle, of sdk i]) auto
  show "\<exists>ok f' lg'. mcp_receive (hw_spi_dev sdk) i f lg = Some (ok, f', lg') \<and> \<not> hw_selected lg'"
    by (rule hw.idle.receive_returns [OF idle assms(2), of sdk i]) auto
qed

end
