(* ===== verification/Console.thy ===== *)
theory Console
  imports App_Main
begin

text \<open>
  The console shared by the tasks of \<^verbatim>\<open>src/app/main_blinky.cpp\<close>. Two tasks call \<^verbatim>\<open>uart_putchar\<close> on the same
  UART without a lock, and FreeRTOS may switch between the poll of the line status and the
  write of the byte. A step relation interleaves any number of such callers with the transmitter,
  a first-in first-out queue of 16 bytes that loses what is written to it when it is full and reports itself
  free only when it is empty. Rule induction gives the invariant that keeps every byte.
\<close>

subsection \<open>Tasks, transmitter and steps\<close>

datatype console_op = Poll | Put u8

text \<open>\<^verbatim>\<open>while (!(U0_LSR & (1 << 5))) vTaskDelay(...); U0_THR = c;\<close> as the poll that succeeds, then the write.\<close>

definition putchar_ops :: "u8 \<Rightarrow> console_op list" where
  "putchar_ops b = [Poll, Put b]"

definition write_ops :: "buf \<Rightarrow> console_op list" where
  "write_ops bs = concat (map putchar_ops bs)"

text \<open>
  The code calls are these operations: the accesses of a history that the console sees are, for
  any behaviour of the UART, \<open>write_ops\<close> of what was written.
\<close>

fun console_view :: "trace \<Rightarrow> console_op list" where
  "console_view [] = []"
| "console_view (Rd a v # tr) = (if a = U0_LSR \<and> v AND 0x20 \<noteq> 0 then [Poll] else []) @ console_view tr"
| "console_view (Wr a v # tr) = (if a = U0_THR then [Put (ucast v)] else []) @ console_view tr"
| "console_view (_ # tr) = console_view tr"

lemma console_view_append [simp]: "console_view (tr @ tr') = console_view tr @ console_view tr'"
  by (induction tr rule: console_view.induct) simp_all

lemma busy_polls_view:
  "(\<And>k. k < n \<Longrightarrow> \<not> thr_free ticks env k tr) \<Longrightarrow> console_view (busy_polls ticks env n tr) = console_view tr"
proof (induction n arbitrary: tr)
  case (Suc n)
  have "\<not> thr_free ticks env k (tr @ [Rd U0_LSR (env tr U0_LSR), Task_delay (ticks 1)])" if "k < n" for k
    using Suc.prems [of "Suc k"] that by (simp add: thr_free_Suc)
  from Suc.IH [OF this] show ?case using Suc.prems [of 0] by (simp add: thr_free_def)
qed simp

lemma uart_putchar_view:
  assumes "uart_putchar ticks env c tr = Some tr'"
  shows "console_view tr' = console_view tr @ putchar_ops c"
proof -
  have "\<exists>n. thr_free ticks env n tr" using assms uart_putchar_busy [of ticks env tr c] by auto
  define n where "n = (LEAST n. thr_free ticks env n tr)"
  have n: "thr_free ticks env n tr" "\<And>k. k < n \<Longrightarrow> \<not> thr_free ticks env k tr"
    using \<open>\<exists>n. thr_free ticks env n tr\<close> not_less_Least by (auto simp: n_def intro: LeastI)
  then show ?thesis
    using assms uart_putchar_free [OF n, of c] busy_polls_view [of n ticks env tr]
    by (auto simp: Let_def putchar_ops_def thr_free_def)
qed

lemma uart_puts_view:
  "uart_puts ticks env bs tr = Some tr' \<Longrightarrow> console_view tr' = console_view tr @ write_ops bs"
  by (induction bs arbitrary: tr) (auto simp: write_ops_def bind_eq_Some_conv uart_putchar_view)

text \<open>What each task has left to do, and the bytes, each with its task, in the queue and on the line.\<close>

record console =
  c_ops :: "nat \<Rightarrow> console_op list"
  c_queue :: "(nat \<times> u8) list"
  c_line :: "(nat \<times> u8) list"

definition console_start :: "(nat \<Rightarrow> buf) \<Rightarrow> console" where
  "console_start text = \<lparr>c_ops = (\<lambda>i. write_ops (text i)), c_queue = [], c_line = []\<rparr>"

text \<open>A write to the transmit register: a full queue loses the byte.\<close>

definition queue_put :: "nat \<times> u8 \<Rightarrow> console \<Rightarrow> console" where
  "queue_put x s = (if length (c_queue s) < 16 then s\<lparr>c_queue := c_queue s @ [x]\<rparr> else s)"

text \<open>A poll that finds the transmitter busy changes nothing here: the task sleeps and polls again.\<close>

inductive console_step :: "nat \<Rightarrow> console \<Rightarrow> console \<Rightarrow> bool" for n where
  poll: "i < n \<Longrightarrow> c_ops s i = Poll # ops \<Longrightarrow> c_queue s = [] \<Longrightarrow>
    console_step n s (s\<lparr>c_ops := (c_ops s)(i := ops)\<rparr>)"
| put: "i < n \<Longrightarrow> c_ops s i = Put b # ops \<Longrightarrow>
    console_step n s (queue_put (i, b) (s\<lparr>c_ops := (c_ops s)(i := ops)\<rparr>))"
| transmit: "c_queue s = x # q \<Longrightarrow> console_step n s (s\<lparr>c_queue := q, c_line := c_line s @ [x]\<rparr>)"

inductive console_reach :: "nat \<Rightarrow> console \<Rightarrow> console \<Rightarrow> bool" for n s0 where
  console_here: "console_reach n s0 s0"
| console_next: "console_reach n s0 s \<Longrightarrow> console_step n s s' \<Longrightarrow> console_reach n s0 s'"

subsection \<open>The invariant\<close>

fun puts_next :: "console_op list \<Rightarrow> bool" where
  "puts_next (Put b # ops) = True"
| "puts_next _ = False"

text \<open>A task is at the head of a call, or between its poll and its write.\<close>

fun well_timed :: "console_op list \<Rightarrow> bool" where
  "well_timed [] = True"
| "well_timed (Poll # ops) = (puts_next ops \<and> well_timed ops)"
| "well_timed (Put b # ops) = (\<not> puts_next ops \<and> well_timed ops)"

fun op_bytes :: "console_op list \<Rightarrow> buf" where
  "op_bytes [] = []"
| "op_bytes (Poll # ops) = op_bytes ops"
| "op_bytes (Put b # ops) = b # op_bytes ops"

definition from_task :: "nat \<Rightarrow> (nat \<times> u8) list \<Rightarrow> buf" where
  "from_task i xs = map snd (filter (\<lambda>x. fst x = i) xs)"

definition writers :: "nat \<Rightarrow> console \<Rightarrow> nat set" where
  "writers n s = {i. i < n \<and> puts_next (c_ops s i)}"

text \<open>
  Every byte of a task is on the line, in the queue or still to be written, in this order; and
  the queue has room for every task that is past its poll.
\<close>

definition console_inv :: "nat \<Rightarrow> (nat \<Rightarrow> buf) \<Rightarrow> console \<Rightarrow> bool" where
  "console_inv n text s \<longleftrightarrow> length (c_queue s) + card (writers n s) \<le> n \<and>
     (\<forall>i < n. well_timed (c_ops s i) \<and>
        from_task i (c_line s @ c_queue s) @ op_bytes (c_ops s i) = text i)"

lemma from_task_simps [simp]:
  "from_task i [] = []" "from_task i (xs @ ys) = from_task i xs @ from_task i ys"
  "from_task i [x] = (if fst x = i then [snd x] else [])"
  by (simp_all add: from_task_def)

lemma write_ops_simps [simp]:
  "write_ops [] = []" "write_ops (b # bs) = Poll # Put b # write_ops bs"
  by (simp_all add: write_ops_def putchar_ops_def)

lemma write_ops_props [simp]:
  "\<not> puts_next (write_ops bs)" "well_timed (write_ops bs)" "op_bytes (write_ops bs) = bs"
proof -
  show "\<not> puts_next (write_ops bs)" by (cases bs) simp_all
  show "well_timed (write_ops bs)"
  proof (induction bs)
    case (Cons b bs)
    then show ?case by (cases bs) simp_all
  qed simp
  show "op_bytes (write_ops bs) = bs" by (induction bs) simp_all
qed

lemma finite_writers [simp]: "finite (writers n s)"
  by (rule finite_subset [of _ "{..<n}"]) (auto simp: writers_def)

lemma writers_bound: "card (writers n s) \<le> n"
  using card_mono [of "{..<n}" "writers n s"] by (auto simp: writers_def)

lemma console_inv_start: "console_inv n text (console_start text)"
  by (simp add: console_inv_def console_start_def writers_def)

lemma console_inv_step:
  assumes "console_step n s s'" and "console_inv n text s" and "n \<le> 16"
  shows "console_inv n text s'"
  using assms(1)
proof cases
  case (poll i ops)
  have "well_timed (c_ops s' j) \<and> op_bytes (c_ops s' j) = op_bytes (c_ops s j)" if "j < n" for j
    using poll assms(2) that by (auto simp: console_inv_def)
  then show ?thesis
    using poll(1,4) assms(2) writers_bound [of n s'] by (simp add: console_inv_def)
next
  case (put i b ops)
  have i: "i \<in> writers n s" using put by (simp add: writers_def)
  have w: "well_timed (Put b # ops)" using assms(2) put(2,3) by (auto simp: console_inv_def)
  have "writers n s' = writers n s - {i}"
    using put w by (auto simp: writers_def queue_put_def)
  then have c: "Suc (card (writers n s')) = card (writers n s)"
    using card_Suc_Diff1 [OF finite_writers i] by simp
  have room: "length (c_queue s) < 16" using assms(2,3) c by (simp add: console_inv_def)
  then have q: "c_queue s' = c_queue s @ [(i, b)]" "c_line s' = c_line s" "c_ops s' = (c_ops s)(i := ops)"
    using put(1) by (simp_all add: queue_put_def)
  have "well_timed (c_ops s' j) \<and> from_task j (c_line s' @ c_queue s') @ op_bytes (c_ops s' j) = text j" if "j < n" for j
    using assms(2) that put(2,3) w unfolding q by (cases "j = i") (auto simp: console_inv_def)
  then show ?thesis
    using assms(2) c unfolding console_inv_def q(1) by simp
next
  case (transmit x q)
  have "writers n s' = writers n s" using transmit by (simp add: writers_def)
  then show ?thesis
    using transmit assms(2) by (simp add: console_inv_def)
qed

lemma console_inv_reach:
  "console_reach n (console_start text) s \<Longrightarrow> n \<le> 16 \<Longrightarrow> console_inv n text s"
  by (induction rule: console_reach.induct) (auto intro: console_inv_start console_inv_step)

text \<open>A console that is not finished has a step: no interleaving gets stuck.\<close>

lemma console_progress:
  assumes "i < n" "c_ops s i \<noteq> [] \<or> c_queue s \<noteq> []"
  shows "\<exists>s'. console_step n s s'"
proof (cases "c_queue s")
  case Nil
  then obtain a ops where "c_ops s i = a # ops" using assms(2) by (cases "c_ops s i") auto
  then show ?thesis using assms(1) Nil by (cases a) (blast intro: console_step.intros)+
next
  case (Cons x q)
  then show ?thesis by (blast intro: console_step.transmit)
qed

subsection \<open>Properties\<close>

text \<open>
  C20: up to 16 tasks that write to the console at the same time, switched at any point, between the poll
  and the write too, lose no byte: in every reachable state the queue has room for every task
  that is past its poll, every task's bytes are on the line, in the queue or still to be
  written, in the task's order, and as long as something is left there is a next step. So when
  all is done, the line carries exactly the bytes of every task. The operations of a task are
  those of the code: what a string written with \<^verbatim>\<open>uart_putchar\<close> shows the console, for any UART.
\<close>

theorem console_loses_nothing:
  assumes "console_reach n (console_start text) s" and "n \<le> 16" and "i < n"
  shows "length (c_queue s) + card (writers n s) \<le> n \<and>
    from_task i (c_line s @ c_queue s) @ op_bytes (c_ops s i) = text i \<and>
    (if c_ops s i = [] \<and> c_queue s = [] then from_task i (c_line s) = text i else \<exists>s'. console_step n s s') \<and>
    (\<forall>ticks env bs tr tr'. uart_puts ticks env bs tr = Some tr' \<longrightarrow>
      console_view tr' = console_view tr @ write_ops bs)"
proof -
  have "console_inv n text s" by (rule console_inv_reach [OF assms(1,2)])
  then show ?thesis
    using assms(3) console_progress [OF assms(3), of s] uart_puts_view by (auto simp: console_inv_def)
qed

text \<open>Two tasks, switched between poll and write: both bytes are in the queue.\<close>

theorem console_loses_nothing_witness:
  "\<exists>s. console_reach 2 (console_start (\<lambda>i. [of_nat i])) s \<and> c_queue s = [(1, 1), (0, 0)] \<and>
     from_task 0 (c_line s @ c_queue s) @ op_bytes (c_ops s 0) = [0]"
proof -
  let ?s0 = "console_start (\<lambda>i. [of_nat i])"
  let ?s1 = "?s0\<lparr>c_ops := (c_ops ?s0)(0 := [Put 0])\<rparr>"
  let ?s2 = "?s1\<lparr>c_ops := (c_ops ?s1)(1 := [Put 1])\<rparr>"
  let ?s3 = "queue_put (1, 1) (?s2\<lparr>c_ops := (c_ops ?s2)(1 := [])\<rparr>)"
  let ?s4 = "queue_put (0, 0) (?s3\<lparr>c_ops := (c_ops ?s3)(0 := [])\<rparr>)"
  have "console_step 2 ?s0 ?s1" by (rule console_step.poll) (simp_all add: console_start_def)
  moreover have "console_step 2 ?s1 ?s2" by (rule console_step.poll) (simp_all add: console_start_def)
  moreover have "console_step 2 ?s2 ?s3" by (rule console_step.put) (simp_all add: console_start_def)
  moreover have "console_step 2 ?s3 ?s4" by (rule console_step.put) (simp_all add: console_start_def queue_put_def)
  ultimately have r: "console_reach 2 ?s0 ?s4" by (meson console_here console_next)
  then show ?thesis
    using console_loses_nothing [OF r, of 0] by (intro exI [of _ ?s4]) (simp add: console_start_def queue_put_def)
qed

end
