(* ===== verification/Pin_Race.thy ===== *)
theory Pin_Race
  imports App_Main
begin

text \<open>
  The pin-function register that two tasks of \<^verbatim>\<open>src/app/main_blinky.cpp\<close> configure when they start:
  \<^verbatim>\<open>uart_init\<close> in the echo task and \<^verbatim>\<open>Rs485Lpc1768::init\<close> in the RS-485 task both do \<^verbatim>\<open>PINSEL0 = f(PINSEL0)\<close>, a
  read and a write between which the preemptive scheduler (\<^verbatim>\<open>configUSE_PREEMPTION\<close>) may switch. A step
  relation interleaves the reads and the writes. Undisturbed, in any order, the updates configure
  all pins; interleaved, one of them may be lost.
\<close>

subsection \<open>The updates\<close>

definition uart0_pins :: "u32 \<Rightarrow> u32" where
  "uart0_pins v = (v AND NOT 0xF0) OR 0x50"

definition uart2_pins :: "u32 \<Rightarrow> u32" where
  "uart2_pins v = (v AND NOT (push_bit 20 0x0F)) OR push_bit 20 1 OR push_bit 22 1"

definition de_pin :: "u32 \<Rightarrow> u32" where
  "de_pin v = v AND NOT (push_bit 18 3)"

text \<open>They are what the two routines do to the register.\<close>

fun writes_to :: "u32 \<Rightarrow> trace \<Rightarrow> u32 list" where
  "writes_to r tr = map snd (filter (\<lambda>w. fst w = r) (writes tr))"

lemma uart0_init_pins:
  "\<exists>evs. uart0_init env tr = tr @ evs \<and> reads_at APP_PINSEL0 evs = [env tr APP_PINSEL0] \<and>
     writes_to APP_PINSEL0 evs = [uart0_pins (env tr APP_PINSEL0)]"
  by (simp add: uart0_init_def Let_def uart0_pins_def app_regs)

lemma lpc_rs_init_pins:
  "\<exists>evs v1 v2. lpc_rs_init env 115200 tr = Some (St_OK, tr @ evs) \<and> reads_at PINSEL0 evs = [v1, v2] \<and>
     writes_to PINSEL0 evs = [uart2_pins v1, de_pin v2]"
  by (simp add: lpc_rs_init_def Let_def uart2_pins_def de_pin_def PCLK_HZ_def reg_or_def reg_clear_def
      set_rx_mode_def rs485_regs)

lemma same_register: "APP_PINSEL0 = PINSEL0"
  by (simp add: app_regs rs485_regs)

subsection \<open>Interleaving\<close>

text \<open>
  The register, and for each of the two tasks the updates it has left and the value it has read and
  not yet written back.
\<close>

datatype init_task = Echo_init | Rs485_init

record pinsel =
  p_value :: u32
  p_left :: "init_task \<Rightarrow> (u32 \<Rightarrow> u32) list"
  p_read :: "init_task \<Rightarrow> u32 option"

definition pin_start :: "u32 \<Rightarrow> pinsel" where
  "pin_start v = \<lparr>p_value = v,
     p_left = (\<lambda>t. case t of Echo_init \<Rightarrow> [uart0_pins] | Rs485_init \<Rightarrow> [uart2_pins, de_pin]),
     p_read = (\<lambda>_. None)\<rparr>"

inductive pin_step :: "pinsel \<Rightarrow> init_task \<Rightarrow> pinsel \<Rightarrow> bool" where
  pin_read: "p_left s t = f # fs \<Longrightarrow> p_read s t = None \<Longrightarrow>
    pin_step s t (s\<lparr>p_read := (p_read s)(t := Some (p_value s))\<rparr>)"
| pin_write: "p_left s t = f # fs \<Longrightarrow> p_read s t = Some v \<Longrightarrow>
    pin_step s t (s\<lparr>p_value := f v, p_left := (p_left s)(t := fs), p_read := (p_read s)(t := None)\<rparr>)"

inductive_simps pin_step_simps: "pin_step s t s'"

text \<open>The steps the tasks take under a schedule, executable.\<close>

fun pin_exec :: "init_task list \<Rightarrow> pinsel \<Rightarrow> pinsel option" where
  "pin_exec [] s = Some s"
| "pin_exec (t # ts) s =
     (case p_left s t of
        [] \<Rightarrow> None
      | f # fs \<Rightarrow> (case p_read s t of
            None \<Rightarrow> pin_exec ts (s\<lparr>p_read := (p_read s)(t := Some (p_value s))\<rparr>)
          | Some v \<Rightarrow> pin_exec ts (s\<lparr>p_value := f v, p_left := (p_left s)(t := fs), p_read := (p_read s)(t := None)\<rparr>)))"

inductive pin_run :: "pinsel \<Rightarrow> init_task list \<Rightarrow> pinsel \<Rightarrow> bool" where
  pin_done: "pin_run s [] s"
| pin_more: "pin_step s t s' \<Longrightarrow> pin_run s' ts s'' \<Longrightarrow> pin_run s (t # ts) s''"

inductive_cases pin_run_NilE: "pin_run s [] s'"
inductive_cases pin_run_ConsE: "pin_run s (t # ts) s'"

lemma pin_exec_run: "pin_exec ts s = Some s' \<longleftrightarrow> pin_run s ts s'"
proof (induction ts arbitrary: s)
  case Nil
  show ?case by (auto intro: pin_done elim: pin_run_NilE)
next
  case (Cons t ts)
  show ?case
  proof
    assume "pin_exec (t # ts) s = Some s'"
    then show "pin_run s (t # ts) s'"
      by (auto simp: Cons.IH split: list.splits option.splits intro: pin_more pin_read pin_write)
  next
    assume "pin_run s (t # ts) s'"
    then show "pin_exec (t # ts) s = Some s'"
      by (elim pin_run_ConsE) (auto simp: pin_step_simps Cons.IH [symmetric])
  qed
qed

definition pins_done :: "pinsel \<Rightarrow> bool" where
  "pins_done s \<longleftrightarrow> p_left s Echo_init = [] \<and> p_left s Rs485_init = []"

text \<open>UART0 on P0.2 and P0.3, UART2 on P0.10 and P0.11, P0.9 a GPIO.\<close>

definition uart0_ready :: "u32 \<Rightarrow> bool" where
  "uart0_ready v \<longleftrightarrow> v AND 0xF0 = 0x50"

definition uart2_ready :: "u32 \<Rightarrow> bool" where
  "uart2_ready v \<longleftrightarrow> v AND 0xF00000 = 0x500000"

definition de_ready :: "u32 \<Rightarrow> bool" where
  "de_ready v \<longleftrightarrow> v AND 0xC0000 = 0"

lemma pins_ready [simp]:
  "uart0_ready (uart0_pins v)" "uart0_ready (uart2_pins v) = uart0_ready v" "uart0_ready (de_pin v) = uart0_ready v"
  "uart2_ready (uart0_pins v) = uart2_ready v" "uart2_ready (uart2_pins v)" "uart2_ready (de_pin v) = uart2_ready v"
  "de_ready (uart0_pins v) = de_ready v" "de_ready (uart2_pins v) = de_ready v" "de_ready (de_pin v)"
  by (simp_all add: uart0_ready_def uart2_ready_def de_ready_def uart0_pins_def uart2_pins_def de_pin_def
      bit.conj_disj_distrib2 and.assoc)

text \<open>A schedule that does not switch between a read and its write.\<close>

fun atomic :: "init_task list \<Rightarrow> bool" where
  "atomic [] = True"
| "atomic (t # t' # ts) = (t = t' \<and> atomic ts)"
| "atomic [t] = False"

lemma pin_exec_pair:
  "p_read s t = None \<Longrightarrow> p_left s t = f # fs \<Longrightarrow>
   pin_exec (t # t # ts) s = pin_exec ts (s\<lparr>p_value := f (p_value s), p_left := (p_left s)(t := fs),
     p_read := (p_read s)(t := None)\<rparr>)"
  by simp

text \<open>What is left of the updates decides what an undisturbed rest of the schedule still configures.\<close>

lemma atomic_ready:
  "atomic ts \<Longrightarrow> pin_exec ts s = Some s' \<Longrightarrow> (\<And>t. p_read s t = None) \<Longrightarrow> pins_done s' \<Longrightarrow>
   p_left s Echo_init = [uart0_pins] \<or> p_left s Echo_init = [] \<and> uart0_ready (p_value s) \<Longrightarrow>
   p_left s Rs485_init = [uart2_pins, de_pin] \<or>
     p_left s Rs485_init = [de_pin] \<and> uart2_ready (p_value s) \<or>
     p_left s Rs485_init = [] \<and> uart2_ready (p_value s) \<and> de_ready (p_value s) \<Longrightarrow>
   uart0_ready (p_value s') \<and> uart2_ready (p_value s') \<and> de_ready (p_value s')"
proof (induction ts arbitrary: s rule: atomic.induct)
  case 1
  then show ?case by (auto simp: pins_done_def)
next
  case (2 t t' ts)
  then have t: "t' = t" "atomic ts" by simp_all
  show ?case
  proof (cases "p_left s t")
    case Nil
    then show ?thesis using 2(3) by simp
  next
    case (Cons f fs)
    let ?s = "s\<lparr>p_value := f (p_value s), p_left := (p_left s)(t := fs), p_read := (p_read s)(t := None)\<rparr>"
    have e: "pin_exec ts ?s = Some s'" using 2(3) pin_exec_pair [OF 2(4) Cons] t(1) by simp
    show ?thesis
      by (rule 2(1) [OF t(2) e]; cases t; use 2(4-7) Cons in auto)
  qed
qed simp

subsection \<open>Property\<close>

text \<open>
  C21: the pin configuration of the two tasks is a race. Whenever no switch falls between a read of
  \<^verbatim>\<open>PINSEL0\<close> and its write, every order of the updates leaves UART0, UART2 and the driver enable configured, from any
  initial value. But from the reset value there are schedules, allowed by preemption, after which both
  tasks have finished and the pins of UART0 are not connected (the console stays silent), and others after which
  the pins of UART2 are not (the RS-485 task talks to nobody).
\<close>

theorem pin_configuration_race:
  assumes "atomic ts" and "pin_run (pin_start v) ts s" and "pins_done s"
  shows "uart0_ready (p_value s) \<and> uart2_ready (p_value s) \<and> de_ready (p_value s) \<and>
    (\<exists>ts' s'. pin_run (pin_start 0) ts' s' \<and> pins_done s' \<and> \<not> uart0_ready (p_value s')) \<and>
    (\<exists>ts' s'. pin_run (pin_start 0) ts' s' \<and> pins_done s' \<and> \<not> uart2_ready (p_value s'))"
proof (intro conjI)
  let ?E = Echo_init and ?R = Rs485_init
  have "pin_exec ts (pin_start v) = Some s" using assms(2) by (simp add: pin_exec_run)
  from atomic_ready [OF assms(1) this _ assms(3)]
  show "uart0_ready (p_value s)" "uart2_ready (p_value s)" "de_ready (p_value s)"
    by (simp_all add: pin_start_def)
  have "\<exists>s'. pin_exec [?R, ?E, ?E, ?R, ?R, ?R] (pin_start 0) = Some s' \<and> pins_done s' \<and>
      p_value s' = de_pin (uart2_pins 0)"
    by (simp add: pin_start_def pins_done_def)
  moreover have "\<not> uart0_ready (de_pin (uart2_pins 0))" by simp (simp add: uart0_ready_def)
  ultimately show "\<exists>ts' s'. pin_run (pin_start 0) ts' s' \<and> pins_done s' \<and> \<not> uart0_ready (p_value s')"
    unfolding pin_exec_run by metis
  have "\<exists>s'. pin_exec [?E, ?R, ?R, ?R, ?R, ?E] (pin_start 0) = Some s' \<and> pins_done s' \<and>
      p_value s' = uart0_pins 0"
    by (simp add: pin_start_def pins_done_def)
  moreover have "\<not> uart2_ready (uart0_pins 0)" by simp (simp add: uart2_ready_def)
  ultimately show "\<exists>ts' s'. pin_run (pin_start 0) ts' s' \<and> pins_done s' \<and> \<not> uart2_ready (p_value s')"
    unfolding pin_exec_run by metis
qed

theorem pin_configuration_race_witness:
  "\<exists>s. pin_run (pin_start 0) [Echo_init, Echo_init, Rs485_init, Rs485_init, Rs485_init, Rs485_init] s \<and>
     uart0_ready (p_value s)"
proof -
  let ?ts = "[Echo_init, Echo_init, Rs485_init, Rs485_init, Rs485_init, Rs485_init]"
  obtain s where "pin_exec ?ts (pin_start 0) = Some s" "pins_done s"
    by (simp add: pin_start_def pins_done_def)
  then have r: "pin_run (pin_start 0) ?ts s" "pins_done s" by (simp_all only: pin_exec_run)
  show ?thesis using pin_configuration_race [OF _ r] r(1) by auto
qed

end
