(* ===== verification/Spi_Chip.thy ===== *)
theory Spi_Chip
  imports Can_Wire
begin

text \<open>
  A chip at the other end of an SPI bus, and the CAN driver on a port that such a chip is connected
  to. A chip is any function that chooses the byte it answers next from the frames it has received and the
  bytes of the frame it is receiving: what the driver is told depends on what it has sent. The
  locale \<open>spi_answered\<close> states that a port delivers frames and answers; inside it every
  driver method has one result, a function of the chip and the frames so far. Both
  bit-banged ports interpret it.
\<close>

type_synonym chip = "buf list \<Rightarrow> buf \<Rightarrow> u8"

text \<open>The bytes a chip that has received the frames \<open>fs\<close> answers while it receives \<open>tx\<close>.\<close>

definition answer :: "chip \<Rightarrow> buf list \<Rightarrow> buf \<Rightarrow> buf" where
  "answer chip fs tx = map (\<lambda>k. chip fs (take k tx)) [0..<length tx]"

lemma length_answer [simp]: "length (answer chip fs tx) = length tx"
  by (simp add: answer_def)

lemma nth_answer [simp]: "k < length tx \<Longrightarrow> answer chip fs tx ! k = chip fs (take k tx)"
  by (simp add: answer_def)

lemma answer_snoc: "answer chip fs (tx @ [b]) = answer chip fs tx @ [chip fs tx]"
  by (simp add: answer_def)

subsection \<open>Bytes and bits\<close>

text \<open>The complete bytes of a sequence of bits.\<close>

fun bits_bytes :: "bool list \<Rightarrow> buf" where
  "bits_bytes (a # b # c # d # e # f # g # h # bs) =
     foldl shift_in 0 [a, b, c, d, e, f, g, h] # bits_bytes bs"
| "bits_bytes _ = []"

lemma foldl_bits_msb: "foldl shift_in r (bits_msb b) = b"
  by (rule bit_word_eqI) (simp add: bit_foldl_shift_in bits_msb_def, subst nth_upt, simp_all)

lemma bits_bytes_cons: "length bs = 8 \<Longrightarrow> bits_bytes (bs @ cs) = foldl shift_in 0 bs # bits_bytes cs"
  by (auto simp: length_Suc_conv numeral_eq_Suc)

lemma bits_bytes_short: "length cs < 8 \<Longrightarrow> bits_bytes cs = []"
  by (cases cs rule: bits_bytes.cases) simp_all

lemma bits_bytes_inverse: "length cs < 8 \<Longrightarrow> bits_bytes (bytes_bits xs @ cs) = xs"
  by (induction xs) (simp_all add: bits_bytes_short bits_bytes_cons foldl_bits_msb)

lemma bits_bytes_of_bytes [simp]: "bits_bytes (bytes_bits xs) = xs"
  using bits_bytes_inverse [of "[]" xs] by simp

lemma bytes_bits_inject: "bytes_bits xs = bytes_bits ys \<Longrightarrow> xs = ys"
  by (metis bits_bytes_of_bytes)

lemma length_bytes_bits: "length (bytes_bits xs) = 8 * length xs"
  by (induction xs) simp_all

lemma bytes_bits_append: "bytes_bits (xs @ ys) = bytes_bits xs @ bytes_bits ys"
  by (simp add: bytes_bits_def)

text \<open>
  The level of the chip's output line for the next bit, from the frames and the bits of the current frame;
  and the levels while it receives \<open>bits\<close> behind \<open>cur\<close>.
\<close>

definition chip_bit :: "chip \<Rightarrow> bool list list \<Rightarrow> bool list \<Rightarrow> bool" where
  "chip_bit chip frames bits = bit (chip (map bits_bytes frames) (bits_bytes bits)) (7 - length bits mod 8)"

definition chip_bits :: "chip \<Rightarrow> bool list list \<Rightarrow> bool list \<Rightarrow> bool list \<Rightarrow> bool list" where
  "chip_bits chip frames cur bits = map (\<lambda>k. chip_bit chip frames (cur @ take k bits)) [0..<length bits]"

lemma chip_bits_simps [simp]:
  "chip_bits chip frames cur [] = []"
  "chip_bits chip frames cur [b] = [chip_bit chip frames cur]"
  by (simp_all add: chip_bits_def)

lemma chip_bits_append:
  "chip_bits chip frames cur (bs @ bs') = chip_bits chip frames cur bs @ chip_bits chip frames (cur @ bs) bs'"
  by (rule nth_equalityI) (auto simp: chip_bits_def nth_append)

lemma chip_bits_byte:
  "length b = 8 \<Longrightarrow> chip_bits chip (map bytes_bits fs) (bytes_bits xs) b = bits_msb (chip fs xs)"
  by (rule nth_equalityI)
     (auto simp: chip_bits_def chip_bit_def bits_msb_def length_bytes_bits bits_bytes_inverse o_def)

lemma chip_bits_bytes:
  "chip_bits chip (map bytes_bits fs) [] (bytes_bits tx) = bytes_bits (answer chip fs tx)"
proof (induction tx rule: rev_induct)
  case (snoc b tx)
  then show ?case
    by (simp add: bytes_bits_append chip_bits_append chip_bits_byte answer_snoc)
qed (simp add: answer_def)

subsection \<open>The driver on a port with a chip\<close>

text \<open>
  Whether a read of \<^verbatim>\<open>CANSTAT\<close> shows a mode, and the frames of \<^verbatim>\<open>init\<close> behind \<open>fs\<close>, up to the write of \<open>w\<close> to \<^verbatim>\<open>CANCTRL\<close> and \<open>k\<close> polls of \<^verbatim>\<open>CANSTAT\<close>.
\<close>

definition shows_mode :: "chip \<Rightarrow> mode \<Rightarrow> buf list \<Rightarrow> bool" where
  "shows_mode chip m fs \<longleftrightarrow> canstat_mode (chip fs [0x03, 0x0E]) = mode_code m"

definition configuration :: "u8 \<Rightarrow> u8 \<Rightarrow> u8 \<Rightarrow> buf list" where
  "configuration c1 c2 c3 = [[0xC0], [0x02, 0x28, c3], [0x02, 0x29, c2], [0x02, 0x2A, c1]]"

definition config_history :: "buf list \<Rightarrow> u8 \<Rightarrow> u8 \<Rightarrow> u8 \<Rightarrow> u8 \<Rightarrow> nat \<Rightarrow> buf list" where
  "config_history fs c1 c2 c3 w k =
     fs @ configuration c1 c2 c3 @ [[0x03, 0x0F, 0], [0x02, 0x0F, w]] @ replicate k [0x03, 0x0E, 0]"

text \<open>\<open>at s fs\<close>: in the state \<open>s\<close> the chip is deselected and has received the frames \<open>fs\<close>.\<close>

locale spi_answered =
  fixes dev :: "'s spi_dev" and chip :: chip
    and at :: "'s \<Rightarrow> buf list \<Rightarrow> bool"
  assumes transaction_answered: "at s fs \<Longrightarrow> n \<le> length tx \<Longrightarrow> n \<le> length rx \<Longrightarrow>
      \<exists>s'. spi_transaction dev i tx rx n s = Some (True, answer chip fs (take n tx) @ drop n rx, s') \<and>
        at s' (fs @ [take n tx])"
begin

lemma reset_answered:
  assumes "at s fs"
  obtains s' where "mcp_reset dev i s = Some (True, s')" "at s' (fs @ [[0xC0]])"
  using transaction_answered [OF assms, of 1 "[INSTR_RESET]" "[0]" i]
  by (auto simp: mcp_reset_def INSTR_RESET_def)

lemma write_answered:
  assumes "at s fs"
  obtains s' where "mcp_write_reg dev i a v s = Some (True, s')" "at s' (fs @ [[0x02, a, v]])"
  using transaction_answered [OF assms, of 3 "[INSTR_WRITE, a, v]" "[0, 0, 0]" i]
  by (auto simp: mcp_write_reg_def INSTR_WRITE_def)

lemma read_answered:
  assumes "at s fs"
  obtains s' where "mcp_read_reg dev i a v s = Some (True, chip fs [0x03, a], s')"
    "at s' (fs @ [[0x03, a, 0]])"
  using transaction_answered [OF assms, of 3 "[INSTR_READ, a, 0]" "[0, 0, 0]" i]
  by (auto simp: mcp_read_reg_def INSTR_READ_def)

lemma has_message_answered:
  assumes "at s fs"
  obtains s' where "mcp_has_message dev i s = Some (chip fs [0x03, 0x2C] AND 0x01 \<noteq> 0, s')"
    "at s' (fs @ [[0x03, 0x2C, 0]])"
  by (rule read_answered [OF assms, of i "0x2C" 0])
     (simp add: mcp_has_message_def REG_CANINTF_def that)

lemma send_answered:
  assumes "at s fs" and "frame_ok f"
  obtains s' where "mcp_send dev i f s = Some (True, s')"
    "at s' (fs @ [tx_header f @ tx_payload f, [0x81]])"
proof -
  let ?n = "unat (f_dlc f)"
  let ?tx = "tx_header f @ tx_payload f @ replicate (8 - ?n) 0"
  have l: "length (tx_header f) = 6" "length (tx_payload f) = ?n" "?n \<le> 8"
    using assms by (simp_all add: tx_header_def tx_payload_def frame_ok_def dlc_bound)
  obtain s1 where 1: "spi_transaction dev i ?tx (replicate 14 0) (6 + ?n) s =
      Some (True, answer chip fs (take (6 + ?n) ?tx) @ drop (6 + ?n) (replicate 14 0), s1)"
    "at s1 (fs @ [tx_header f @ tx_payload f])"
    using transaction_answered [OF assms(1), of "6 + ?n" ?tx "replicate 14 0" i] l by auto
  obtain s2 where 2: "spi_transaction dev i [INSTR_RTS_TXB0] [0] 1 s1 =
      Some (True, answer chip (fs @ [tx_header f @ tx_payload f]) [0x81], s2)"
    "at s2 ((fs @ [tx_header f @ tx_payload f]) @ [[0x81]])"
    using transaction_answered [OF 1(2), of 1 "[INSTR_RTS_TXB0]" "[0]" i] by (auto simp: INSTR_RTS_TXB0_def)
  show ?thesis
  proof (rule that)
    show "mcp_send dev i f s = Some (True, s2)"
      using 1(1) 2(1) assms by (simp add: mcp_send_def mcp_tx_buffer_eq frame_ok_def not_less)
  qed (use 2(2) in simp)
qed

lemma receive_answered:
  assumes "at s fs" and "length (f_data f) = 8"
  obtains s' where "mcp_receive dev i f s = Some (True, rx_frame (answer chip fs (0x90 # replicate 13 0)), s')"
    "at s' (fs @ [0x90 # replicate 13 0])"
proof -
  obtain s1 where "spi_transaction dev i (INSTR_READ_RXB0 # replicate 13 0) (replicate 14 0) 14 s =
      Some (True, answer chip fs (0x90 # replicate 13 0), s1)" "at s1 (fs @ [0x90 # replicate 13 0])"
    using transaction_answered [OF assms(1), of 14 "INSTR_READ_RXB0 # replicate 13 0" "replicate 14 0" i]
    by (auto simp: INSTR_READ_RXB0_def)
  then show ?thesis
    using assms(2) by (intro that [of s1]) (simp_all add: mcp_receive_def mcp_rx_frame_eq)
qed

text \<open>The polling loop succeeds exactly if one of its reads shows the mode, and that read is its last.\<close>

lemma poll_answered:
  assumes "at s fs"
  obtains j s' where
    "mcp_poll_mode dev i m n s = Some (list_ex (\<lambda>k. shows_mode chip m (fs @ replicate k [0x03, 0x0E, 0])) [0..<n], s')"
    "at s' (fs @ replicate j [0x03, 0x0E, 0])"
    "list_ex (\<lambda>k. shows_mode chip m (fs @ replicate k [0x03, 0x0E, 0])) [0..<n] \<Longrightarrow>
       0 < j \<and> shows_mode chip m (fs @ replicate (j - 1) [0x03, 0x0E, 0])"
proof -
  let ?r = "[0x03, 0x0E, 0] :: buf"
  let ?e = "\<lambda>fs n. list_ex (\<lambda>k. shows_mode chip m (fs @ replicate k ?r)) [0..<n]"
  have "\<exists>j s'. mcp_poll_mode dev i m n s = Some (?e fs n, s') \<and> at s' (fs @ replicate j ?r) \<and>
      (?e fs n \<longrightarrow> 0 < j \<and> shows_mode chip m (fs @ replicate (j - 1) ?r))"
    using assms
  proof (induction n arbitrary: s fs)
    case 0
    then show ?case by (intro exI [of _ 0] exI [of _ s]) simp
  next
    case (Suc n)
    obtain s1 where 1: "mcp_read_reg dev i REG_CANSTAT 0 s = Some (True, chip fs [0x03, 0x0E], s1)" "at s1 (fs @ [?r])"
      using read_answered [OF Suc.prems, of i "REG_CANSTAT" 0] by (auto simp: REG_CANSTAT_def)
    show ?case
    proof (cases "shows_mode chip m fs")
      case True
      then show ?thesis
        using 1 by (intro exI [of _ 1] exI [of _ s1]) (simp add: list_ex_upt_Suc shows_mode_def canstat_mode_def del: upt_Suc)
    next
      case False
      obtain j s' where "mcp_poll_mode dev i m n s1 = Some (?e (fs @ [?r]) n, s')" "at s' ((fs @ [?r]) @ replicate j ?r)"
        "?e (fs @ [?r]) n \<longrightarrow> 0 < j \<and> shows_mode chip m ((fs @ [?r]) @ replicate (j - 1) ?r)"
        using Suc.IH [OF 1(2)] by blast
      moreover have "?e fs (Suc n) = ?e (fs @ [?r]) n" using False by (simp add: list_ex_upt_Suc del: upt_Suc)
      moreover have "replicate (Suc j - 1) ?r = ?r # replicate (j - 1) ?r" if "0 < j" using that by (cases j) simp_all
      moreover have "drop_bit 5 (chip fs [0x03, 0x0E]) AND 0x07 \<noteq> mode_code m"
        using False by (simp add: shows_mode_def canstat_mode_def)
      ultimately show ?thesis
        using 1(1) by (intro exI [of _ "Suc j"] exI [of _ s']) (simp del: upt_Suc)
    qed
  qed
  then show ?thesis using that by blast
qed

text \<open>
  \<^verbatim>\<open>init\<close> succeeds exactly if the chip shows the mode in one of a thousand polls behind the reset, the
  configuration and the request.
\<close>

lemma init_answered:
  assumes "at s fs" and "osc \<noteq> 0" and delay: "\<And>us s fs. at s fs \<Longrightarrow> at (delay us s) fs"
    and w: "w = (chip (fs @ configuration c1 c2 c3) [0x03, 0x0F] AND 0x1F) OR push_bit 5 (mode_code m)"
  obtains j s' where
    "mcp_init dev i delay c1 c2 c3 m osc s =
       Some (list_ex (\<lambda>k. shows_mode chip m (config_history fs c1 c2 c3 w k)) [0..<1000], s')"
    "at s' (config_history fs c1 c2 c3 w j)"
    "list_ex (\<lambda>k. shows_mode chip m (config_history fs c1 c2 c3 w k)) [0..<1000] \<Longrightarrow>
       0 < j \<and> shows_mode chip m (config_history fs c1 c2 c3 w (j - 1))"
proof -
  obtain s1 where 1: "mcp_reset dev i s = Some (True, s1)" "at s1 (fs @ [[0xC0]])"
    by (rule reset_answered [OF assms(1)])
  obtain s2 where 2: "mcp_write_reg dev i REG_CNF3 c3 (delay (mcp_ost_us osc) s1) = Some (True, s2)"
    "at s2 ((fs @ [[0xC0]]) @ [[0x02, REG_CNF3, c3]])"
    by (rule write_answered [OF delay [OF 1(2)]])
  obtain s3 where 3: "mcp_write_reg dev i (REG_CNF3 + 1) c2 s2 = Some (True, s3)"
    "at s3 (((fs @ [[0xC0]]) @ [[0x02, REG_CNF3, c3]]) @ [[0x02, REG_CNF3 + 1, c2]])"
    by (rule write_answered [OF 2(2)])
  obtain s4 where 4: "mcp_write_reg dev i (REG_CNF3 + 2) c1 s3 = Some (True, s4)"
    "at s4 (fs @ configuration c1 c2 c3)"
    using write_answered [OF 3(2), of i "REG_CNF3 + 2" c1] by (auto simp: configuration_def REG_CNF3_def)
  let ?c = "chip (fs @ configuration c1 c2 c3) [0x03, 0x0F]"
  obtain s5 where 5: "mcp_read_reg dev i REG_CANCTRL 0 s4 = Some (True, ?c, s5)"
    "at s5 ((fs @ configuration c1 c2 c3) @ [[0x03, 0x0F, 0]])"
    using read_answered [OF 4(2), of i REG_CANCTRL 0] by (auto simp: REG_CANCTRL_def)
  define p where "p = fs @ configuration c1 c2 c3 @ [[0x03, 0x0F, 0], [0x02, 0x0F, w]]"
  have h: "config_history fs c1 c2 c3 w k = p @ replicate k [0x03, 0x0E, 0]" for k
    by (simp add: config_history_def p_def)
  obtain s6 where 6: "mcp_write_reg dev i REG_CANCTRL w s5 = Some (True, s6)" "at s6 p"
    using write_answered [OF 5(2), of i REG_CANCTRL w] by (auto simp: REG_CANCTRL_def p_def)
  have "mcp_init dev i delay c1 c2 c3 m osc s = mcp_poll_mode dev i m 1000 s6"
    using 1(1) 2(1) 3(1) 4(1) 5(1) 6(1) assms(2) by (simp add: mcp_init_def mcp_set_mode_def Let_def w)
  then show ?thesis using poll_answered [OF 6(2), of i m 1000] that unfolding h by metis
qed

end

text \<open>Such a port meets the contract of a transaction, and every driver method keeps the chip deselected.\<close>

sublocale spi_answered < connected: spi_transactional dev "\<lambda>s. \<exists>fs. at s fs"
proof
  fix s n i and tx rx :: buf
  assume "\<exists>fs. at s fs" and n: "n \<le> length tx" "n \<le> length rx"
  then obtain fs where "at s fs" by blast
  from transaction_answered [OF this n, of i] obtain s' where
    "spi_transaction dev i tx rx n s = Some (True, answer chip fs (take n tx) @ drop n rx, s')"
    "at s' (fs @ [take n tx])" by blast
  then show "\<exists>ok rx' s'. spi_transaction dev i tx rx n s = Some (ok, rx', s') \<and>
      length rx' = length rx \<and> (\<exists>fs. at s' fs)"
    using n by auto
qed

end
