(* ===== verification/Chip_Wire.thy ===== *)
theory Chip_Wire
  imports Spi_Chip Bitbang_Spi_Rp
begin

text \<open>
  A chip wired to a bit-banged SPI port. Its output line carries the level that the chip chooses from
  what the observer of the wires has collected so far, and the port reads it back: the loop is
  closed. In modes 0 and 3, where data is sampled on the rising clock edge, both ports are shown to
  deliver every transaction as one frame and to return the chip's answers.
\<close>

text \<open>The wires from power-up on: chip select is pulled up, the clock is low.\<close>

definition wire0 :: wire where
  "wire0 = \<lparr>w_sck = False, w_mosi = False, w_cs = True, w_bits = [], w_frames = []\<rparr>"

definition wires :: "trace \<Rightarrow> wire" where
  "wires tr = wire_run True wire0 tr"

lemma wires_append [simp]: "wires (tr @ tr') = wire_run True (wires tr) tr'"
  by (simp add: wires_def)

text \<open>
  The level of the chip's output. When the port reads it, the edge for the current bit has passed, so
  the bits before it are the ones the chip has chosen this level from.
\<close>

definition chip_level :: "chip \<Rightarrow> wire \<Rightarrow> bool" where
  "chip_level chip w = chip_bit chip (w_frames w) (butlast (w_bits w))"

definition chip_env :: "chip \<Rightarrow> env \<Rightarrow> bool" where
  "chip_env chip env \<longleftrightarrow> (\<forall>tr. (env tr FIO2PIN AND MISO_MASK \<noteq> 0) = chip_level chip (wires tr))"

definition chip_pins :: "chip \<Rightarrow> pins \<Rightarrow> bool" where
  "chip_pins chip pins \<longleftrightarrow> (\<forall>lg. pins lg RP_MISO_PIN = chip_level chip (wires (on_wires lg)))"

text \<open>
  \<open>talks chip ob w w' bits levels\<close>: while the selected chip on the wires \<open>w\<close> is sent \<open>bits\<close>,
  up to the wires \<open>w'\<close>, the port reads \<open>levels\<close>, the chip's answers.
\<close>

definition talks :: "chip \<Rightarrow> bb_spi \<Rightarrow> wire \<Rightarrow> wire \<Rightarrow> bool list \<Rightarrow> bool list \<Rightarrow> bool" where
  "talks chip ob w w' bits levels \<longleftrightarrow> (sampling_edge ob \<and> idle_clock ob w \<and> \<not> w_cs w \<longrightarrow>
     idle_clock ob w' \<and> \<not> w_cs w' \<and> w_frames w' = w_frames w \<and> w_bits w' = w_bits w @ bits \<and>
     levels = chip_bits chip (w_frames w) (w_bits w) bits)"

lemma talks_Nil: "talks chip ob w w [] []"
  by (simp add: talks_def)

lemma talks_append:
  "talks chip ob w w' bits levels \<Longrightarrow> talks chip ob w' w'' bits' levels' \<Longrightarrow>
   talks chip ob w w'' (bits @ bits') (levels @ levels')"
  by (simp add: talks_def chip_bits_append)

text \<open>A deselected chip on an idle bus that has received the frames \<open>fs\<close>; selecting and deselecting.\<close>

definition waits :: "bb_spi \<Rightarrow> wire \<Rightarrow> buf list \<Rightarrow> bool" where
  "waits ob w fs \<longleftrightarrow> sampling_edge ob \<and> idle_clock ob w \<and> w_cs w \<and> w_frames w = map bytes_bits fs"

lemma frame_answered:
  assumes "waits ob w fs" and "talks chip ob (wire_step True w (Wr FIO2CLR CS_MASK)) w' (bytes_bits tx) levels"
  shows "waits ob (wire_step True w' (Wr FIO2SET CS_MASK)) (fs @ [tx]) \<and> levels = bytes_bits (answer chip fs tx)"
proof -
  let ?w = "wire_step True w (Wr FIO2CLR CS_MASK)"
  have w: "sampling_edge ob" "idle_clock ob ?w" "\<not> w_cs ?w" "w_bits ?w = []" "w_frames ?w = map bytes_bits fs"
    using assms(1) by (auto simp: waits_def wire_step_def pin_after_def Let_def bb_spi_regs idle_clock_def)
  have w': "idle_clock ob w'" "\<not> w_cs w'" "w_frames w' = map bytes_bits fs" "w_bits w' = bytes_bits tx"
    and l: "levels = chip_bits chip (map bytes_bits fs) [] (bytes_bits tx)"
    using assms(2) w unfolding talks_def by simp_all
  have "waits ob (wire_step True w' (Wr FIO2SET CS_MASK)) (fs @ [tx])"
    using w(1) w' by (auto simp: waits_def wire_step_def pin_after_def Let_def bb_spi_regs idle_clock_def)
  with l show ?thesis by (simp add: chip_bits_bytes)
qed

subsection \<open>The port of the LPC1768\<close>

lemma bb_bit_talks:
  "\<exists>b tr'. bb_bit env ob m rxb tr = (shift_in rxb b, tr') \<and>
     (chip_env chip env \<longrightarrow> talks chip ob (wires tr) (wires tr') [m] [b])"
proof (cases "chip_env chip env \<and> sampling_edge ob \<and> idle_clock ob (wires tr) \<and> \<not> w_cs (wires tr)")
  case True
  let ?b = "chip_bit chip (w_frames (wires tr)) (w_bits (wires tr))"
  have "env h FIO2PIN AND MISO_MASK = 0 \<longleftrightarrow> \<not> chip_level chip (wires h)" for h
    using True unfolding chip_env_def by blast
  note e = this [unfolded bb_spi_regs]
  have w: "sampling_edge ob" "idle_clock ob (wires tr)" "\<not> w_cs (wires tr)" using True by simp_all
  let ?r = "bb_bit env ob m rxb tr"
  have "fst ?r = shift_in rxb ?b"
    using w unfolding bb_bit_def set_sck_def set_mosi_def get_miso_def delay_half_period_def
    by (cases m; cases "bb_cpha ob = 0"; cases "bb_cpol ob = 0")
       (simp_all add: Let_def e chip_level_def idle_clock_def sampling_edge_def wire_step_def pin_after_def bb_spi_regs)
  moreover have "talks chip ob (wires tr) (wires (snd ?r)) [m] [?b]"
    using w unfolding bb_bit_def set_sck_def set_mosi_def get_miso_def delay_half_period_def talks_def
    by (cases m; cases "bb_cpha ob = 0"; cases "bb_cpol ob = 0")
       (simp_all add: Let_def idle_clock_def sampling_edge_def wire_step_def pin_after_def bb_spi_regs)
  ultimately show ?thesis by (metis prod.collapse)
next
  case False
  then show ?thesis using bb_bit_sends [of env ob m rxb tr] by (auto simp: talks_def)
qed

interpretation bbt: bit_shifter "bb_bit env ob"
  "\<lambda>tr tr' bits levels. chip_env chip env \<longrightarrow> talks chip ob (wires tr) (wires tr') bits levels" for env ob chip
proof
  fix tr tr' tr'' :: trace and bs ls bs' ls' m r
  show "chip_env chip env \<longrightarrow> talks chip ob (wires tr) (wires tr) [] []" by (simp add: talks_Nil)
  show "chip_env chip env \<longrightarrow> talks chip ob (wires tr) (wires tr'') (bs @ bs') (ls @ ls')"
    if "chip_env chip env \<longrightarrow> talks chip ob (wires tr) (wires tr') bs ls"
      "chip_env chip env \<longrightarrow> talks chip ob (wires tr') (wires tr'') bs' ls'"
    using that talks_append by blast
  show "\<exists>b s'. bb_bit env ob m r tr = (shift_in r b, s') \<and>
      (chip_env chip env \<longrightarrow> talks chip ob (wires tr) (wires s') [m] [b])"
    by (rule bb_bit_talks)
qed

definition bb_at :: "chip \<Rightarrow> env \<Rightarrow> bb_spi \<Rightarrow> buf list \<Rightarrow> bool" where
  "bb_at chip env ob fs \<longleftrightarrow> chip_env chip env \<and> waits ob (wires (bb_hw ob)) fs"

lemma bb_transaction_answered:
  assumes "bb_at chip env ob fs" and n: "n \<le> length tx" "n \<le> length rx"
  shows "\<exists>ob'. spi_transaction (bb_spi_dev env) i tx rx n ob =
      Some (True, answer chip fs (take n tx) @ drop n rx, ob') \<and> bb_at chip env ob' (fs @ [take n tx])"
proof -
  let ?ob = "ob\<lparr>bb_hw := bb_hw ob @ [Wr FIO2CLR CS_MASK]\<rparr>"
  obtain rxs tr where t: "shift_bytes (bb_bit env ?ob) tx n 0 rx (bb_hw ?ob) = Some (take 0 rx @ rxs @ drop n rx, tr)"
    "length rxs = n - 0"
    "chip_env chip env \<longrightarrow> talks chip ?ob (wires (bb_hw ?ob)) (wires tr) (bytes_bits (take (n - 0) (drop 0 tx))) (bytes_bits rxs)"
    using bbt.bytes_sent [OF n le0, of env ?ob "bb_hw ?ob" chip] by blast
  have "talks chip ?ob = talks chip ob" "waits ?ob = waits ob"
    by (simp_all add: fun_eq_iff talks_def waits_def sampling_edge_def idle_clock_def)
  then have "talks chip ob (wire_step True (wires (bb_hw ob)) (Wr FIO2CLR CS_MASK)) (wires tr) (bytes_bits (take n tx)) (bytes_bits rxs)"
    using t(3) assms(1) by (simp add: bb_at_def)
  then have w: "waits ob (wire_step True (wires tr) (Wr FIO2SET CS_MASK)) (fs @ [take n tx])"
    "bytes_bits rxs = bytes_bits (answer chip fs (take n tx))"
    using frame_answered assms(1) unfolding bb_at_def by blast+
  let ?ob' = "?ob\<lparr>bb_hw := tr @ [Wr FIO2SET CS_MASK]\<rparr>"
  have "spi_transaction (bb_spi_dev env) i tx rx n ob = Some (True, rxs @ drop n rx, ?ob')"
    using t(1) by (simp add: spi_transaction_def SPI_TIMEOUT_MS_def bb_select_def bb_deselect_def bb_transfer_def)
  moreover have "bb_at chip env ?ob' (fs @ [take n tx])"
    using w(1) assms(1) by (simp add: bb_at_def waits_def sampling_edge_def idle_clock_def)
  ultimately show ?thesis using bytes_bits_inject [OF w(2)] by blast
qed

interpretation bbc: spi_answered "bb_spi_dev env" chip "bb_at chip env" for env chip
  by unfold_locales (rule bb_transaction_answered)

text \<open>After \<^verbatim>\<open>init\<close> in mode 0 the chip waits, whatever the pins did before.\<close>

lemma bb_init_at:
  assumes "chip_env chip env" and "w_cs (wires (bb_hw ob))" and "w_frames (wires (bb_hw ob)) = map bytes_bits fs"
  obtains ob' where "bb_init env 1000000 0 ob = Some (Spi_OK, ob')" "bb_at chip env ob' fs"
proof -
  obtain ob' where "bb_init env 1000000 0 ob = Some (Spi_OK, ob')" "bb_at chip env ob' fs"
    using assms by (auto simp: bb_init_def Let_def reg_clear_def reg_or_def set_sck_def bb_at_def waits_def sampling_edge_def
        idle_clock_def wire_step_def pin_after_def bb_spi_regs)
  then show ?thesis by (rule that)
qed

subsection \<open>The port of the RP2040\<close>

lemma rp_bit_talks:
  "\<exists>b lg'. rp_bit pins ob m rxb lg = (shift_in rxb b, lg') \<and> pixels lg' = pixels lg \<and>
     (chip_pins chip pins \<longrightarrow> talks chip (as_bb ob) (wires (on_wires lg)) (wires (on_wires lg')) [m] [b])"
proof (cases "chip_pins chip pins \<and> sampling_edge (as_bb ob) \<and> idle_clock (as_bb ob) (wires (on_wires lg)) \<and>
    \<not> w_cs (wires (on_wires lg))")
  case True
  let ?w = "wires (on_wires lg)"
  let ?b = "chip_bit chip (w_frames ?w) (w_bits ?w)"
  have "pins h RP_MISO_PIN = chip_level chip (wires (on_wires h))" for h
    using True unfolding chip_pins_def by blast
  note e = this [unfolded rp_pins]
  have w: "sampling_edge (as_bb ob)" "idle_clock (as_bb ob) ?w" "\<not> w_cs ?w" using True by simp_all
  let ?r = "rp_bit pins ob m rxb lg"
  have "fst ?r = shift_in rxb ?b"
    using w unfolding rp_bit_def rp_set_sck_def rp_set_mosi_def rp_get_miso_def
    by (cases m; cases "rs_cpha ob = 0"; cases "rs_cpol ob = 0")
       (simp_all add: Let_def e rp_pins wire_mask_def as_bb_def chip_level_def idle_clock_def sampling_edge_def wire_step_def
         pin_after_def bb_spi_regs)
  moreover have "talks chip (as_bb ob) ?w (wires (on_wires (snd ?r))) [m] [?b]"
    using w unfolding rp_bit_def rp_set_sck_def rp_set_mosi_def rp_get_miso_def talks_def
    by (cases m; cases "rs_cpha ob = 0"; cases "rs_cpol ob = 0")
       (simp_all add: Let_def rp_pins wire_mask_def as_bb_def idle_clock_def sampling_edge_def wire_step_def
         pin_after_def bb_spi_regs)
  moreover have "pixels (snd ?r) = pixels lg"
    using rp_bit_sends [of pins ob m rxb lg] by (auto simp: rp_sends_def)
  ultimately show ?thesis by (metis prod.collapse)
next
  case False
  then show ?thesis using rp_bit_sends [of pins ob m rxb lg] by (auto simp: talks_def rp_sends_def)
qed

interpretation rpt: bit_shifter "rp_bit pins ob"
  "\<lambda>lg lg' bits levels. pixels lg' = pixels lg \<and>
     (chip_pins chip pins \<longrightarrow> talks chip (as_bb ob) (wires (on_wires lg)) (wires (on_wires lg')) bits levels)"
  for pins ob chip
proof
  fix lg lg' lg'' :: pico_trace and bs ls bs' ls' m r
  let ?t = "\<lambda>lg lg' bits levels. pixels lg' = pixels lg \<and>
     (chip_pins chip pins \<longrightarrow> talks chip (as_bb ob) (wires (on_wires lg)) (wires (on_wires lg')) bits levels)"
  show "?t lg lg [] []" by (simp add: talks_Nil)
  show "?t lg lg'' (bs @ bs') (ls @ ls')" if "?t lg lg' bs ls" "?t lg' lg'' bs' ls'"
    using that talks_append by simp blast
  show "\<exists>b s'. rp_bit pins ob m r lg = (shift_in r b, s') \<and> ?t lg s' [m] [b]"
    by (rule rp_bit_talks)
qed

text \<open>The LED's words are recorded beside the frames.\<close>

definition rp_at :: "chip \<Rightarrow> pins \<Rightarrow> u32 list \<Rightarrow> rp_spi \<Rightarrow> buf list \<Rightarrow> bool" where
  "rp_at chip pins px ob fs \<longleftrightarrow> chip_pins chip pins \<and> pixels (rs_log ob) = px \<and>
     waits (as_bb ob) (wires (on_wires (rs_log ob))) fs"

lemma rp_at_log: "rp_at chip pins px ob fs \<Longrightarrow> on_wires evs = [] \<Longrightarrow> rp_at chip pins (px @ pixels evs) (rp_log evs ob) fs"
  by (simp add: rp_at_def rp_log_def waits_def as_bb_def sampling_edge_def idle_clock_def)

lemma rp_transaction_answered:
  assumes "rp_at chip pins px ob fs" and n: "n \<le> length tx" "n \<le> length rx"
  shows "\<exists>ob'. spi_transaction (rp_spi_dev pins) i tx rx n ob =
      Some (True, answer chip fs (take n tx) @ drop n rx, ob') \<and> rp_at chip pins px ob' (fs @ [take n tx])"
proof -
  let ?ob = "rp_log [Gpio_put RP_CS_PIN False, Sleep_us 5] ob"
  obtain rxs lg where t: "shift_bytes (rp_bit pins ?ob) tx n 0 rx (rs_log ?ob) = Some (take 0 rx @ rxs @ drop n rx, lg)"
    "length rxs = n - 0" "pixels lg = pixels (rs_log ?ob)"
    "chip_pins chip pins \<longrightarrow> talks chip (as_bb ?ob) (wires (on_wires (rs_log ?ob))) (wires (on_wires lg))
      (bytes_bits (take (n - 0) (drop 0 tx))) (bytes_bits rxs)"
    using rpt.bytes_sent [OF n le0, of pins ?ob "rs_log ?ob" chip] by blast
  let ?post = "[Sleep_us 5, Gpio_put RP_CS_PIN True, Sleep_us 5]"
  let ?ob' = "ob\<lparr>rs_log := lg @ ?post\<rparr>"
  have s: "talks chip (as_bb ?ob) = talks chip (as_bb ob)" "waits (as_bb ?ob') = waits (as_bb ob)"
    by (simp_all add: fun_eq_iff talks_def waits_def sampling_edge_def idle_clock_def as_bb_def rp_log_def)
  have "on_wires (rs_log ?ob) = on_wires (rs_log ob) @ [Wr FIO2CLR CS_MASK]"
    "on_wires (rs_log ?ob') = on_wires lg @ [Wr FIO2SET CS_MASK]"
    by (simp_all add: rp_log_def wire_mask_def rp_pins)
  note c = this
  have "talks chip (as_bb ob) (wire_step True (wires (on_wires (rs_log ob))) (Wr FIO2CLR CS_MASK)) (wires (on_wires lg))
      (bytes_bits (take n tx)) (bytes_bits rxs)"
    using t(4) assms(1) unfolding s c by (simp add: rp_at_def)
  then have w: "waits (as_bb ob) (wire_step True (wires (on_wires lg)) (Wr FIO2SET CS_MASK)) (fs @ [take n tx])"
    "bytes_bits rxs = bytes_bits (answer chip fs (take n tx))"
    using frame_answered assms(1) unfolding rp_at_def by blast+
  have "spi_transaction (rp_spi_dev pins) i tx rx n ob = Some (True, rxs @ drop n rx, ?ob')"
    using t(1) by (simp add: spi_transaction_def SPI_TIMEOUT_MS_def rp_spi_select_def rp_spi_deselect_def rp_spi_transfer_def)
      (simp add: rp_log_def)
  moreover have "rp_at chip pins px ?ob' (fs @ [take n tx])"
    using w(1) assms(1) t(3) unfolding rp_at_def s c by (simp add: rp_log_def)
  ultimately show ?thesis using bytes_bits_inject [OF w(2)] by blast
qed

interpretation rpc: spi_answered "rp_spi_dev pins" chip "rp_at chip pins px" for pins chip px
  by unfold_locales (rule rp_transaction_answered)

lemma rp_init_at:
  assumes "chip_pins chip pins" and "on_wires lg = []"
  obtains ob' where "rp_spi_init 1000000 0 (rp_spi_new lg) = Some (Spi_OK, ob')" "rp_at chip pins (pixels lg) ob' []"
proof -
  obtain ob' where "rp_spi_init 1000000 0 (rp_spi_new lg) = Some (Spi_OK, ob')" "rp_at chip pins (pixels lg) ob' []"
    using assms by (auto simp: rp_spi_init_def Let_def rp_spi_new_def rp_set_sck_def rp_at_def waits_def sampling_edge_def as_bb_def
        idle_clock_def wires_def wire0_def wire_step_def pin_after_def bb_spi_regs rp_pins wire_mask_def)
  then show ?thesis by (rule that)
qed

end
