(* ===== verification/Mcp2515_Chip.thy ===== *)
theory Mcp2515_Chip
  imports Spi_Chip
begin

text \<open>
  What the CAN programs rely on of the MCP2515. The controller is not part of the repository, so it is any
  \<open>chip\<close>, and its documented behaviour, as far as the comments of \<^verbatim>\<open>mcp2515.cpp\<close> quote the data
  sheet, is a predicate on chips: registers can be read at any time, the receive buffer is read by one
  instruction, a requested mode is entered after some polls, and in loopback mode what was loaded and requested to be
  sent arrives in the receive buffer. The last part is a small chip that behaves so.
\<close>

text \<open>The contents of a register, as a READ instruction shows them.\<close>

definition reg :: "chip \<Rightarrow> buf list \<Rightarrow> u8 \<Rightarrow> u8" where
  "reg chip fs a = chip fs [0x03, a]"

definition RXB0SIDH :: u8 where "RXB0SIDH = 0x61"

text \<open>READ RX BUFFER (sec. 12.4) answers the registers from \<^verbatim>\<open>RXB0SIDH\<close> on.\<close>

definition reads_buffer :: "chip \<Rightarrow> bool" where
  "reads_buffer chip \<longleftrightarrow> (\<forall>fs k. k < 13 \<longrightarrow>
     chip fs (0x90 # replicate k 0) = reg chip fs (RXB0SIDH + of_nat k))"

text \<open>
  A history that ends with a reset (which selects configuration mode, sec. 10.1) and, behind it,
  register reads and writes of the bit timing only.
\<close>

definition config_access :: "buf \<Rightarrow> bool" where
  "config_access f \<longleftrightarrow> f \<noteq> [] \<and> (hd f = 0x03 \<or> hd f = 0x02 \<and> f ! 1 \<in> {0x28, 0x29, 0x2A})"

definition configuring :: "buf list \<Rightarrow> bool" where
  "configuring fs \<longleftrightarrow> (\<exists>pre post. fs = pre @ [0xC0] # post \<and> list_all config_access post)"

definition mode_polls :: "buf list \<Rightarrow> u8 \<Rightarrow> nat \<Rightarrow> buf list" where
  "mode_polls fs w k = fs @ [0x02, 0x0F, w] # replicate k [0x03, 0x0E, 0]"

text \<open>
  From configuration mode, a mode requested in \<^verbatim>\<open>CANCTRL\<close> is shown by \<^verbatim>\<open>CANSTAT\<close> from some poll on, after at
  most \<open>d\<close> of them.
\<close>

definition enters_mode :: "chip \<Rightarrow> nat \<Rightarrow> mode \<Rightarrow> bool" where
  "enters_mode chip d m \<longleftrightarrow> (\<forall>fs w. configuring fs \<and> drop_bit 5 w = mode_code m \<longrightarrow> (\<exists>j \<le> d. \<forall>k.
     (canstat_mode (reg chip (mode_polls fs w k) 0x0E) = mode_code m) = (j \<le> k)))"

text \<open>
  The receive buffer holds the identifier, the length and the data of a frame; the other bits of its
  registers are unspecified.
\<close>

definition in_buffer :: "chip \<Rightarrow> buf list \<Rightarrow> frame \<Rightarrow> bool" where
  "in_buffer chip fs f \<longleftrightarrow>
     reg chip fs RXB0SIDH = tx_header f ! 1 \<and>
     drop_bit 5 (reg chip fs (RXB0SIDH + 1)) = drop_bit 5 (tx_header f ! 2) \<and>
     reg chip fs (RXB0SIDH + 4) AND 0x0F = tx_header f ! 5 \<and>
     (\<forall>k < unat (f_dlc f). reg chip fs (RXB0SIDH + 5 + of_nat k) = f_data f ! k)"

text \<open>The flag \<^verbatim>\<open>RX0IF\<close>; a chip in loopback mode whose receive buffer is free.\<close>

definition message_flag :: "chip \<Rightarrow> buf list \<Rightarrow> bool" where
  "message_flag chip fs \<longleftrightarrow> reg chip fs 0x2C AND 0x01 \<noteq> 0"

definition loopback_ready :: "chip \<Rightarrow> buf list \<Rightarrow> bool" where
  "loopback_ready chip fs \<longleftrightarrow> canstat_mode (reg chip fs 0x0E) = mode_code LOOPBACK \<and> \<not> message_flag chip fs"

text \<open>The load of a frame, the request to send it, and \<open>k\<close> reads of the flags.\<close>

definition sent_frames :: "frame \<Rightarrow> nat \<Rightarrow> buf list" where
  "sent_frames f k = [tx_header f @ tx_payload f, [0x81]] @ replicate k [0x03, 0x2C, 0]"

text \<open>
  Loopback mode (sec. 10.4): a frame sent while the receive buffer is free arrives there within \<open>e\<close> reads of the
  flags, and then the flag stays set; reading the buffer (sec. 12.4) clears it, and the
  chip is as before. No flag is set when the mode is entered after a reset.
\<close>

definition loops_back :: "chip \<Rightarrow> nat \<Rightarrow> bool" where
  "loops_back chip e \<longleftrightarrow>
     (\<forall>fs w k. configuring fs \<and> drop_bit 5 w = mode_code LOOPBACK \<longrightarrow> \<not> message_flag chip (mode_polls fs w k)) \<and>
     (\<forall>fs f. loopback_ready chip fs \<and> frame_ok f \<longrightarrow> (\<exists>j \<le> e. \<forall>k.
        message_flag chip (fs @ sent_frames f k) = (j \<le> k) \<and>
        (j \<le> k \<longrightarrow> in_buffer chip (fs @ sent_frames f k) f \<and>
           loopback_ready chip (fs @ sent_frames f k @ [0x90 # replicate 13 0]))))"

definition loopback_chip :: "chip \<Rightarrow> nat \<Rightarrow> nat \<Rightarrow> bool" where
  "loopback_chip chip d e \<longleftrightarrow> reads_buffer chip \<and> enters_mode chip d LOOPBACK \<and> loops_back chip e"

subsection \<open>What the driver makes of the receive buffer\<close>

lemma buffer_answer:
  assumes "reads_buffer chip" and "k < 13"
  shows "answer chip fs (0x90 # replicate 13 0) ! Suc k = reg chip fs (RXB0SIDH + of_nat k)"
proof -
  have "take k (replicate 13 0) = replicate k (0 :: u8)" using assms(2) by simp
  then show ?thesis using assms unfolding reads_buffer_def by simp
qed

lemma received_frame:
  assumes "reads_buffer chip" and "in_buffer chip fs f" and "frame_ok f"
  shows "rx_frame (answer chip fs (0x90 # replicate 13 0)) =
    f\<lparr>f_data := tx_payload f @ replicate (8 - unat (f_dlc f)) 0\<rparr>"
proof -
  let ?n = "unat (f_dlc f)"
  let ?y = "answer chip fs (0x90 # replicate 13 0)"
  let ?t = "0 # tl (tx_header f) @ tx_payload f @ replicate (8 - ?n) 0"
  have n: "?n \<le> 8" using assms(3) by (simp add: frame_ok_def dlc_bound)
  have l: "length (tx_payload f) = ?n" using assms(3) n by (simp add: tx_payload_def frame_ok_def)
  note y = buffer_answer [OF assms(1), of _ fs]
  have "f_dlc f AND 0x0F = f_dlc f" using assms(3) by (simp add: frame_ok_def and_0F)
  then have "?y ! 1 = ?t ! 1" "drop_bit 5 (?y ! 2) = drop_bit 5 (?t ! 2)" "?y ! 5 AND 0x0F = ?t ! 5 AND 0x0F"
    using y [of 0] y [of 1] y [of 4] assms(2,3)
    by (simp_all add: in_buffer_def tx_header_def numeral_eq_Suc)
  then have h: "rx_id ?y = rx_id ?t" "rx_dlc ?y = rx_dlc ?t" by (simp_all add: rx_id_def rx_dlc_def)
  have f: "rx_frame ?t = f\<lparr>f_data := tx_payload f @ replicate (8 - ?n) 0\<rparr>"
    by (rule rx_frame_of_tx [OF assms(3)])
  have dlc: "rx_dlc ?t = f_dlc f" using arg_cong [OF f, of f_dlc] by (simp add: rx_frame_def Let_def)
  have "take ?n (drop 6 ?y) = take ?n (drop 6 ?t)"
  proof (rule nth_equalityI)
    fix k assume "k < length (take ?n (drop 6 ?y))"
    then have k: "k < ?n" by simp
    have "take ?n (drop 6 ?y) ! k = ?y ! Suc (5 + k)" using k n by simp
    also have "\<dots> = f_data f ! k"
      using y [of "5 + k"] k n assms(2) by (simp add: in_buffer_def add.assoc)
    also have "\<dots> = take ?n (drop 6 ?t) ! k" using k l by (simp add: tx_header_def tx_payload_def nth_append)
    finally show "take ?n (drop 6 ?y) ! k = take ?n (drop 6 ?t) ! k" .
  qed (use l n in \<open>simp add: tx_header_def\<close>)
  then have "rx_frame ?y = rx_frame ?t" by (simp only: rx_frame_def h dlc Let_def)
  with f show ?thesis by simp
qed

lemma configuring_init: "configuring (fs @ configuration c1 c2 c3 @ [[0x03, 0x0F, 0]])"
  unfolding configuring_def
  by (intro exI [of _ fs] exI [of _ "[[0x02, 0x28, c3], [0x02, 0x29, c2], [0x02, 0x2A, c1], [0x03, 0x0F, 0]]"])
     (simp add: configuration_def config_access_def)

lemma config_history_polls:
  "config_history fs c1 c2 c3 w k = mode_polls (fs @ configuration c1 c2 c3 @ [[0x03, 0x0F, 0]]) w k"
  by (simp add: config_history_def mode_polls_def)

subsection \<open>A chip of this kind\<close>

text \<open>
  Registers that change at once: a reset, register writes, the transmit buffer from \<^verbatim>\<open>0x31\<close> on, a
  request to send in loopback mode and a read of the receive buffer.
\<close>

definition demo_reset :: "u8 \<Rightarrow> u8" where
  "demo_reset = (\<lambda>_. 0)(0x0E := 0x80, 0x0F := 0x87)"

definition demo_step :: "(u8 \<Rightarrow> u8) \<Rightarrow> buf \<Rightarrow> (u8 \<Rightarrow> u8)" where
  "demo_step r f =
     (if f = [] then r
      else if hd f = 0xC0 then demo_reset
      else if hd f = 0x02 then
        if f ! 1 = 0x0F then r(0x0F := f ! 2, 0x0E := f ! 2 AND 0xE0) else r(f ! 1 := f ! 2)
      else if hd f = 0x40 then
        (\<lambda>a. if 0x31 \<le> unat a \<and> unat a < 0x30 + length f then f ! (unat a - 0x30) else r a)
      else if hd f = 0x81 \<and> canstat_mode (r 0x0E) = 2 then
        (\<lambda>a. if 0x61 \<le> unat a \<and> unat a \<le> 0x6D then r (a - 0x30) else if a = 0x2C then r a OR 1 else r a)
      else if hd f = 0x90 then r(0x2C := r 0x2C AND 0xFE)
      else r)"

definition demo_regs :: "buf list \<Rightarrow> u8 \<Rightarrow> u8" where
  "demo_regs fs = foldl demo_step demo_reset fs"

definition demo_chip :: chip where
  "demo_chip fs cur =
     (if cur = [] then 0
      else if hd cur = 0x03 \<and> 2 \<le> length cur then demo_regs fs (cur ! 1)
      else if hd cur = 0x90 then demo_regs fs (0x60 + of_nat (length cur))
      else 0)"

lemma demo_reg [simp]: "reg demo_chip fs a = demo_regs fs a"
  by (simp add: reg_def demo_chip_def)

lemma demo_regs_simps [simp]:
  "demo_regs [] = demo_reset"
  "demo_regs (fs @ fs') = foldl demo_step (demo_regs fs) fs'"
  by (simp_all add: demo_regs_def)

lemma demo_reads [simp]: "foldl demo_step r (replicate k [0x03, a, 0]) = r"
  by (induction k) (simp_all add: demo_step_def)

lemma demo_reads_buffer: "reads_buffer demo_chip"
  by (simp add: reads_buffer_def demo_chip_def RXB0SIDH_def)

lemma demo_mode_polls: "demo_regs (mode_polls fs w k) = (demo_regs fs)(0x0F := w, 0x0E := w AND 0xE0)"
  by (simp add: mode_polls_def, simp add: demo_step_def)

lemma canstat_mode_masked: "drop_bit 5 w = mode_code m \<Longrightarrow> canstat_mode (w AND 0xE0) = mode_code m"
  by (cases m) (simp_all add: canstat_mode_def drop_bit_and)

lemma demo_enters_mode: "enters_mode demo_chip 0 m"
  by (auto simp: enters_mode_def demo_mode_polls canstat_mode_masked)

lemma demo_config_access: "config_access f \<Longrightarrow> demo_step r f 0x2C = r 0x2C"
  by (elim disjE conjE insertE emptyE | simp add: demo_step_def config_access_def)+

lemma demo_configuring:
  assumes "configuring fs"
  shows "demo_regs fs 0x2C = 0"
proof -
  have post: "list_all config_access post \<Longrightarrow> foldl demo_step r post 0x2C = r 0x2C" for post r
    by (induction post arbitrary: r) (simp_all add: demo_config_access)
  obtain pre post where fs: "fs = pre @ [0xC0] # post" "list_all config_access post"
    using assms by (auto simp: configuring_def)
  have "demo_step r [0xC0] 0x2C = 0" for r by (simp add: demo_step_def demo_reset_def)
  with post [OF fs(2)] show ?thesis by (simp add: fs(1))
qed

lemma demo_load:
  "hd f = 0x40 \<Longrightarrow> f \<noteq> [] \<Longrightarrow> demo_step r f =
     (\<lambda>a. if 0x31 \<le> unat a \<and> unat a < 0x30 + length f then f ! (unat a - 0x30) else r a)"
  by (simp add: demo_step_def)

lemma demo_rts:
  "canstat_mode (r 0x0E) = 2 \<Longrightarrow> demo_step r [0x81] =
     (\<lambda>a. if 0x61 \<le> unat a \<and> unat a \<le> 0x6D then r (a - 0x30) else if a = 0x2C then r a OR 1 else r a)"
  by (simp add: demo_step_def)

lemma demo_loops_back: "loops_back demo_chip 0"
  unfolding loops_back_def
proof (intro conjI allI impI)
  fix fs w k assume "configuring fs \<and> drop_bit 5 w = mode_code LOOPBACK"
  then show "\<not> message_flag demo_chip (mode_polls fs w k)"
    by (simp add: message_flag_def demo_mode_polls demo_configuring)
next
  fix fs f assume a: "loopback_ready demo_chip fs \<and> frame_ok f"
  let ?l = "tx_header f @ tx_payload f"
  let ?r = "demo_step (demo_step (demo_regs fs) ?l) [0x81]"
  have n: "unat (f_dlc f) \<le> 8" using a by (simp add: frame_ok_def dlc_bound)
  have len: "length ?l = 6 + unat (f_dlc f)" using a n by (simp add: tx_header_def tx_payload_def frame_ok_def)
  have m: "canstat_mode (demo_regs fs 0x0E) = 2" "demo_regs fs 0x2C AND 1 = 0"
    using a by (simp_all add: loopback_ready_def message_flag_def)
  have hd: "hd ?l = 0x40" "?l \<noteq> []" by (simp_all add: tx_header_def INSTR_LOAD_TXB0_def)
  note load = demo_load [OF hd, of "demo_regs fs"]
  have same: "demo_step (demo_regs fs) ?l 0x0E = demo_regs fs 0x0E" "demo_step (demo_regs fs) ?l 0x2C = demo_regs fs 0x2C"
    by (simp_all add: load)
  then have rts: "?r = (\<lambda>a. if 0x61 \<le> unat a \<and> unat a \<le> 0x6D then demo_step (demo_regs fs) ?l (a - 0x30)
      else if a = 0x2C then demo_step (demo_regs fs) ?l a OR 1 else demo_step (demo_regs fs) ?l a)"
    using m(1) by (intro demo_rts) simp
  have regs: "?r 0x2C = demo_regs fs 0x2C OR 1" "?r 0x0E = demo_regs fs 0x0E"
    by (simp_all only: rts same) simp_all
  have buf: "?r (0x61 + of_nat k) = ?l ! (k + 1)" if "k < 5 + unat (f_dlc f)" for k
  proof -
    have k: "k < 13" using that n by simp
    have u: "unat (0x61 + of_nat k :: u8) = 0x61 + k" "unat (0x31 + of_nat k :: u8) = 0x31 + k"
      using k by (simp_all add: unat_word_ariths unat_of_nat)
    have "?r (0x61 + of_nat k) = demo_step (demo_regs fs) ?l (0x31 + of_nat k)"
      unfolding rts using k u(1) by simp
    also have "\<dots> = ?l ! (k + 1)" unfolding load using that len u(2) by simp
    finally show ?thesis .
  qed
  have h: "demo_regs (fs @ sent_frames f k) = ?r" for k by (simp add: sent_frames_def)
  have hr: "demo_regs (fs @ sent_frames f k @ [0x90 # replicate 13 0]) = ?r(0x2C := ?r 0x2C AND 0xFE)" for k
    by (simp add: sent_frames_def) (simp add: demo_step_def)
  have "message_flag demo_chip (fs @ sent_frames f k)" for k
    unfolding message_flag_def demo_reg h regs by simp
  moreover have "in_buffer demo_chip (fs @ sent_frames f k) f" for k
  proof -
    have "?l ! (5 + i + 1) = f_data f ! i" if "i < unat (f_dlc f)" for i
      using that a n by (simp add: tx_header_def tx_payload_def frame_ok_def)
    moreover have "f_dlc f AND 0x0F = f_dlc f" using a by (simp add: frame_ok_def and_0F)
    ultimately show ?thesis
      unfolding in_buffer_def demo_reg h RXB0SIDH_def
      using buf [of 0] buf [of 1] buf [of 4] buf [of "5 + i" for i]
      by (simp add: tx_header_def add.assoc)
  qed
  moreover have "loopback_ready demo_chip (fs @ sent_frames f k @ [0x90 # replicate 13 0])" for k
    unfolding loopback_ready_def message_flag_def demo_reg hr using m regs
    by (simp add: and.assoc)
  ultimately show "\<exists>j \<le> 0. \<forall>k. message_flag demo_chip (fs @ sent_frames f k) = (j \<le> k) \<and>
      (j \<le> k \<longrightarrow> in_buffer demo_chip (fs @ sent_frames f k) f \<and>
        loopback_ready demo_chip (fs @ sent_frames f k @ [0x90 # replicate 13 0]))"
    by auto
qed

lemma demo_loopback_chip: "loopback_chip demo_chip 0 0"
  by (simp add: loopback_chip_def demo_reads_buffer demo_enters_mode demo_loops_back)

end
