(* ===== verification/Can_Closed.thy ===== *)
theory Can_Closed
  imports Can_Programs Chip_Wire Mcp2515_Chip
begin

text \<open>
  The CAN programs on a real controller: the loopback test and the CAN node of the RP2040, with the
  bit-banged port wired to a chip that behaves as \<open>Mcp2515_Chip\<close> says. Every turn of the loopback test
  passes; the CAN node boots, and then keeps reporting the last frame its chip has received.
\<close>

subsection \<open>The driver and the exchange on any port with a chip\<close>

context spi_answered begin

text \<open>\<^verbatim>\<open>init\<close> succeeds in every mode the chip enters within a thousand polls, and the chip then shows the mode.\<close>

lemma init_enters_mode:
  assumes "at s fs" and "osc \<noteq> 0" and delay: "\<And>us s fs. at s fs \<Longrightarrow> at (delay us s) fs"
    and modes: "enters_mode chip d m" "d < 1000"
  obtains pre w k s' where "mcp_init dev i delay c1 c2 c3 m osc s = Some (True, s')"
    "configuring pre" "drop_bit 5 w = mode_code m" "at s' (mode_polls pre w k)"
    "canstat_mode (reg chip (mode_polls pre w k) 0x0E) = mode_code m"
    "pre = fs @ configuration c1 c2 c3 @ [[0x03, 0x0F, 0]]"
proof -
  let ?pre = "fs @ configuration c1 c2 c3 @ [[0x03, 0x0F, 0]]"
  let ?v = "chip (fs @ configuration c1 c2 c3) [0x03, 0x0F]"
  define w where "w = (?v AND 0x1F) OR push_bit 5 (mode_code m)"
  have w: "drop_bit 5 w = mode_code m" unfolding w_def by (rule canctrl_fields)
  obtain l where l: "l \<le> d" and shown: "\<And>k. shows_mode chip m (mode_polls ?pre w k) = (l \<le> k)"
    using modes(1) w configuring_init unfolding enters_mode_def reg_def shows_mode_def by blast
  have ex: "list_ex (\<lambda>k. shows_mode chip m (config_history fs c1 c2 c3 w k)) [0..<1000]"
    unfolding list_ex_iff config_history_polls shown set_upt using l modes(2) by (intro bexI [of _ l]) simp_all
  note init = init_answered [where i = i and ?c1.0 = c1 and ?c2.0 = c2 and ?c3.0 = c3 and delay = delay and m = m,
    OF assms(1,2) _ w_def]
  obtain j s' where 1: "mcp_init dev i delay c1 c2 c3 m osc s =
      Some (list_ex (\<lambda>k. shows_mode chip m (config_history fs c1 c2 c3 w k)) [0..<1000], s')"
    "at s' (config_history fs c1 c2 c3 w j)"
    "list_ex (\<lambda>k. shows_mode chip m (config_history fs c1 c2 c3 w k)) [0..<1000] \<Longrightarrow>
       0 < j \<and> shows_mode chip m (config_history fs c1 c2 c3 w (j - 1))"
    by (rule init) (erule delay, rule that)
  have j: "0 < j" "shows_mode chip m (mode_polls ?pre w (j - 1))"
    using 1(3) [OF ex] unfolding config_history_polls by simp_all
  then have sh: "shows_mode chip m (mode_polls ?pre w j)" unfolding shown by simp
  have r: "mcp_init dev i delay c1 c2 c3 m osc s = Some (True, s')" using 1(1) unfolding eqTrueI [OF ex] .
  show ?thesis
    by (rule that [OF r configuring_init w _ _ refl]) (use 1(2) sh in \<open>simp_all only: reg_def shows_mode_def config_history_polls\<close>)
qed

lemma one_shot_at:
  assumes "at s fs"
  obtains s' where "one_shot dev s = Some s'" "at s' (fs @ [[0x05, 0x0F, 0x08, 0x08]])"
proof -
  let ?tx = "[0x05, 0x0F, 0x08, 0x08] :: buf"
  obtain s' rx where 1: "spi_transaction dev 0 ?tx [0, 0, 0, 0] 4 s = Some (True, rx, s')" "at s' (fs @ [?tx])"
    using transaction_answered [OF assms, of 4 ?tx "[0, 0, 0, 0]" 0] by auto
  have "one_shot dev s = Some s'"
    using 1(1) by (auto simp: one_shot_def spi_transaction_def SPI_TIMEOUT_MS_def bind_eq_Some_conv split: if_splits)
  then show ?thesis using 1(2) by (rule that)
qed

lemma wait_answered:
  assumes "at s fs" and "\<And>k. message_flag chip (fs @ replicate k [0x03, 0x2C, 0]) = (j \<le> k)"
  shows "\<exists>s'. wait_message dev n s = Some s' \<and> at s' (fs @ replicate (min n (Suc j)) [0x03, 0x2C, 0])"
  using assms
proof (induction n arbitrary: s fs j)
  case (Suc n)
  let ?r = "[0x03, 0x2C, 0] :: buf"
  obtain s1 where 1: "mcp_has_message dev 0 s = Some (message_flag chip fs, s1)" "at s1 (fs @ [?r])"
    by (rule has_message_answered [OF Suc.prems(1), of 0]) (simp add: message_flag_def reg_def)
  show ?case
  proof (cases j)
    case 0
    then show ?thesis using 1 Suc.prems(2) [of 0] by simp
  next
    case (Suc i)
    have "message_flag chip ((fs @ [?r]) @ replicate k ?r) = (i \<le> k)" for k
      using Suc.prems(2) [of "Suc k"] Suc by simp
    from Suc.IH [OF 1(2) this] show ?thesis using 1(1) Suc.prems(2) [of 0] Suc by simp
  qed
qed simp

lemma exchange_passes:
  assumes "at s fs" and "loopback_ready chip fs" and chip: "reads_buffer chip" "loops_back chip e" "e \<le> 1000"
    and sid: "sid \<le> 0x7FF"
  obtains s' fs' where "loopback_check dev (loopback_frame sid) s = Some (True, s')" "at s' fs'"
    "loopback_ready chip fs'"
proof -
  let ?f = "loopback_frame sid"
  let ?h = "\<lambda>k. fs @ sent_frames ?f k"
  note ok = loopback_frame_ok [OF sid]
  obtain j where j: "j \<le> e" and flag: "\<And>k. message_flag chip (?h k) = (j \<le> k)"
    and buf: "\<And>k. j \<le> k \<Longrightarrow> in_buffer chip (?h k) ?f \<and> loopback_ready chip (?h k @ [0x90 # replicate 13 0])"
    using chip(2) assms(2) ok unfolding loops_back_def append_assoc by blast
  obtain s1 where 1: "mcp_send dev 0 ?f s = Some (True, s1)" "at s1 (?h 0)"
    by (rule send_answered [OF assms(1) ok, of 0]) (simp add: sent_frames_def)
  have h: "?h 0 @ replicate k [0x03, 0x2C, 0] = ?h k" for k by (simp add: sent_frames_def)
  let ?m = "min 1000 (Suc j)"
  obtain s2 where 2: "wait_message dev 1000 s1 = Some s2" "at s2 (?h ?m)"
    using wait_answered [OF 1(2), of j 1000] flag unfolding h by blast
  have m: "j \<le> ?m" using j chip(3) by simp
  obtain s3 where 3: "mcp_has_message dev 0 s2 = Some (True, s3)" "at s3 (?h ?m @ [[0x03, 0x2C, 0]])"
    by (rule has_message_answered [OF 2(2), of 0]) (use flag [of ?m] m in \<open>simp add: message_flag_def reg_def\<close>)
  have "?h ?m @ [[0x03, 0x2C, 0]] = ?h (Suc ?m)" by (simp add: sent_frames_def replicate_append_same)
  with 3(2) have at3: "at s3 (?h (Suc ?m))" by simp
  have "length (f_data frame_new) = 8" by (simp add: frame_new_def)
  then obtain s4 where 4: "mcp_receive dev 0 frame_new s3 =
      Some (True, rx_frame (answer chip (?h (Suc ?m)) (0x90 # replicate 13 0)), s4)"
    "at s4 (?h (Suc ?m) @ [0x90 # replicate 13 0])"
    by (rule receive_answered [OF at3])
  have "rx_frame (answer chip (?h (Suc ?m)) (0x90 # replicate 13 0)) = ?f"
    using received_frame [OF chip(1) _ ok, unfolded loopback_frame_padded] buf [of "Suc ?m"] m le_SucI by blast
  note rx = 4(1) [unfolded this]
  have "same_data (f_data ?f) (f_data ?f) 0 4 = Some True"
    by (subst same_data_result) (simp_all add: loopback_frame_data)
  then have "loopback_check dev ?f s = Some (True, s4)"
    using 1(1) 2(1) 3(1) rx by (simp add: loopback_check_def)
  then show ?thesis using 4(2) buf [of "Suc ?m"] m by (intro that) auto
qed

end

subsection \<open>The programs of the RP2040\<close>

lemma led_boot_silent [simp]: "on_wires led_boot = []"
  by (simp add: led_boot_def put_pixel_def numeral_3_eq_3)

lemma delay_us_at: "rp_at chip pins px ob fs \<Longrightarrow> rp_at chip pins px (delay_us_fn us ob) fs"
  using rp_at_log [of chip pins px ob fs "[Sleep_us us]"] by (simp add: delay_us_fn_def)

lemma set_up_running:
  assumes "chip_pins chip pins" and "enters_mode chip d m" and "d < 1000"
  obtains pre w k ob where "can_set_up pins m a b [] = Some (Running, ob)"
    "configuring pre" "drop_bit 5 w = mode_code m" "rp_at chip pins (pixels led_boot) ob (mode_polls pre w k)"
    "canstat_mode (reg chip (mode_polls pre w k) 0x0E) = mode_code m"
    "pre = configuration 0xC1 0xA4 0x04 @ [[0x03, 0x0F, 0]]"
proof -
  obtain ob1 where 1: "rp_spi_init 1000000 0 (rp_spi_new led_boot) = Some (Spi_OK, ob1)"
    "rp_at chip pins (pixels led_boot) ob1 []"
    by (rule rp_init_at [OF assms(1) led_boot_silent])
  have osc: "(8000000 :: u32) \<noteq> 0" by code_simp
  obtain pre w k ob where 2: "mcp_init (rp_spi_dev pins) 0 delay_us_fn 0xC1 0xA4 0x04 m 8000000 ob1 = Some (True, ob)"
    "configuring pre" "drop_bit 5 w = mode_code m" "rp_at chip pins (pixels led_boot) ob (mode_polls pre w k)"
    "canstat_mode (reg chip (mode_polls pre w k) 0x0E) = mode_code m"
    "pre = [] @ configuration 0xC1 0xA4 0x04 @ [[0x03, 0x0F, 0]]"
    by (rule rpc.init_enters_mode [OF 1(2) osc delay_us_at assms(2,3)])
  show ?thesis by (rule that [OF _ 2(2-5)]) (use 1(1) 2(1,6) in \<open>simp_all add: can_set_up_def\<close>)
qed

lemma show_result_at:
  assumes "rp_at chip pins px ob fs"
  shows "rp_at chip pins (px @ led_result ok) (rp_log (show_result ok) ob) fs"
    and "rp_at chip pins (px @ led_result ok) (rp_log (show_result ok @ [Sleep_ms ms]) ob) fs"
  using rp_at_log [OF assms, of "show_result ok"] rp_at_log [OF assms, of "show_result ok @ [Sleep_ms ms]"]
  by (simp_all add: led_result_def)

lemma loopback_run_passes:
  assumes "loopback_chip chip d e" and "e \<le> 1000"
    and "rp_at chip pins px ob fs" and "loopback_ready chip fs" and "sid \<le> 0x7FF"
  shows "\<exists>sid' ob'. can_loopback_run pins n sid ob = Some (sid', ob') \<and>
    pixels (rs_log ob') = px @ concat (replicate n (led_result True))"
  using assms(3-5)
proof (induction n arbitrary: sid ob fs px)
  case 0
  then show ?case by (simp add: rp_at_def)
next
  case (Suc n)
  have chip: "reads_buffer chip" "loops_back chip e" using assms(1) by (simp_all add: loopback_chip_def)
  obtain ob1 fs1 where 1: "loopback_check (rp_spi_dev pins) (loopback_frame sid) ob = Some (True, ob1)"
    "rp_at chip pins px ob1 fs1" "loopback_ready chip fs1"
    by (rule rpc.exchange_passes [OF Suc.prems(1,2) chip assms(2) Suc.prems(3)])
  note at = show_result_at(2) [OF 1(2), of True 950]
  from Suc.IH [OF at 1(3) next_id_bound [OF Suc.prems(3)]] show ?case
    using 1(1) by (simp add: can_loopback_turn_def)
qed

lemma loopback_boot_ready:
  assumes "chip_pins chip pins" and "loopback_chip chip d e" and "d < 1000"
  obtains ob fs where "can_loopback_boot pins [] = Some (Running, ob)" "rp_at chip pins (pixels led_boot) ob fs"
    "loopback_ready chip fs"
proof -
  have chip: "enters_mode chip d LOOPBACK" "loops_back chip e" using assms(2) by (simp_all add: loopback_chip_def)
  obtain pre w k ob where 1: "can_set_up pins LOOPBACK 100 50 [] = Some (Running, ob)"
    "configuring pre" "drop_bit 5 w = mode_code LOOPBACK" "rp_at chip pins (pixels led_boot) ob (mode_polls pre w k)"
    "canstat_mode (reg chip (mode_polls pre w k) 0x0E) = mode_code LOOPBACK"
    "pre = configuration 0xC1 0xA4 0x04 @ [[0x03, 0x0F, 0]]"
    by (rule set_up_running [OF assms(1) chip(1) assms(3)])
  have "\<not> message_flag chip (mode_polls pre w k)" using chip(2) 1(2,3) unfolding loops_back_def by blast
  with 1 show ?thesis by (intro that [of ob "mode_polls pre w k"]) (auto simp: can_loopback_boot_def loopback_ready_def)
qed

text \<open>The whole program: the set-up reaches the loop, and every turn shows green.\<close>

lemma can_loopback_passes:
  assumes "chip_pins chip pins" and "loopback_chip chip d e" and "d < 1000" and "e \<le> 1000"
  shows "\<exists>ob. can_loopback_boot pins [] = Some (Running, ob) \<and>
    (\<forall>n. \<exists>sid ob'. can_loopback_run pins n 0x100 ob = Some (sid, ob') \<and>
       pixels (rs_log ob') = pixels (rs_log ob) @ concat (replicate n (led_result True)))"
proof -
  obtain ob fs where 1: "can_loopback_boot pins [] = Some (Running, ob)" "rp_at chip pins (pixels led_boot) ob fs"
    "loopback_ready chip fs"
    by (rule loopback_boot_ready [OF assms(1-3)])
  have "pixels (rs_log ob) = pixels led_boot" using 1(2) by (simp add: rp_at_def)
  then show ?thesis using 1(1) loopback_run_passes [OF assms(2,4) 1(2,3), of "0x100"] by auto
qed

subsection \<open>The CAN node\<close>

text \<open>
  The frame the driver makes of the receive buffer after \<open>fs\<close>; whether one of \<open>n\<close> reads behind \<open>fs\<close> is of
  the kind \<open>P\<close>.
\<close>

definition decoded :: "chip \<Rightarrow> buf list \<Rightarrow> frame" where
  "decoded chip fs = rx_frame (answer chip fs (0x90 # replicate 13 0))"

definition hears :: "(frame \<Rightarrow> bool) \<Rightarrow> chip \<Rightarrow> buf list \<Rightarrow> nat \<Rightarrow> bool" where
  "hears P chip fs n \<longleftrightarrow> list_ex (\<lambda>i. P (decoded chip (fs @ replicate i (0x90 # replicate 13 0)))) [0..<n]"

lemma hears_0 [simp]: "\<not> hears P chip fs 0"
  by (simp add: hears_def)

lemma hears_Suc:
  "hears P chip fs (Suc n) \<longleftrightarrow> P (decoded chip fs) \<or> hears P chip (fs @ [0x90 # replicate 13 0]) n"
  unfolding hears_def list_ex_upt_Suc by simp

definition round_sent :: "buf list \<Rightarrow> u8 \<Rightarrow> buf list" where
  "round_sent fs c = fs @ [tx_header (node_frame c) @ tx_payload (node_frame c), [0x81]]"

text \<open>What \<open>n\<close> rounds report.\<close>

fun reports :: "chip \<Rightarrow> buf list \<Rightarrow> u8 \<Rightarrow> nat \<Rightarrow> bool list" where
  "reports chip fs c 0 = []"
| "reports chip fs c (Suc n) = hears from_lpc chip (round_sent fs c) 200 # reports chip (fs @ node_round c) (c + 1) n"

lemma listen_answered:
  assumes "rp_at chip pins px ob fs"
  obtains ob' where "can_listen pins n heard ob = Some (heard \<or> hears from_lpc chip fs n, ob')"
    "rp_at chip pins px ob' (fs @ replicate n (0x90 # replicate 13 0))"
proof -
  let ?r = "0x90 # replicate 13 0 :: buf"
  have "\<exists>ob'. can_listen pins n heard ob = Some (heard \<or> hears from_lpc chip fs n, ob') \<and>
      rp_at chip pins px ob' (fs @ replicate n ?r)"
    using assms
  proof (induction n arbitrary: heard ob fs)
    case 0
    then show ?case by (simp add: hears_def)
  next
    case (Suc n)
    have "length (f_data frame_new) = 8" by (simp add: frame_new_def)
    from rpc.receive_answered [OF Suc.prems this, of 0]
    obtain ob1 where 1: "mcp_receive (rp_spi_dev pins) 0 frame_new ob = Some (True, decoded chip fs, ob1)"
      "rp_at chip pins px ob1 (fs @ [?r])" unfolding decoded_def by blast
    have at: "rp_at chip pins px (rp_log [Sleep_ms 5] ob1) (fs @ [?r])"
      using rp_at_log [OF 1(2), of "[Sleep_ms 5]"] by simp
    show ?case
      using 1(1) Suc.IH [OF at, of "if from_lpc (decoded chip fs) then True else heard"] by (auto simp: hears_Suc)
  qed
  then show ?thesis using that by blast
qed

lemma node_turn_at:
  assumes "rp_at chip pins px ob fs"
  obtains ob' where "can_node_turn pins c ob = Some (c + 1, ob')"
    "rp_at chip pins (px @ led_result (hears from_lpc chip (round_sent fs c) 200)) ob' (fs @ node_round c)"
proof -
  obtain ob1 where 1: "mcp_send (rp_spi_dev pins) 0 (node_frame c) ob = Some (True, ob1)"
    "rp_at chip pins px ob1 (round_sent fs c)"
    using rpc.send_answered [OF assms node_frame_ok, of 0 c] unfolding round_sent_def by blast
  obtain ob2 where 2: "can_listen pins 200 False ob1 = Some (False \<or> hears from_lpc chip (round_sent fs c) 200, ob2)"
    "rp_at chip pins px ob2 (round_sent fs c @ replicate 200 (0x90 # replicate 13 0))"
    by (rule listen_answered [OF 1(2)])
  have "round_sent fs c @ replicate 200 (0x90 # replicate 13 0) = fs @ node_round c"
    by (simp add: round_sent_def node_round_def)
  note at = show_result_at(1) [OF 2(2) [unfolded this], of "hears from_lpc chip (round_sent fs c) 200"]
  show ?thesis by (rule that [OF _ at]) (use 1(1) 2(1) in \<open>simp add: can_node_turn_def\<close>)
qed

lemma node_run_at:
  assumes "rp_at chip pins px ob fs"
  shows "\<exists>ob'. can_node_run pins n c ob = Some (c + of_nat n, ob') \<and>
    rp_at chip pins (px @ concat (map led_result (reports chip fs c n))) ob' (fs @ rounds c n)"
  using assms
proof (induction n arbitrary: c ob fs px)
  case (Suc n)
  obtain ob1 where 1: "can_node_turn pins c ob = Some (c + 1, ob1)"
    "rp_at chip pins (px @ led_result (hears from_lpc chip (round_sent fs c) 200)) ob1 (fs @ node_round c)"
    by (rule node_turn_at [OF Suc.prems])
  from Suc.IH [OF 1(2), of "c + 1"] show ?case using 1(1) by (simp add: algebra_simps)
qed simp

text \<open>What the chip has received when the loop of a CAN node of this bit timing is reached.\<close>

definition boot_frames :: "u8 \<Rightarrow> nat \<Rightarrow> buf list" where
  "boot_frames w k = mode_polls (configuration 0xC1 0xA4 0x04 @ [[0x03, 0x0F, 0]]) w k @ [[0x05, 0x0F, 0x08, 0x08]]"

lemma node_boot_running:
  assumes "chip_pins chip pins" and "enters_mode chip d NORMAL" and "d < 1000"
  obtains ob w k where "can_node_boot pins [] = Some (Running, ob)" "rp_at chip pins (pixels led_boot) ob (boot_frames w k)"
proof -
  obtain pre w k ob where 1: "can_set_up pins NORMAL 200 100 [] = Some (Running, ob)"
    "configuring pre" "drop_bit 5 w = mode_code NORMAL" "rp_at chip pins (pixels led_boot) ob (mode_polls pre w k)"
    "canstat_mode (reg chip (mode_polls pre w k) 0x0E) = mode_code NORMAL"
    "pre = configuration 0xC1 0xA4 0x04 @ [[0x03, 0x0F, 0]]"
    by (rule set_up_running [OF assms])
  obtain ob' where 2: "one_shot (rp_spi_dev pins) ob = Some ob'"
    "rp_at chip pins (pixels led_boot) ob' (mode_polls pre w k @ [[0x05, 0x0F, 0x08, 0x08]])"
    by (rule rpc.one_shot_at [OF 1(4)])
  show ?thesis
    by (rule that [of ob' w k]) (use 1(1) 2 in \<open>auto simp: can_node_boot_def boot_frames_def 1(6)\<close>)
qed

text \<open>What the receive buffer holds is reported in every round.\<close>

lemma length_reports [simp]: "length (reports chip fs c n) = n"
  by (induction n arbitrary: fs c) simp_all

lemma held_decoded:
  assumes "reads_buffer chip" and "frame_ok g" and "in_buffer chip fs g"
  shows "f_id (decoded chip fs) = f_id g" and "f_dlc (decoded chip fs) = f_dlc g"
  using received_frame [OF assms(1,3,2)] by (simp_all add: decoded_def)

text \<open>\<open>holds chip L P\<close>: behind \<open>L\<close> frames the receive buffer holds a frame of the kind \<open>P\<close>.\<close>

definition holds :: "chip \<Rightarrow> nat \<Rightarrow> (frame \<Rightarrow> bool) \<Rightarrow> bool" where
  "holds chip L P \<longleftrightarrow> (\<forall>fs. L \<le> length fs \<longrightarrow> (\<exists>g. frame_ok g \<and> P g \<and> in_buffer chip fs g))"

text \<open>A kind that only the identifier and the length decide.\<close>

definition by_header :: "(frame \<Rightarrow> bool) \<Rightarrow> bool" where
  "by_header P \<longleftrightarrow> (\<forall>g h. f_id g = f_id h \<and> f_dlc g = f_dlc h \<longrightarrow> P g = P h)"

lemma by_header_from_lpc [simp]: "by_header from_lpc"
  by (simp add: by_header_def from_lpc_def)

lemma held_hears:
  assumes "reads_buffer chip" and "holds chip L (\<lambda>g. P g = v)" and "by_header P" and "L \<le> length fs" and "0 < n"
  shows "hears P chip fs n = v"
proof -
  have "P (decoded chip (fs @ replicate i (0x90 # replicate 13 0))) = v" for i
  proof -
    let ?fs = "fs @ replicate i (0x90 # replicate 13 0)"
    have "L \<le> length ?fs" using assms(4) by simp
    then obtain g where g: "frame_ok g" "P g = v" "in_buffer chip ?fs g"
      using assms(2) unfolding holds_def by blast
    have "P (decoded chip ?fs) = P g"
      using assms(3) held_decoded [OF assms(1) g(1,3)] unfolding by_header_def by blast
    with g(2) show ?thesis by simp
  qed
  then show ?thesis using assms(5) by (auto simp: hears_def list_ex_iff)
qed

lemma held_reports:
  assumes "reads_buffer chip" and "holds chip L (\<lambda>g. from_lpc g = v)"
  shows "k < n \<Longrightarrow> L \<le> length fs + k \<Longrightarrow> reports chip fs c n ! k = v"
proof (induction n arbitrary: fs c k)
  case (Suc n)
  show ?case
  proof (cases k)
    case 0
    then show ?thesis
      using Suc.prems held_hears [OF assms by_header_from_lpc, where fs = "round_sent fs c" and n = 200] by (simp add: round_sent_def)
  next
    case (Suc j)
    then show ?thesis
      using Suc.IH [of j "fs @ node_round c" "c + 1"] Suc.prems by (simp add: node_round_def)
  qed
qed simp

lemma node_runs_and_reports:
  assumes "chip_pins chip pins" and "enters_mode chip d NORMAL" and "d < 1000"
    and "reads_buffer chip" and "holds chip L (\<lambda>g. from_lpc g = v)"
  shows "\<exists>ob. can_node_boot pins [] = Some (Running, ob) \<and>
    (\<forall>n. \<exists>heard ob'. can_node_run pins n 0 ob = Some (of_nat n, ob') \<and> length heard = n \<and>
       pixels (rs_log ob') = pixels (rs_log ob) @ concat (map led_result heard) \<and>
       drop L heard = replicate (n - L) v)"
proof -
  obtain ob w k where 1: "can_node_boot pins [] = Some (Running, ob)" "rp_at chip pins (pixels led_boot) ob (boot_frames w k)"
    by (rule node_boot_running [OF assms(1-3)])
  let ?fs = "boot_frames w k"
  have px: "pixels (rs_log ob) = pixels led_boot" using 1(2) by (simp add: rp_at_def)
  have "drop L (reports chip ?fs 0 n) = replicate (n - L) v" for n
    by (rule nth_equalityI) (use held_reports [OF assms(4,5)] in simp_all)
  then have "\<exists>heard ob'. can_node_run pins n 0 ob = Some (of_nat n, ob') \<and> length heard = n \<and>
       pixels (rs_log ob') = pixels (rs_log ob) @ concat (map led_result heard) \<and>
       drop L heard = replicate (n - L) v" for n
    using node_run_at [OF 1(2), of n 0] px
    by (intro exI [of _ "reports chip ?fs 0 n"]) (auto simp: rp_at_def)
  with 1(1) show ?thesis by blast
qed

subsection \<open>Properties\<close>

text \<open>
  C12: the set-up of the RP2040's CAN programs, for every chip and every mode: it enters the loop exactly if the
  chip shows the mode in one of a thousand polls of \<^verbatim>\<open>CANSTAT\<close>, which come behind the reset, the three writes of
  the bit timing and a read-modify-write of \<^verbatim>\<open>CANCTRL\<close>, and otherwise blinks the error; the chip is then deselected and
  has received exactly these frames, and the LED has shown the boot sequence.
\<close>

theorem can_set_up_outcome:
  assumes "chip_pins chip pins"
    and "w = (chip (configuration 0xC1 0xA4 0x04) [0x03, 0x0F] AND 0x1F) OR push_bit 5 (mode_code m)"
  shows "\<exists>j ob. can_set_up pins m spi_ms can_ms [] =
      Some (if list_ex (\<lambda>k. shows_mode chip m (config_history [] 0xC1 0xA4 0x04 w k)) [0..<1000]
            then Running else Blinking can_ms, ob) \<and>
    rp_at chip pins (pixels led_boot) ob (config_history [] 0xC1 0xA4 0x04 w j)"
proof -
  obtain ob1 where 1: "rp_spi_init 1000000 0 (rp_spi_new led_boot) = Some (Spi_OK, ob1)"
    "rp_at chip pins (pixels led_boot) ob1 []"
    by (rule rp_init_at [OF assms(1) led_boot_silent])
  have osc: "(8000000 :: u32) \<noteq> 0" by code_simp
  have w: "w = (chip ([] @ configuration 0xC1 0xA4 0x04) [0x03, 0x0F] AND 0x1F) OR push_bit 5 (mode_code m)"
    using assms(2) by simp
  obtain j ob where "mcp_init (rp_spi_dev pins) 0 delay_us_fn 0xC1 0xA4 0x04 m 8000000 ob1 =
      Some (list_ex (\<lambda>k. shows_mode chip m (config_history [] 0xC1 0xA4 0x04 w k)) [0..<1000], ob)"
    "rp_at chip pins (pixels led_boot) ob (config_history [] 0xC1 0xA4 0x04 w j)"
    by (rule rpc.init_answered [OF 1(2) osc delay_us_at w])
  with 1(1) show ?thesis by (intro exI [of _ j] exI [of _ ob]) (simp add: can_set_up_def)
qed

text \<open>A chip that never leaves configuration mode, and one that enters loopback mode at once.\<close>

theorem can_set_up_outcome_witness:
  "(\<exists>ob. can_set_up (\<lambda>lg _. chip_level (\<lambda>_ _. 0x80) (wires (on_wires lg))) LOOPBACK 100 50 [] = Some (Blinking 50, ob)) \<and>
   (\<exists>ob. can_set_up (\<lambda>lg _. chip_level (\<lambda>_ _. 0x40) (wires (on_wires lg))) LOOPBACK 100 50 [] = Some (Running, ob))"
proof -
  let ?p = "\<lambda>c :: u8. \<lambda>lg _. chip_level (\<lambda>_ _. c) (wires (on_wires lg))"
  have p: "chip_pins (\<lambda>_ _. c) (?p c)" for c by (simp add: chip_pins_def)
  have "list_ex (\<lambda>k. shows_mode (\<lambda>_ _. 0x80) LOOPBACK (h k)) [0..<1000] = False"
    "list_ex (\<lambda>k. shows_mode (\<lambda>_ _. 0x40) LOOPBACK (h k)) [0..<1000] = True" for h
    by (simp_all add: shows_mode_def canstat_mode_def list_ex_iff) (rule exI [of _ 0], simp)
  then show ?thesis
    using can_set_up_outcome [OF p refl, of "0x80" LOOPBACK 100 50] can_set_up_outcome [OF p refl, of "0x40" LOOPBACK 100 50]
    by (simp only: if_True if_False) blast
qed

text \<open>
  C13: the CAN node reports a peer that is gone. On every chip that enters normal mode within 999 polls the set-up
  reaches the loop, and if from some point on (after \<open>L\<close> SPI frames) no further CAN frame arrives,
  so that the receive buffer keeps the last one, \<open>g\<close>, then from the round \<open>L\<close> at the latest every round
  reports the same: if \<open>g\<close> came from the LPC1768, the LED stays green forever after the LPC1768
  has fallen silent, because \<^verbatim>\<open>receive\<close> does not look at the flag that says whether a frame is waiting.
\<close>

theorem can_node_reports_stale_frame:
  assumes "chip_pins chip pins" and "enters_mode chip d NORMAL" and "d < 1000"
    and "reads_buffer chip" and "frame_ok g" and "\<And>fs. L \<le> length fs \<Longrightarrow> in_buffer chip fs g"
  shows "\<exists>ob. can_node_boot pins [] = Some (Running, ob) \<and>
    (\<forall>n. \<exists>heard ob'. can_node_run pins n 0 ob = Some (of_nat n, ob') \<and> length heard = n \<and>
       pixels (rs_log ob') = pixels (rs_log ob) @ concat (map led_result heard) \<and>
       drop L heard = replicate (n - L) (from_lpc g))"
  by (rule node_runs_and_reports [OF assms(1-4)]) (use assms(5,6) in \<open>auto simp: holds_def\<close>)

text \<open>A chip whose receive buffer holds a frame of one byte.\<close>

definition lpc_frame :: frame where
  "lpc_frame = \<lparr>f_id = 0x200, f_dlc = 1, f_data = 7 # replicate 7 0\<rparr>"

definition holding_chip :: "frame \<Rightarrow> chip" where
  "holding_chip g fs cur =
     (let r = (demo_regs fs)(0x61 := tx_header g ! 1, 0x62 := tx_header g ! 2, 0x65 := 1, 0x66 := f_data g ! 0) in
      if cur = [] then 0
      else if hd cur = 0x03 \<and> 2 \<le> length cur then r (cur ! 1)
      else if hd cur = 0x90 then r (0x60 + of_nat (length cur))
      else 0)"

lemma holding_reg: "reg (holding_chip g) fs =
    (demo_regs fs)(0x61 := tx_header g ! 1, 0x62 := tx_header g ! 2, 0x65 := 1, 0x66 := f_data g ! 0)"
  by (rule ext) (simp add: reg_def holding_chip_def)

lemma holding_chip_kind: "enters_mode (holding_chip g) 0 m" "reads_buffer (holding_chip g)"
proof -
  show "enters_mode (holding_chip g) 0 m"
    by (auto simp: enters_mode_def holding_reg demo_mode_polls canstat_mode_masked)
  show "reads_buffer (holding_chip g)"
    unfolding reads_buffer_def holding_reg by (simp add: holding_chip_def RXB0SIDH_def)
qed

lemma holding_chip_holds: "f_dlc g = 1 \<Longrightarrow> in_buffer (holding_chip g) fs g"
  unfolding in_buffer_def holding_reg by (simp add: RXB0SIDH_def tx_header_def)

theorem can_node_reports_stale_frame_witness:
  "\<exists>ob ob'. can_node_run (\<lambda>lg _. chip_level (holding_chip lpc_frame) (wires (on_wires lg))) 2 0 ob = Some (2, ob') \<and>
    pixels (rs_log ob') = pixels (rs_log ob) @ led_result True @ led_result True"
proof -
  have p: "chip_pins (holding_chip lpc_frame) (\<lambda>lg _. chip_level (holding_chip lpc_frame) (wires (on_wires lg)))" by (simp add: chip_pins_def)
  have g: "frame_ok lpc_frame" "from_lpc lpc_frame" by (simp_all add: frame_ok_def from_lpc_def lpc_frame_def)
  have held: "in_buffer (holding_chip lpc_frame) fs lpc_frame" for fs
    by (rule holding_chip_holds) (simp add: lpc_frame_def)
  obtain ob heard ob' where
    "can_node_run (\<lambda>lg _. chip_level (holding_chip lpc_frame) (wires (on_wires lg))) 2 0 ob = Some (of_nat 2, ob')"
    "pixels (rs_log ob') = pixels (rs_log ob) @ concat (map led_result heard)"
    "drop 0 heard = replicate (2 - 0) (from_lpc lpc_frame)"
    using can_node_reports_stale_frame [OF p holding_chip_kind(1) _ holding_chip_kind(2) g(1) held, of 0]
    by (auto dest: spec [of _ 2])
  then show ?thesis using g(2) by (intro exI [of _ ob] exI [of _ ob']) (simp add: numeral_2_eq_2)
qed

end
