(* ===== verification/Can_Hil.thy ===== *)
theory Can_Hil
  imports Can_Closed Echo_Responder
begin

text \<open>
  \<^verbatim>\<open>tests/mcp2515_loopback_test.cpp\<close>: the loopback test of the LPC1768, on its bit-banged port. Its exchange is
  the one of the RP2040's test, and so is the reasoning: the lemmas of \<open>spi_answered\<close> are
  used on the other port. The registers of the LEDs are the ones of \<^verbatim>\<open>tests/rs485_test.cpp\<close>.
\<close>

subsection \<open>The program\<close>

text \<open>\<^verbatim>\<open>while (n--) for (volatile uint32_t i = 0; i < 6400; i++) { }\<close> and the delay of \<^verbatim>\<open>init\<close>.\<close>

definition hil_delay_ms :: "u32 \<Rightarrow> trace" where
  "hil_delay_ms n = replicate (unat n) (Spin 6400)"

definition hil_delay_us :: "u32 \<Rightarrow> bb_spi \<Rightarrow> bb_spi" where
  "hil_delay_us us ob = ob\<lparr>bb_hw := bb_hw ob @ [Spin (us * 96)]\<rparr>"

definition hil_leds :: "env \<Rightarrow> trace \<Rightarrow> trace" where
  "hil_leds env tr =
     (let tr = reg_clear env HIL_PINSEL3 (push_bit 4 3 OR push_bit 14 3) tr;
          tr = reg_or env HIL_FIO1DIR (HIL_LED1 OR HIL_LED4) tr
      in reg_wr HIL_FIO1CLR (HIL_LED1 OR HIL_LED4) tr)"

text \<open>Whether the loop is reached; otherwise one LED stays on and the program stops.\<close>

definition lpc_loopback_boot :: "env \<Rightarrow> trace \<Rightarrow> (bool \<times> bb_spi) option" where
  "lpc_loopback_boot env tr = do {
     (st, ob) \<leftarrow> spi_init (bb_spi_dev env) 1000000 0 (bb_spi_new (hil_leds env tr));
     if st \<noteq> Spi_OK then Some (False, ob\<lparr>bb_hw := reg_wr HIL_FIO1SET HIL_LED1 (bb_hw ob)\<rparr>)
     else do {
       (ok, ob) \<leftarrow> mcp_init (bb_spi_dev env) 0 hil_delay_us 0x00 0x90 0x02 LOOPBACK 8000000 ob;
       Some (ok, if ok then ob else ob\<lparr>bb_hw := reg_wr HIL_FIO1SET HIL_LED4 (bb_hw ob)\<rparr>) } }"

definition lpc_loopback_turn :: "env \<Rightarrow> u16 \<Rightarrow> bb_spi \<Rightarrow> (u16 \<times> bb_spi) option" where
  "lpc_loopback_turn env sid ob = do {
     (pass, ob) \<leftarrow> loopback_check (bb_spi_dev env) (loopback_frame sid) ob;
     let tr = (if pass then reg_wr HIL_FIO1CLR HIL_LED4 (reg_update env HIL_FIO1PIN (\<lambda>v. v XOR HIL_LED1) (bb_hw ob))
               else reg_wr HIL_FIO1SET HIL_LED4 (bb_hw ob));
     Some (next_id sid, ob\<lparr>bb_hw := tr @ hil_delay_ms 500\<rparr>) }"

fun lpc_loopback_run :: "env \<Rightarrow> nat \<Rightarrow> u16 \<Rightarrow> bb_spi \<Rightarrow> (u16 \<times> bb_spi) option" where
  "lpc_loopback_run env 0 sid ob = Some (sid, ob)"
| "lpc_loopback_run env (Suc n) sid ob = do {
     (sid, ob) \<leftarrow> lpc_loopback_turn env sid ob; lpc_loopback_run env n sid ob }"

subsection \<open>The LEDs and the wires\<close>

text \<open>Accesses that leave the pins of the port alone.\<close>

definition off_wires :: "trace \<Rightarrow> bool" where
  "off_wires tr \<longleftrightarrow> list_all (\<lambda>ev. case ev of Wr a v \<Rightarrow> a \<noteq> FIO2SET \<and> a \<noteq> FIO2CLR | _ \<Rightarrow> True) tr"

lemma off_wires_step: "off_wires [ev] \<Longrightarrow> wire_step edge w ev = w"
  by (cases ev) (simp_all add: off_wires_def wire_step_def pin_after_def Let_def)

lemma off_wires_run: "off_wires tr \<Longrightarrow> wire_run edge w tr = w"
proof (induction tr arbitrary: w)
  case (Cons ev tr)
  then have "off_wires [ev]" "off_wires tr" by (simp_all add: off_wires_def)
  with Cons.IH [of w] show ?case by (simp add: off_wires_step)
qed simp

lemma bb_at_log:
  "bb_at chip env ob fs \<Longrightarrow> off_wires evs \<Longrightarrow> bb_at chip env (ob\<lparr>bb_hw := bb_hw ob @ evs\<rparr>) fs"
  by (simp add: bb_at_def waits_def off_wires_run sampling_edge_def idle_clock_def)

lemma off_wires_delay [simp]: "off_wires (hil_delay_ms n)"
  by (simp add: off_wires_def hil_delay_ms_def list_all_length)

lemma off_wires_simps [simp]:
  "off_wires []" "off_wires (tr @ tr') \<longleftrightarrow> off_wires tr \<and> off_wires tr'"
  by (simp_all add: off_wires_def)

lemma fail_led_delay [simp]: "fail_led (tr @ hil_delay_ms n) = fail_led tr"
proof -
  have "writes (replicate k (Spin m)) = []" for k m by (induction k) simp_all
  then show ?thesis by (simp add: fail_led_def pin_level_no_writes hil_delay_ms_def)
qed

subsection \<open>The test on a chip\<close>

lemma hil_delay_us_at: "bb_at chip env ob fs \<Longrightarrow> bb_at chip env (hil_delay_us us ob) fs"
  unfolding hil_delay_us_def by (rule bb_at_log) (simp_all add: off_wires_def)

lemma hil_leds_wires: "wires (bb_hw (bb_spi_new (hil_leds env []))) = wire0"
proof -
  have "off_wires (hil_leds env [])"
    by (simp add: hil_leds_def Let_def reg_clear_def reg_or_def off_wires_def hil_regs bb_spi_regs)
  then show ?thesis by (simp add: wires_def off_wires_run bb_spi_new_def)
qed

lemma lpc_loopback_boot_ready:
  assumes "chip_env chip env" and "loopback_chip chip d e" and "d < 1000"
  obtains ob fs where "lpc_loopback_boot env [] = Some (True, ob)" "bb_at chip env ob fs" "loopback_ready chip fs"
proof -
  have chip: "enters_mode chip d LOOPBACK" "loops_back chip e" using assms(2) by (simp_all add: loopback_chip_def)
  have osc: "(8000000 :: u32) \<noteq> 0" by code_simp
  obtain ob1 where 1: "bb_init env 1000000 0 (bb_spi_new (hil_leds env [])) = Some (Spi_OK, ob1)" "bb_at chip env ob1 []"
    by (rule bb_init_at [OF assms(1), of "bb_spi_new (hil_leds env [])" "[]"]) (simp_all add: hil_leds_wires wire0_def)
  obtain pre w k ob where 2: "mcp_init (bb_spi_dev env) 0 hil_delay_us 0x00 0x90 0x02 LOOPBACK 8000000 ob1 = Some (True, ob)"
    "configuring pre" "drop_bit 5 w = mode_code LOOPBACK" "bb_at chip env ob (mode_polls pre w k)"
    "canstat_mode (reg chip (mode_polls pre w k) 0x0E) = mode_code LOOPBACK"
    "pre = [] @ configuration 0x00 0x90 0x02 @ [[0x03, 0x0F, 0]]"
    by (rule bbc.init_enters_mode [OF 1(2) osc hil_delay_us_at chip(1) assms(3)])
  have "\<not> message_flag chip (mode_polls pre w k)" using chip(2) 2(2,3) unfolding loops_back_def by blast
  with 1(1) 2 show ?thesis
    by (intro that [of ob "mode_polls pre w k"]) (auto simp: lpc_loopback_boot_def loopback_ready_def)
qed

lemma lpc_loopback_turn_passes:
  assumes "loopback_chip chip d e" and "e \<le> 1000"
    and "bb_at chip env ob fs" and "loopback_ready chip fs" and "sid \<le> 0x7FF"
  obtains ob' fs' where "lpc_loopback_turn env sid ob = Some (next_id sid, ob')" "bb_at chip env ob' fs'"
    "loopback_ready chip fs'" "\<not> fail_led (bb_hw ob')"
proof -
  have chip: "reads_buffer chip" "loops_back chip e" using assms(1) by (simp_all add: loopback_chip_def)
  obtain ob1 fs1 where 1: "loopback_check (bb_spi_dev env) (loopback_frame sid) ob = Some (True, ob1)"
    "bb_at chip env ob1 fs1" "loopback_ready chip fs1"
    by (rule bbc.exchange_passes [OF assms(3,4) chip assms(2,5)])
  let ?v = "env (bb_hw ob1) HIL_FIO1PIN"
  let ?evs = "[Rd HIL_FIO1PIN ?v, Wr HIL_FIO1PIN (?v XOR HIL_LED1), Wr HIL_FIO1CLR HIL_LED4] @ hil_delay_ms 500"
  let ?ob = "ob1\<lparr>bb_hw := bb_hw ob1 @ ?evs\<rparr>"
  have off: "off_wires [Rd HIL_FIO1PIN ?v, Wr HIL_FIO1PIN (?v XOR HIL_LED1), Wr HIL_FIO1CLR HIL_LED4]"
    by (simp add: off_wires_def hil_regs bb_spi_regs)
  show ?thesis
  proof (rule that)
    show "lpc_loopback_turn env sid ob = Some (next_id sid, ?ob)"
      using 1(1) by (simp add: lpc_loopback_turn_def)
    show "bb_at chip env ?ob fs1" by (rule bb_at_log [OF 1(2)]) (use off in \<open>simp only: off_wires_simps off_wires_delay simp_thms\<close>)
    have "\<not> fail_led (bb_hw ob1 @ [Rd HIL_FIO1PIN ?v, Wr HIL_FIO1PIN (?v XOR HIL_LED1), Wr HIL_FIO1CLR HIL_LED4])"
      by (simp add: fail_led_def hil_regs HIL_LED4_def)
    then have "\<not> fail_led ((bb_hw ob1 @ [Rd HIL_FIO1PIN ?v, Wr HIL_FIO1PIN (?v XOR HIL_LED1), Wr HIL_FIO1CLR HIL_LED4]) @
        hil_delay_ms 500)" by (simp only: fail_led_delay not_False_eq_True)
    then show "\<not> fail_led (bb_hw ?ob)" by simp
  qed (fact 1(3))
qed

lemma lpc_loopback_run_passes:
  assumes "loopback_chip chip d e" and "e \<le> 1000"
  shows "bb_at chip env ob fs \<Longrightarrow> loopback_ready chip fs \<Longrightarrow> sid \<le> 0x7FF \<Longrightarrow>
    \<exists>sid' ob'. lpc_loopback_run env (Suc n) sid ob = Some (sid', ob') \<and> \<not> fail_led (bb_hw ob')"
proof (induction n arbitrary: sid ob fs)
  case 0
  show ?case by (rule lpc_loopback_turn_passes [OF assms 0]) simp
next
  case (Suc n)
  obtain ob1 fs1 where 1: "lpc_loopback_turn env sid ob = Some (next_id sid, ob1)" "bb_at chip env ob1 fs1"
    "loopback_ready chip fs1"
    by (rule lpc_loopback_turn_passes [OF assms Suc.prems])
  from Suc.IH [OF 1(2,3) next_id_bound [OF Suc.prems(3)]] show ?case using 1(1) by auto
qed

subsection \<open>Properties\<close>

text \<open>
  C11: on a working controller both loopback tests pass forever. For every chip that enters loopback mode within
  999 polls and loops a frame back within 1000 reads of its flags, wired to the bit-banged port of
  the RP2040 or of the LPC1768, the set-up reaches the loop, and however many turns are taken, each
  returns and reports success: the LED of the RP2040 is green in every one, and the fail LED of the
  LPC1768 is off after every one.
\<close>

theorem loopback_tests_pass:
  assumes "loopback_chip chip d e" and "d < 1000" and "e \<le> 1000"
    and "chip_pins chip pins" and "chip_env chip env"
  shows "(\<exists>ob. can_loopback_boot pins [] = Some (Running, ob) \<and>
      (\<forall>n. \<exists>sid ob'. can_loopback_run pins n 0x100 ob = Some (sid, ob') \<and>
         pixels (rs_log ob') = pixels (rs_log ob) @ concat (replicate n (led_result True)))) \<and>
    (\<exists>ob. lpc_loopback_boot env [] = Some (True, ob) \<and>
      (\<forall>n. \<exists>sid ob'. lpc_loopback_run env (Suc n) 0x100 ob = Some (sid, ob') \<and> \<not> fail_led (bb_hw ob')))"
proof
  show "\<exists>ob. can_loopback_boot pins [] = Some (Running, ob) \<and>
      (\<forall>n. \<exists>sid ob'. can_loopback_run pins n 0x100 ob = Some (sid, ob') \<and>
         pixels (rs_log ob') = pixels (rs_log ob) @ concat (replicate n (led_result True)))"
    by (rule can_loopback_passes [OF assms(4,1-3)])
  obtain ob fs where "lpc_loopback_boot env [] = Some (True, ob)" "bb_at chip env ob fs" "loopback_ready chip fs"
    by (rule lpc_loopback_boot_ready [OF assms(5,1,2)])
  moreover have "(0x100 :: u16) \<le> 0x7FF" by simp
  ultimately show "\<exists>ob. lpc_loopback_boot env [] = Some (True, ob) \<and>
      (\<forall>n. \<exists>sid ob'. lpc_loopback_run env (Suc n) 0x100 ob = Some (sid, ob') \<and> \<not> fail_led (bb_hw ob'))"
    using lpc_loopback_run_passes [OF assms(1,3)] by blast
qed

theorem loopback_tests_pass_witness:
  "(\<exists>ob. can_loopback_boot (\<lambda>lg _. chip_level demo_chip (wires (on_wires lg))) [] = Some (Running, ob)) \<and>
   (\<exists>ob. lpc_loopback_boot (\<lambda>tr _. if chip_level demo_chip (wires tr) then 4 else 0) [] = Some (True, ob))"
proof -
  have "chip_pins demo_chip (\<lambda>lg _. chip_level demo_chip (wires (on_wires lg)))"
    "chip_env demo_chip (\<lambda>tr _. if chip_level demo_chip (wires tr) then 4 else 0)"
    by (simp_all add: chip_pins_def chip_env_def MISO_MASK_def)
  from loopback_tests_pass [OF demo_loopback_chip _ _ this] show ?thesis by auto
qed

end
