(* ===== verification/Can_Bus.thy ===== *)
theory Can_Bus
  imports Can_Hil
begin

text \<open>
  \<^verbatim>\<open>tests/mcp2515_bus_test.cpp\<close>: the CAN node of the LPC1768, the counterpart of \<^verbatim>\<open>rp2040/can_node.cpp\<close>, and both on
  one bus. What a program sends is read off its history: the contents of the transmit buffer of its chip at every request to
  send. A bus hands over such frames and nothing else. So the theorem is about both programs: what one builds, loads and
  requests is what the other listens for, through the register format, the SPI bytes and the wires of both ports.
\<close>

subsection \<open>The program\<close>

definition lpc_node_boot :: "env \<Rightarrow> trace \<Rightarrow> (bool \<times> bb_spi) option" where
  "lpc_node_boot env tr = do {
     (st, ob) \<leftarrow> spi_init (bb_spi_dev env) 1000000 0 (bb_spi_new (hil_leds env tr));
     if st \<noteq> Spi_OK then Some (False, ob\<lparr>bb_hw := reg_wr HIL_FIO1SET (HIL_LED1 OR HIL_LED4) (bb_hw ob)\<rparr>)
     else do {
       (ok, ob) \<leftarrow> mcp_init (bb_spi_dev env) 0 hil_delay_us 0xC1 0xA4 0x04 NORMAL 8000000 ob;
       if \<not> ok then Some (False, ob\<lparr>bb_hw := reg_wr HIL_FIO1SET (HIL_LED1 OR HIL_LED4) (bb_hw ob)\<rparr>)
       else do { ob \<leftarrow> one_shot (bb_spi_dev env) ob; Some (True, ob) } } }"

definition lpc_node_frame :: "u8 \<Rightarrow> frame" where
  "lpc_node_frame counter = frame_new\<lparr>f_id := 0x200, f_dlc := 1, f_data := (f_data frame_new)[0 := counter]\<rparr>"

definition from_rp :: "frame \<Rightarrow> bool" where
  "from_rp rx \<longleftrightarrow> f_id rx = 0x100 \<and> f_dlc rx = 1"

text \<open>\<^verbatim>\<open>for (int i = 0; i < 100; i++)\<close>, with the turns that are left.\<close>

fun lpc_listen :: "env \<Rightarrow> nat \<Rightarrow> bool \<Rightarrow> bb_spi \<Rightarrow> (bool \<times> bb_spi) option" where
  "lpc_listen env 0 heard ob = Some (heard, ob)"
| "lpc_listen env (Suc n) heard ob = do {
     (ok, rx, ob) \<leftarrow> mcp_receive (bb_spi_dev env) 0 frame_new ob;
     let heard = (if ok \<and> from_rp rx then True else heard);
     lpc_listen env n heard (ob\<lparr>bb_hw := bb_hw ob @ hil_delay_ms 5\<rparr>) }"

definition lpc_node_turn :: "env \<Rightarrow> u8 \<Rightarrow> bb_spi \<Rightarrow> (u8 \<times> bb_spi) option" where
  "lpc_node_turn env counter ob = do {
     (_, ob) \<leftarrow> mcp_send (bb_spi_dev env) 0 (lpc_node_frame counter) ob;
     (heard, ob) \<leftarrow> lpc_listen env 100 False ob;
     let tr = (if heard then reg_wr HIL_FIO1CLR HIL_LED4 (reg_update env HIL_FIO1PIN (\<lambda>v. v XOR HIL_LED1) (bb_hw ob))
               else reg_wr HIL_FIO1SET HIL_LED4 (bb_hw ob));
     Some (counter + 1, ob\<lparr>bb_hw := tr @ hil_delay_ms 500\<rparr>) }"

fun lpc_node_run :: "env \<Rightarrow> nat \<Rightarrow> u8 \<Rightarrow> bb_spi \<Rightarrow> (u8 \<times> bb_spi) option" where
  "lpc_node_run env 0 counter ob = Some (counter, ob)"
| "lpc_node_run env (Suc n) counter ob = do {
     (counter, ob) \<leftarrow> lpc_node_turn env counter ob; lpc_node_run env n counter ob }"

subsection \<open>Rounds on a chip\<close>

lemma by_header_from_rp [simp]: "by_header from_rp"
  by (simp add: by_header_def from_rp_def)

lemma node_frames_ok [simp]: "frame_ok (lpc_node_frame c)" "frame_ok (node_frame c)"
  by (simp_all add: lpc_node_frame_def node_frame_def frame_ok_def frame_new_def)

text \<open>Each node accepts the other's frames.\<close>

lemma node_frame_kinds [simp]: "from_rp (node_frame c)" "from_lpc (lpc_node_frame c)"
  by (simp_all add: from_rp_def from_lpc_def node_frame_def lpc_node_frame_def)

lemma lpc_listen_answered:
  assumes "bb_at chip env ob fs"
  shows "\<exists>ob'. lpc_listen env n heard ob = Some (heard \<or> hears from_rp chip fs n, ob') \<and>
    bb_at chip env ob' (fs @ replicate n (0x90 # replicate 13 0))"
  using assms
proof (induction n arbitrary: heard ob fs)
  case (Suc n)
  let ?r = "0x90 # replicate 13 0 :: buf"
  have "length (f_data frame_new) = 8" by (simp add: frame_new_def)
  from bbc.receive_answered [OF Suc.prems this, of 0]
  obtain ob1 where 1: "mcp_receive (bb_spi_dev env) 0 frame_new ob = Some (True, decoded chip fs, ob1)"
    "bb_at chip env ob1 (fs @ [?r])" unfolding decoded_def by blast
  note at = bb_at_log [OF 1(2) off_wires_delay, of 5]
  show ?case
    using 1(1) Suc.IH [OF at, of "if from_rp (decoded chip fs) then True else heard"] by (auto simp: hears_Suc)
qed simp

text \<open>The frames and the LED of a round.\<close>

definition lpc_sent :: "u8 \<Rightarrow> buf list" where
  "lpc_sent c = [tx_header (lpc_node_frame c) @ tx_payload (lpc_node_frame c), [0x81]]"

definition lpc_round :: "u8 \<Rightarrow> buf list" where
  "lpc_round c = lpc_sent c @ replicate 100 (0x90 # replicate 13 0)"

lemma lpc_node_turn_at:
  assumes "bb_at chip env ob fs"
  obtains ob' where "lpc_node_turn env c ob = Some (c + 1, ob')" "bb_at chip env ob' (fs @ lpc_round c)"
    "fail_led (bb_hw ob') = (\<not> hears from_rp chip (fs @ lpc_sent c) 100)"
proof -
  obtain ob1 where 1: "mcp_send (bb_spi_dev env) 0 (lpc_node_frame c) ob = Some (True, ob1)"
    "bb_at chip env ob1 (fs @ lpc_sent c)"
    using bbc.send_answered [OF assms node_frames_ok(1), of 0 c] unfolding lpc_sent_def by blast
  let ?h = "hears from_rp chip (fs @ lpc_sent c) 100"
  obtain ob2 where 2: "lpc_listen env 100 False ob1 = Some (?h, ob2)" "bb_at chip env ob2 (fs @ lpc_round c)"
    using lpc_listen_answered [OF 1(2), of 100 False] by (auto simp: lpc_round_def)
  let ?v = "env (bb_hw ob2) HIL_FIO1PIN"
  let ?led = "if ?h then [Rd HIL_FIO1PIN ?v, Wr HIL_FIO1PIN (?v XOR HIL_LED1), Wr HIL_FIO1CLR HIL_LED4]
    else [Wr HIL_FIO1SET HIL_LED4]"
  let ?ob = "ob2\<lparr>bb_hw := bb_hw ob2 @ (?led @ hil_delay_ms 500)\<rparr>"
  show ?thesis
  proof (rule that)
    show "lpc_node_turn env c ob = Some (c + 1, ?ob)"
      using 1(1) 2(1) by (simp add: lpc_node_turn_def del: lpc_listen.simps)
    have "off_wires ?led" by (simp add: off_wires_def hil_regs bb_spi_regs)
    then show "bb_at chip env ?ob (fs @ lpc_round c)"
      by (intro bb_at_log [OF 2(2)]) (simp only: off_wires_simps off_wires_delay simp_thms)
    have "fail_led (bb_hw ob2 @ ?led) = (\<not> ?h)" by (simp add: fail_led_def hil_regs HIL_LED4_def)
    then have "fail_led ((bb_hw ob2 @ ?led) @ hil_delay_ms 500) = (\<not> ?h)" by (simp only: fail_led_delay)
    then show "fail_led (bb_hw ?ob) = (\<not> ?h)" by simp
  qed
qed

text \<open>\<open>n\<close> rounds: the frames, and the LED of the last one.\<close>

lemma lpc_node_run_snoc:
  "lpc_node_run env (Suc n) c ob = do { (c, ob) \<leftarrow> lpc_node_run env n c ob; lpc_node_turn env c ob }"
proof (induction n arbitrary: c ob)
  case 0
  show ?case by (cases "lpc_node_turn env c ob") auto
next
  case (Suc n)
  show ?case
  proof (cases "lpc_node_turn env c ob")
    case (Some p)
    then have "lpc_node_run env (Suc m) c ob = lpc_node_run env m (fst p) (snd p)" for m by (cases p) simp
    then show ?thesis by (simp only: Suc.IH)
  qed simp
qed

fun lpc_rounds :: "u8 \<Rightarrow> nat \<Rightarrow> buf list" where
  "lpc_rounds c 0 = []"
| "lpc_rounds c (Suc n) = lpc_rounds c n @ lpc_round (c + of_nat n)"

lemma length_lpc_rounds [simp]: "length (lpc_rounds c n) = 102 * n"
  by (induction n) (simp_all add: lpc_round_def lpc_sent_def)

lemma lpc_node_run_at:
  assumes "bb_at chip env ob fs"
  shows "\<exists>ob'. lpc_node_run env n c ob = Some (c + of_nat n, ob') \<and> bb_at chip env ob' (fs @ lpc_rounds c n) \<and>
    (case n of 0 \<Rightarrow> True | Suc k \<Rightarrow> fail_led (bb_hw ob') =
       (\<not> hears from_rp chip (fs @ lpc_rounds c k @ lpc_sent (c + of_nat k)) 100))"
proof (induction n)
  case (Suc n)
  then obtain ob1 where 1: "lpc_node_run env n c ob = Some (c + of_nat n, ob1)" "bb_at chip env ob1 (fs @ lpc_rounds c n)"
    by blast
  obtain ob' where "lpc_node_turn env (c + of_nat n) ob1 = Some (c + of_nat n + 1, ob')"
    "bb_at chip env ob' ((fs @ lpc_rounds c n) @ lpc_round (c + of_nat n))"
    "fail_led (bb_hw ob') = (\<not> hears from_rp chip ((fs @ lpc_rounds c n) @ lpc_sent (c + of_nat n)) 100)"
    by (rule lpc_node_turn_at [OF 1(2)])
  then show ?case using 1(1) unfolding lpc_node_run_snoc by (intro exI [of _ ob']) (simp add: algebra_simps)
qed (use assms in auto)

lemma lpc_node_boot_at:
  assumes "chip_env chip env" and "enters_mode chip d NORMAL" and "d < 1000"
  obtains ob w k where "lpc_node_boot env [] = Some (True, ob)" "bb_at chip env ob (boot_frames w k)"
proof -
  have osc: "(8000000 :: u32) \<noteq> 0" by code_simp
  obtain ob1 where 1: "bb_init env 1000000 0 (bb_spi_new (hil_leds env [])) = Some (Spi_OK, ob1)" "bb_at chip env ob1 []"
    by (rule bb_init_at [OF assms(1), of "bb_spi_new (hil_leds env [])" "[]"]) (simp_all add: hil_leds_wires wire0_def)
  obtain pre w k ob2 where 2: "mcp_init (bb_spi_dev env) 0 hil_delay_us 0xC1 0xA4 0x04 NORMAL 8000000 ob1 = Some (True, ob2)"
    "configuring pre" "drop_bit 5 w = mode_code NORMAL" "bb_at chip env ob2 (mode_polls pre w k)"
    "canstat_mode (reg chip (mode_polls pre w k) 0x0E) = mode_code NORMAL"
    "pre = [] @ configuration 0xC1 0xA4 0x04 @ [[0x03, 0x0F, 0]]"
    by (rule bbc.init_enters_mode [OF 1(2) osc hil_delay_us_at assms(2,3)])
  obtain ob3 where 3: "one_shot (bb_spi_dev env) ob2 = Some ob3"
    "bb_at chip env ob3 (mode_polls pre w k @ [[0x05, 0x0F, 0x08, 0x08]])"
    by (rule bbc.one_shot_at [OF 2(4)])
  show ?thesis
    by (rule that [of ob3 w k]) (use 1(1) 2(1) 3 in \<open>auto simp: lpc_node_boot_def boot_frames_def 2(6)\<close>)
qed

subsection \<open>The bus\<close>

text \<open>
  The bytes of a frame in the registers from \<^verbatim>\<open>TXB0SIDH\<close> on, and the frames that a chip has been told to put on the
  bus: the contents of its transmit buffer at every request to send.
\<close>

definition frame_bytes :: "frame \<Rightarrow> buf" where
  "frame_bytes g = tl (tx_header g @ tx_payload g)"

definition air_step :: "buf \<times> buf list \<Rightarrow> buf \<Rightarrow> buf \<times> buf list" where
  "air_step st f = (case st of (txb, aired) \<Rightarrow>
     (case f of
        [] \<Rightarrow> (txb, aired)
      | instr # bytes \<Rightarrow>
          if instr = 0x40 then (bytes, aired)
          else if instr = 0x81 then (txb, aired @ [txb])
          else (txb, aired)))"

definition on_air :: "buf list \<Rightarrow> buf list" where
  "on_air fs = snd (foldl air_step ([], []) fs)"

text \<open>What the chips of the two boards have received on their wires, and the histories of the two programs.\<close>

definition rp_history :: "rp_spi \<Rightarrow> buf list" where
  "rp_history ob = map bits_bytes (w_frames (wires (on_wires (rs_log ob))))"

definition lpc_history :: "bb_spi \<Rightarrow> buf list" where
  "lpc_history ob = map bits_bytes (w_frames (wires (bb_hw ob)))"

definition rp_node_history :: "pins \<Rightarrow> buf list \<Rightarrow> bool" where
  "rp_node_history pins h \<longleftrightarrow> (\<exists>ob n c ob'. can_node_boot pins [] = Some (Running, ob) \<and>
     can_node_run pins n 0 ob = Some (c, ob') \<and> h = rp_history ob')"

definition lpc_node_history :: "env \<Rightarrow> buf list \<Rightarrow> bool" where
  "lpc_node_history env h \<longleftrightarrow> (\<exists>ob n c ob'. lpc_node_boot env [] = Some (True, ob) \<and>
     lpc_node_run env n 0 ob = Some (c, ob') \<and> h = lpc_history ob')"

text \<open>
  A bus from a sender with the given histories to a receiver: \<open>dl k\<close> are the frames that have been handed over to the receiver's
  chip when it has received \<open>k\<close> SPI frames. What is handed over has been sent in some history; and if
  anything is ever sent, something has been handed over from \<open>L\<close> SPI frames on. Frames may be late, lost or repeated.
\<close>

definition carries :: "(buf list \<Rightarrow> bool) \<Rightarrow> nat \<Rightarrow> (nat \<Rightarrow> buf list) \<Rightarrow> bool" where
  "carries history L dl \<longleftrightarrow>
     (\<forall>k. \<forall>b \<in> set (dl k). \<exists>h. history h \<and> b \<in> set (on_air h)) \<and>
     (\<forall>h. history h \<and> on_air h \<noteq> [] \<longrightarrow> (\<forall>k \<ge> L. dl k \<noteq> []))"

text \<open>The receiving chip keeps one of the frames handed over, and before the first one nothing that \<open>P\<close> accepts.\<close>

definition receives :: "chip \<Rightarrow> (nat \<Rightarrow> buf list) \<Rightarrow> (frame \<Rightarrow> bool) \<Rightarrow> bool" where
  "receives chip dl P \<longleftrightarrow> (\<forall>fs. \<exists>g. frame_ok g \<and> in_buffer chip fs g \<and>
     (if dl (length fs) = [] then \<not> P g else frame_bytes g \<in> set (dl (length fs))))"

subsubsection \<open>What the programs send\<close>

lemma history_at:
  "rp_at chip pins px ob fs \<Longrightarrow> rp_history ob = fs"
  "bb_at chip env ob' fs \<Longrightarrow> lpc_history ob' = fs"
  by (simp_all add: rp_history_def lpc_history_def rp_at_def bb_at_def waits_def o_def)

text \<open>SPI frames that neither load nor send.\<close>

definition quiet :: "buf \<Rightarrow> bool" where
  "quiet f \<longleftrightarrow> (case f of [] \<Rightarrow> True | i # b \<Rightarrow> i \<noteq> 0x40 \<and> i \<noteq> 0x81)"

lemma air_quiet: "list_all quiet fs \<Longrightarrow> foldl air_step st fs = st"
  by (induction fs) (auto simp: air_step_def quiet_def split: prod.splits list.splits)

lemma quiet_simps [simp]:
  "list_all quiet (boot_frames w k)" "list_all quiet (replicate n (0x90 # replicate 13 0))"
  by (simp_all add: boot_frames_def mode_polls_def configuration_def quiet_def list_all_iff)

lemma air_send:
  "foldl air_step (txb, aired) ([tx_header g @ tx_payload g, [0x81]] @ replicate n (0x90 # replicate 13 0)) =
     (frame_bytes g, aired @ [frame_bytes g])"
  by (simp add: air_quiet air_step_def frame_bytes_def tx_header_def INSTR_LOAD_TXB0_def)

lemma air_rounds [simp]:
  "foldl air_step (txb, aired) (node_round c) = (frame_bytes (node_frame c), aired @ [frame_bytes (node_frame c)])"
  "foldl air_step (txb, aired) (lpc_round c) = (frame_bytes (lpc_node_frame c), aired @ [frame_bytes (lpc_node_frame c)])"
  unfolding node_round_def lpc_round_def lpc_sent_def by (rule air_send)+

text \<open>The frames of \<open>n\<close> rounds of the two programs.\<close>

definition rp_frames :: "nat \<Rightarrow> buf list" where
  "rp_frames n = map (\<lambda>r. frame_bytes (node_frame (of_nat r))) [0..<n]"

definition lpc_frames :: "nat \<Rightarrow> buf list" where
  "lpc_frames n = map (\<lambda>r. frame_bytes (lpc_node_frame (of_nat r))) [0..<n]"

lemma rounds_snoc: "rounds c (Suc n) = rounds c n @ node_round (c + of_nat n)"
proof (induction n arbitrary: c)
  case (Suc n)
  have "rounds c (Suc (Suc n)) = node_round c @ rounds (c + 1) n @ node_round (c + 1 + of_nat n)"
    by (subst rounds.simps(2)) (simp only: Suc.IH)
  then show ?case by (simp only: rounds.simps(2) [of c n] append_assoc add.assoc of_nat_Suc)
qed simp

lemma on_air_rounds:
  "on_air (boot_frames w k @ rounds 0 n) = rp_frames n"
  "on_air (boot_frames w k @ lpc_rounds 0 n) = lpc_frames n"
proof -
  have "\<exists>txb. foldl air_step ([], []) (boot_frames w k @ rounds 0 n) = (txb, rp_frames n)"
  proof (induction n)
    case (Suc n)
    then show ?case unfolding rounds_snoc by (auto simp: rp_frames_def)
  qed (simp add: air_quiet rp_frames_def)
  then show "on_air (boot_frames w k @ rounds 0 n) = rp_frames n" by (auto simp: on_air_def)
  have "\<exists>txb. foldl air_step ([], []) (boot_frames w k @ lpc_rounds 0 n) = (txb, lpc_frames n)"
  proof (induction n)
    case (Suc n)
    then show ?case by (auto simp: lpc_frames_def)
  qed (simp add: air_quiet lpc_frames_def)
  then show "on_air (boot_frames w k @ lpc_rounds 0 n) = lpc_frames n" by (auto simp: on_air_def)
qed

subsubsection \<open>What the programs hear\<close>

text \<open>The header of a frame can be read off its bytes.\<close>

lemma frame_bytes_header:
  assumes "frame_ok g" and "frame_ok g'" and "frame_bytes g = frame_bytes g'"
  shows "f_id g = f_id g' \<and> f_dlc g = f_dlc g'"
proof -
  have dlc: "f_dlc g = f_dlc g'" using assms(3) by (simp add: frame_bytes_def tx_header_def)
  then have "0 # tl (tx_header g) @ tx_payload g @ replicate (8 - unat (f_dlc g)) 0 =
      0 # tl (tx_header g') @ tx_payload g' @ replicate (8 - unat (f_dlc g')) 0"
    using assms(3) by (simp add: frame_bytes_def tx_header_def)
  then have "f_id (rx_frame (0 # tl (tx_header g) @ tx_payload g @ replicate (8 - unat (f_dlc g)) 0)) =
      f_id (rx_frame (0 # tl (tx_header g') @ tx_payload g' @ replicate (8 - unat (f_dlc g')) 0))"
    by (rule arg_cong)
  then have "f_id g = f_id g'" unfolding rx_frame_of_tx [OF assms(1)] rx_frame_of_tx [OF assms(2)] by simp
  with dlc show ?thesis by simp
qed

text \<open>A read of the buffer is accepted exactly if something has been handed over.\<close>

lemma heard_iff_delivered:
  assumes "reads_buffer chip" and "receives chip dl P" and "by_header P"
    and sent: "\<And>k b. b \<in> set (dl k) \<Longrightarrow> \<exists>g. frame_ok g \<and> P g \<and> b = frame_bytes g"
  shows "P (decoded chip fs) \<longleftrightarrow> dl (length fs) \<noteq> []"
proof -
  obtain g where g: "frame_ok g" "in_buffer chip fs g"
    "if dl (length fs) = [] then \<not> P g else frame_bytes g \<in> set (dl (length fs))"
    using assms(2) unfolding receives_def by blast
  have "P (decoded chip fs) = P g"
    using assms(3) held_decoded [OF assms(1) g(1,2)] unfolding by_header_def by blast
  moreover have "P g" if ne: "dl (length fs) \<noteq> []"
  proof -
    obtain g' where "frame_ok g'" "P g'" "frame_bytes g = frame_bytes g'" using g(3) ne sent [of "frame_bytes g" "length fs"] by auto
    then show ?thesis using assms(3) frame_bytes_header [OF g(1)] unfolding by_header_def by blast
  qed
  ultimately show ?thesis using g(3) by auto
qed

definition delivered_in :: "(nat \<Rightarrow> buf list) \<Rightarrow> nat \<Rightarrow> nat \<Rightarrow> bool" where
  "delivered_in dl k n \<longleftrightarrow> list_ex (\<lambda>i. dl (k + i) \<noteq> []) [0..<n]"

lemma hears_iff_delivered:
  assumes "reads_buffer chip" and "receives chip dl P" and "by_header P"
    and "\<And>k b. b \<in> set (dl k) \<Longrightarrow> \<exists>g. frame_ok g \<and> P g \<and> b = frame_bytes g"
  shows "hears P chip fs n = delivered_in dl (length fs) n"
proof -
  have "P (decoded chip fs') \<longleftrightarrow> dl (length fs') \<noteq> []" for fs'
    by (rule heard_iff_delivered [OF assms(1-3)]) (rule assms(4))
  then show ?thesis by (simp add: hears_def delivered_in_def)
qed

lemma reports_iff_delivered:
  assumes "\<And>fs n. hears from_lpc chip fs n = delivered_in dl (length fs) n"
  shows "reports chip fs c n = map (\<lambda>r. delivered_in dl (length fs + 202 * r + 2) 200) [0..<n]"
proof (induction n arbitrary: fs c)
  case (Suc n)
  have "length (round_sent fs c) = length fs + 2" "length (fs @ node_round c) = length fs + 202"
    by (simp_all add: round_sent_def node_round_def)
  then show ?case
    using Suc.IH [of "fs @ node_round c" "c + 1"] assms
    by (simp add: upt_conv_Cons map_Suc_upt [symmetric] comp_def del: upt_Suc)
qed simp

subsubsection \<open>The histories of the two programs\<close>

lemma rp_history_sent:
  assumes "chip_pins chip pins" and "enters_mode chip d NORMAL" and "d < 1000"
  shows "rp_node_history pins h \<Longrightarrow> \<exists>n. on_air h = rp_frames n" and "\<exists>h. rp_node_history pins h \<and> on_air h = rp_frames n"
proof -
  obtain ob w k where 1: "can_node_boot pins [] = Some (Running, ob)" "rp_at chip pins (pixels led_boot) ob (boot_frames w k)"
    by (rule node_boot_running [OF assms])
  have 2: "\<exists>c ob'. can_node_run pins n 0 ob = Some (c, ob') \<and> on_air (rp_history ob') = rp_frames n" for n
    using node_run_at [OF 1(2), of n 0] history_at(1) on_air_rounds(1) by metis
  show "\<exists>h. rp_node_history pins h \<and> on_air h = rp_frames n"
    using 1(1) 2 [of n] unfolding rp_node_history_def by blast
  show "\<exists>n. on_air h = rp_frames n" if h: "rp_node_history pins h"
  proof -
    obtain n c ob' where "can_node_run pins n 0 ob = Some (c, ob')" "h = rp_history ob'"
      using h 1(1) unfolding rp_node_history_def by auto
    with 2 [of n] show ?thesis by auto
  qed
qed

lemma lpc_history_sent:
  assumes "chip_env chip env" and "enters_mode chip d NORMAL" and "d < 1000"
  shows "lpc_node_history env h \<Longrightarrow> \<exists>n. on_air h = lpc_frames n" and "\<exists>h. lpc_node_history env h \<and> on_air h = lpc_frames n"
proof -
  obtain ob w k where 1: "lpc_node_boot env [] = Some (True, ob)" "bb_at chip env ob (boot_frames w k)"
    by (rule lpc_node_boot_at [OF assms])
  have 2: "\<exists>c ob'. lpc_node_run env n 0 ob = Some (c, ob') \<and> on_air (lpc_history ob') = lpc_frames n" for n
    using lpc_node_run_at [OF 1(2), of n 0] history_at(2) on_air_rounds(2) by metis
  show "\<exists>h. lpc_node_history env h \<and> on_air h = lpc_frames n"
    using 1(1) 2 [of n] unfolding lpc_node_history_def by blast
  show "\<exists>n. on_air h = lpc_frames n" if h: "lpc_node_history env h"
  proof -
    obtain n c ob' where "lpc_node_run env n 0 ob = Some (c, ob')" "h = lpc_history ob'"
      using h 1(1) unfolding lpc_node_history_def by auto
    with 2 [of n] show ?thesis by auto
  qed
qed

text \<open>What a bus hands over from one of them, and when.\<close>

lemma carries_frames:
  assumes "carries history L dl" and "\<And>h. history h \<Longrightarrow> \<exists>n. on_air h = map (\<lambda>r. frame_bytes (f (of_nat r))) [0..<n]"
    and "\<And>c. frame_ok (f c) \<and> P (f c)" and "b \<in> set (dl k)"
  shows "\<exists>g. frame_ok g \<and> P g \<and> b = frame_bytes g"
proof -
  obtain h where h: "history h" "b \<in> set (on_air h)" using assms(1,4) unfolding carries_def by blast
  obtain n where "on_air h = map (\<lambda>r. frame_bytes (f (of_nat r))) [0..<n]" using assms(2) [OF h(1)] by blast
  with h(2) assms(3) show ?thesis by auto
qed

lemma carries_delivers:
  assumes "carries history L dl" and "history h" and "on_air h \<noteq> []" and "L \<le> k" and "0 < n"
  shows "delivered_in dl k n"
  using assms unfolding carries_def delivered_in_def list_ex_iff by (auto intro!: bexI [of _ 0])

lemma rp_hears_lpc:
  assumes "reads_buffer A" and "receives A dl from_lpc" and "carries (lpc_node_history env) L dl"
    and "chip_env B env" and "enters_mode B d NORMAL" and "d < 1000"
  shows "hears from_lpc A fs n = delivered_in dl (length fs) n" and "L \<le> k \<Longrightarrow> 0 < n \<Longrightarrow> delivered_in dl k n"
proof -
  note hist = lpc_history_sent [OF assms(4-6), unfolded lpc_frames_def]
  have "\<exists>g. frame_ok g \<and> from_lpc g \<and> b = frame_bytes g" if "b \<in> set (dl k)" for k b
    by (rule carries_frames [OF assms(3) hist(1) _ that]) simp_all
  then show "hears from_lpc A fs n = delivered_in dl (length fs) n"
    by (rule hears_iff_delivered [OF assms(1,2) by_header_from_lpc])
  obtain h where "lpc_node_history env h" "on_air h \<noteq> []" using hist(2) [of 1] by auto
  then show "L \<le> k \<Longrightarrow> 0 < n \<Longrightarrow> delivered_in dl k n" by (rule carries_delivers [OF assms(3)])
qed

lemma lpc_hears_rp:
  assumes "reads_buffer B" and "receives B dl from_rp" and "carries (rp_node_history pins) L dl"
    and "chip_pins A pins" and "enters_mode A d NORMAL" and "d < 1000"
  shows "hears from_rp B fs n = delivered_in dl (length fs) n" and "L \<le> k \<Longrightarrow> 0 < n \<Longrightarrow> delivered_in dl k n"
proof -
  note hist = rp_history_sent [OF assms(4-6), unfolded rp_frames_def]
  have "\<exists>g. frame_ok g \<and> from_rp g \<and> b = frame_bytes g" if "b \<in> set (dl k)" for k b
    by (rule carries_frames [OF assms(3) hist(1) _ that]) simp_all
  then show "hears from_rp B fs n = delivered_in dl (length fs) n"
    by (rule hears_iff_delivered [OF assms(1,2) by_header_from_rp])
  obtain h where "rp_node_history pins h" "on_air h \<noteq> []" using hist(2) [of 1] by auto
  then show "L \<le> k \<Longrightarrow> 0 < n \<Longrightarrow> delivered_in dl k n" by (rule carries_delivers [OF assms(3)])
qed

text \<open>The two programs on such a bus.\<close>

lemma rp_node_hears:
  assumes "chip_pins A pins" and "enters_mode A d NORMAL" and "reads_buffer A"
    and "receives A dl from_lpc" and "carries (lpc_node_history env) L dl"
    and "chip_env B env" and "enters_mode B d NORMAL" and "d < 1000"
  shows "\<exists>ob. can_node_boot pins [] = Some (Running, ob) \<and>
    (\<forall>n. \<exists>heard ob'. can_node_run pins n 0 ob = Some (of_nat n, ob') \<and> on_air (rp_history ob') = rp_frames n \<and>
       pixels (rs_log ob') = pixels (rs_log ob) @ concat (map led_result heard) \<and>
       heard = map (\<lambda>r. delivered_in dl (length (rp_history ob) + 202 * r + 2) 200) [0..<n] \<and>
       drop L heard = replicate (n - L) True)"
proof -
  note h = rp_hears_lpc [OF assms(3,4,5,6,7,8)]
  obtain ob w k where 1: "can_node_boot pins [] = Some (Running, ob)" "rp_at A pins (pixels led_boot) ob (boot_frames w k)"
    by (rule node_boot_running [OF assms(1,2,8)])
  let ?h = "\<lambda>n. map (\<lambda>r. delivered_in dl (length (rp_history ob) + 202 * r + 2) 200) [0..<n]"
  have px: "pixels (rs_log ob) = pixels led_boot" using 1(2) by (simp add: rp_at_def)
  have "\<exists>ob'. can_node_run pins n 0 ob = Some (of_nat n, ob') \<and> on_air (rp_history ob') = rp_frames n \<and>
      pixels (rs_log ob') = pixels (rs_log ob) @ concat (map led_result (?h n))" for n
  proof -
    obtain ob' where 2: "can_node_run pins n 0 ob = Some (0 + of_nat n, ob')"
      "rp_at A pins (pixels led_boot @ concat (map led_result (reports A (boot_frames w k) 0 n))) ob' (boot_frames w k @ rounds 0 n)"
      using node_run_at [OF 1(2), of n 0] by blast
    have "reports A (boot_frames w k) 0 n = ?h n"
      unfolding history_at(1) [OF 1(2)] by (rule reports_iff_delivered) (rule h(1))
    then show ?thesis
      using 2 history_at(1) [OF 2(2)] px on_air_rounds(1) [of w k n] by (intro exI [of _ ob']) (simp add: rp_at_def)
  qed
  moreover have "drop L (?h n) = replicate (n - L) True" for n
    by (rule nth_equalityI) (use h(2) in simp_all)
  ultimately show ?thesis using 1(1) by blast
qed

lemma lpc_node_hears:
  assumes "chip_env B env" and "enters_mode B d NORMAL" and "reads_buffer B"
    and "receives B dl from_rp" and "carries (rp_node_history pins) L dl"
    and "chip_pins A pins" and "enters_mode A d NORMAL" and "d < 1000"
  shows "\<exists>ob. lpc_node_boot env [] = Some (True, ob) \<and>
    (\<forall>n. \<exists>ob'. lpc_node_run env n 0 ob = Some (of_nat n, ob') \<and> on_air (lpc_history ob') = lpc_frames n \<and>
       (case n of 0 \<Rightarrow> True | Suc r \<Rightarrow>
          fail_led (bb_hw ob') = (\<not> delivered_in dl (length (lpc_history ob) + 102 * r + 2) 100) \<and>
          (if L \<le> r then \<not> fail_led (bb_hw ob') else True)))"
proof -
  note h = lpc_hears_rp [OF assms(3,4,5,6,7,8)]
  obtain ob w k where 1: "lpc_node_boot env [] = Some (True, ob)" "bb_at B env ob (boot_frames w k)"
    by (rule lpc_node_boot_at [OF assms(1,2,8)])
  let ?r = "\<lambda>r ob'. fail_led (bb_hw ob') = (\<not> delivered_in dl (length (lpc_history ob) + 102 * r + 2) 100) \<and>
      (if L \<le> r then \<not> fail_led (bb_hw ob') else True)"
  have l: "hears from_rp B (boot_frames w k @ lpc_rounds 0 r @ lpc_sent c) 100 =
      delivered_in dl (length (lpc_history ob) + 102 * r + 2) 100" for r c
    unfolding h(1) by (simp add: history_at(2) [OF 1(2)] lpc_sent_def)
  have "\<exists>ob'. lpc_node_run env n 0 ob = Some (of_nat n, ob') \<and> on_air (lpc_history ob') = lpc_frames n \<and>
      (case n of 0 \<Rightarrow> True | Suc r \<Rightarrow> ?r r ob')" for n
  proof -
    obtain ob' where 2: "lpc_node_run env n 0 ob = Some (0 + of_nat n, ob')" "bb_at B env ob' (boot_frames w k @ lpc_rounds 0 n)"
      "case n of 0 \<Rightarrow> True | Suc r \<Rightarrow> fail_led (bb_hw ob') =
         (\<not> hears from_rp B (boot_frames w k @ lpc_rounds 0 r @ lpc_sent (0 + of_nat r)) 100)"
      using lpc_node_run_at [OF 1(2), of n 0] by blast
    have "case n of 0 \<Rightarrow> True | Suc r \<Rightarrow> ?r r ob'"
      using 2(3) unfolding l by (cases n) (use h(2) in simp_all)
    then show ?thesis
      using 2(1) history_at(2) [OF 2(2)] on_air_rounds(2) [of w k n] by (intro exI [of _ ob']) simp
  qed
  with 1(1) show ?thesis by blast
qed

subsection \<open>Properties\<close>

text \<open>
  C10: the two nodes on one bus hear each other. The RP2040's program runs on its port with a chip \<open>A\<close>, the
  LPC1768's on its port with a chip \<open>B\<close>; both chips enter normal mode within 999 polls, and keep what the bus hands over to
  them. The bus hands over only what the other program has made its chip send, late or with losses, but something from \<open>L\<close> SPI
  frames of the receiving program on, provided that the other program ever sends. Then both set-ups reach their loops, every
  number of rounds returns, and in \<open>n\<close> rounds each program has sent exactly its \<open>n\<close> numbered frames. The RP2040 shows green in
  exactly the rounds in which a frame had been handed over by one of the two hundred reads of the round; the fail LED of the
  LPC1768 is off behind a round exactly if a frame had been handed over by one of its one hundred reads. From round \<open>L\<close> on
  both report the other in every round.
\<close>

theorem nodes_hear_each_other:
  assumes "chip_pins A pins" and "enters_mode A d NORMAL" and "reads_buffer A"
    and "receives A dlA from_lpc" and "carries (lpc_node_history env) L dlA"
    and "chip_env B env" and "enters_mode B d NORMAL" and "reads_buffer B"
    and "receives B dlB from_rp" and "carries (rp_node_history pins) L dlB"
    and "d < 1000"
  shows "(\<exists>ob. can_node_boot pins [] = Some (Running, ob) \<and>
      (\<forall>n. \<exists>heard ob'. can_node_run pins n 0 ob = Some (of_nat n, ob') \<and> on_air (rp_history ob') = rp_frames n \<and>
         pixels (rs_log ob') = pixels (rs_log ob) @ concat (map led_result heard) \<and>
         heard = map (\<lambda>r. delivered_in dlA (length (rp_history ob) + 202 * r + 2) 200) [0..<n] \<and>
         drop L heard = replicate (n - L) True)) \<and>
    (\<exists>ob. lpc_node_boot env [] = Some (True, ob) \<and>
      (\<forall>n. \<exists>ob'. lpc_node_run env n 0 ob = Some (of_nat n, ob') \<and> on_air (lpc_history ob') = lpc_frames n \<and>
         (case n of 0 \<Rightarrow> True | Suc r \<Rightarrow>
            fail_led (bb_hw ob') = (\<not> delivered_in dlB (length (lpc_history ob) + 102 * r + 2) 100) \<and>
            (if L \<le> r then \<not> fail_led (bb_hw ob') else True))))"
  by (rule conjI)
     (rule rp_node_hears [OF assms(1-7,11)], rule lpc_node_hears [OF assms(6-10,1,2,11)])

text \<open>
  A bus that hands over the other node's first frame before the receiver's SPI frame \<open>L\<close>, and a chip on it:
  until then its buffer holds an empty frame.
\<close>

definition blank_frame :: frame where
  "blank_frame = \<lparr>f_id = 0, f_dlc = 1, f_data = replicate 8 0\<rparr>"

definition late_chip :: "nat \<Rightarrow> frame \<Rightarrow> chip" where
  "late_chip L g fs cur = holding_chip (if length fs < L then blank_frame else g) fs cur"

definition late_bus :: "nat \<Rightarrow> frame \<Rightarrow> nat \<Rightarrow> buf list" where
  "late_bus L g k = (if k < L then [] else [frame_bytes g])"

lemma late_reg: "reg (late_chip L g) fs = reg (holding_chip (if length fs < L then blank_frame else g)) fs"
  by (rule ext) (simp add: reg_def late_chip_def)

lemma late_chip_kind: "enters_mode (late_chip L g) 0 m" "reads_buffer (late_chip L g)"
proof -
  show "enters_mode (late_chip L g) 0 m"
    by (auto simp: enters_mode_def late_reg holding_reg demo_mode_polls canstat_mode_masked)
  show "reads_buffer (late_chip L g)"
    using holding_chip_kind(2) unfolding reads_buffer_def late_reg by (simp add: late_chip_def)
qed

lemma late_receives:
  assumes "frame_ok g" and "f_dlc g = 1" and "\<not> P blank_frame"
  shows "receives (late_chip L g) (late_bus L g) P"
  unfolding receives_def
proof
  fix fs :: "buf list"
  let ?g = "if length fs < L then blank_frame else g"
  have g: "frame_ok ?g" "f_dlc ?g = 1" using assms by (simp_all add: blank_frame_def frame_ok_def)
  have "in_buffer (late_chip L g) fs ?g"
    using holding_chip_holds [OF g(2)] unfolding in_buffer_def late_reg by simp
  with g(1) assms(3) show "\<exists>g'. frame_ok g' \<and> in_buffer (late_chip L g) fs g' \<and>
      (if late_bus L g (length fs) = [] then \<not> P g' else frame_bytes g' \<in> set (late_bus L g (length fs)))"
    by (intro exI [of _ ?g]) (simp add: late_bus_def)
qed

lemma late_carries: "history h \<Longrightarrow> on_air h = [frame_bytes g] \<Longrightarrow> carries history L (late_bus L g)"
  unfolding carries_def late_bus_def by (auto split: if_splits)

text \<open>Two nodes that hear each other from their third SPI frame on.\<close>

theorem nodes_hear_each_other_witness:
  "let A = late_chip 2 (lpc_node_frame 0); B = late_chip 2 (node_frame 0);
      pins = (\<lambda>lg _. chip_level A (wires (on_wires lg)));
      env = (\<lambda>tr _. if chip_level B (wires tr) then 4 else 0)
    in (\<exists>ob ob' heard. can_node_run pins 4 0 ob = Some (4, ob') \<and> on_air (rp_history ob') = rp_frames 4 \<and>
        pixels (rs_log ob') = pixels (rs_log ob) @ concat (map led_result heard) \<and> drop 2 heard = [True, True]) \<and>
      (\<exists>ob ob'. lpc_node_run env 4 0 ob = Some (4, ob') \<and> on_air (lpc_history ob') = lpc_frames 4 \<and> \<not> fail_led (bb_hw ob'))"
proof -
  let ?A = "late_chip 2 (lpc_node_frame 0)" and ?B = "late_chip 2 (node_frame 0)"
  let ?pins = "\<lambda>lg _. chip_level ?A (wires (on_wires lg))"
  let ?env = "\<lambda>tr _. if chip_level ?B (wires tr) then 4 else 0"
  have w: "chip_pins ?A ?pins" "chip_env ?B ?env" by (simp_all add: chip_pins_def chip_env_def MISO_MASK_def)
  note k = late_chip_kind(1) [of _ _ NORMAL] late_chip_kind(2)
  have d: "f_dlc (lpc_node_frame 0) = 1" "f_dlc (node_frame 0) = 1" "\<not> from_lpc blank_frame" "\<not> from_rp blank_frame"
    by (simp_all add: lpc_node_frame_def node_frame_def blank_frame_def from_lpc_def from_rp_def)
  have r: "receives ?A (late_bus 2 (lpc_node_frame 0)) from_lpc" "receives ?B (late_bus 2 (node_frame 0)) from_rp"
    by (rule late_receives; simp add: d)+
  have c: "carries (lpc_node_history ?env) 2 (late_bus 2 (lpc_node_frame 0))"
      "carries (rp_node_history ?pins) 2 (late_bus 2 (node_frame 0))"
    using lpc_history_sent(2) [OF w(2) k(1), of 1] rp_history_sent(2) [OF w(1) k(1), of 1] late_carries
    by (auto simp: lpc_frames_def rp_frames_def)
  have z: "(0 :: nat) < 1000" by simp
  note t = nodes_hear_each_other [OF w(1) k r(1) c(1) w(2) k r(2) c(2) z]
  obtain ob ob' heard where 1: "can_node_run ?pins 4 0 ob = Some (of_nat 4, ob')" "on_air (rp_history ob') = rp_frames 4"
    "pixels (rs_log ob') = pixels (rs_log ob) @ concat (map led_result heard)" "drop 2 heard = replicate (4 - 2) True"
    using t [THEN conjunct1] by (elim exE conjE allE [of _ 4]) (rule that; assumption)
  obtain lb lb' where 2: "lpc_node_run ?env 4 0 lb = Some (of_nat 4, lb')" "on_air (lpc_history lb') = lpc_frames 4"
    "case 4 of 0 \<Rightarrow> True | Suc r \<Rightarrow> fail_led (bb_hw lb') =
        (\<not> delivered_in (late_bus 2 (node_frame 0)) (length (lpc_history lb) + 102 * r + 2) 100) \<and>
      (if 2 \<le> r then \<not> fail_led (bb_hw lb') else True)"
    using t [THEN conjunct2] by (elim exE conjE allE [of _ 4]) (rule that; assumption)
  have "drop 2 heard = [True, True]" using 1(4) by (simp add: numeral_2_eq_2)
  moreover have "\<not> fail_led (bb_hw lb')"
  proof -
    have "(4 :: nat) = Suc 3" "2 \<le> (3 :: nat)" by simp_all
    then show ?thesis using 2(3) by (simp only: nat.case if_True) blast
  qed
  moreover have "(of_nat 4 :: u8) = 4" by simp
  ultimately show ?thesis using 1(1-3) 2(1,2) unfolding Let_def by metis
qed

end
