(* ===== verification/Clock_Tree.thy ===== *)
theory Clock_Tree
  imports Startup App_Main
begin

text \<open>
  What the clock set-up means for the two UARTs. Observers of the register writes compute the processor
  clock and the divisor latches as the LPC1768 does; they know nothing of the code. The theorem
  follows the program from reset through the set-up of both UARTs, for each of the outcomes of
  \<^verbatim>\<open>SystemInit\<close>.
\<close>

subsection \<open>The clock tree\<close>

text \<open>
  The clock source, the PLL's configuration and control as written and as in effect (they change only
  when the two feed bytes are written one after the other), and the divider of the processor clock.
\<close>

record clock_tree =
  ct_src :: u32
  ct_cfg :: u32
  ct_con :: u32
  ct_armed :: bool
  ct_used :: u32
  ct_on :: u32
  ct_div :: u32

definition clock_reset :: clock_tree where
  "clock_reset = \<lparr>ct_src = 0, ct_cfg = 0, ct_con = 0, ct_armed = False, ct_used = 0, ct_on = 0, ct_div = 0\<rparr>"

definition clock_step :: "clock_tree \<Rightarrow> u32 \<times> u32 \<Rightarrow> clock_tree" where
  "clock_step c w =
     (let (a, v) = w in
      if a = PLL0FEED then
        if v = 0xAA then c\<lparr>ct_armed := True\<rparr>
        else if v = 0x55 \<and> ct_armed c then c\<lparr>ct_armed := False, ct_used := ct_cfg c, ct_on := ct_con c\<rparr>
        else c\<lparr>ct_armed := False\<rparr>
      else let c = c\<lparr>ct_armed := False\<rparr> in
        if a = CLKSRCSEL then c\<lparr>ct_src := v\<rparr>
        else if a = PLL0CFG then c\<lparr>ct_cfg := v\<rparr>
        else if a = PLL0CON then c\<lparr>ct_con := v\<rparr>
        else if a = CCLKCFG then c\<lparr>ct_div := v\<rparr>
        else c)"

definition clock_after :: "trace \<Rightarrow> clock_tree" where
  "clock_after tr = foldl clock_step clock_reset (writes tr)"

text \<open>
  The source (RC oscillator, crystal, clock crystal), through the PLL if it is enabled and
  connected, through the divider. The board's crystal has 12 MHz.
\<close>

definition source_hz :: "clock_tree \<Rightarrow> nat" where
  "source_hz c = (if ct_src c = 0 then 4000000 else if ct_src c = 1 then 12000000 else 32768)"

definition cclk_hz :: "clock_tree \<Rightarrow> nat" where
  "cclk_hz c =
     (let f = source_hz c;
          m = unat (ct_used c AND 0x7FFF) + 1;
          n = unat (drop_bit 16 (ct_used c) AND 0xFF) + 1;
          f = (if ct_on c AND 3 = 3 then 2 * m * f div n else f)
      in f div (unat (ct_div c AND 0xFF) + 1))"

subsection \<open>The divisor latches\<close>

record latch =
  l_open :: bool
  l_low :: nat
  l_high :: nat

definition latch_step :: "u32 \<Rightarrow> u32 \<Rightarrow> u32 \<Rightarrow> latch \<Rightarrow> u32 \<times> u32 \<Rightarrow> latch" where
  "latch_step lcr dll dlm l w =
     (let (a, v) = w in
      if a = lcr then l\<lparr>l_open := v AND 0x80 \<noteq> 0\<rparr>
      else if l_open l \<and> a = dll then l\<lparr>l_low := unat (v AND 0xFF)\<rparr>
      else if l_open l \<and> a = dlm then l\<lparr>l_high := unat (v AND 0xFF)\<rparr>
      else l)"

definition latch_after :: "u32 \<Rightarrow> u32 \<Rightarrow> u32 \<Rightarrow> trace \<Rightarrow> latch" where
  "latch_after lcr dll dlm tr =
     foldl (latch_step lcr dll dlm) \<lparr>l_open = False, l_low = 1, l_high = 0\<rparr> (writes tr)"

text \<open>The peripheral clock is a quarter of the processor clock; sixteen of its divided periods are one bit.\<close>

definition latch_baud :: "u32 \<Rightarrow> u32 \<Rightarrow> u32 \<Rightarrow> trace \<Rightarrow> nat" where
  "latch_baud lcr dll dlm tr =
     (let l = latch_after lcr dll dlm tr
      in cclk_hz (clock_after tr) div 4 div (16 * (l_low l + 256 * l_high l)))"

definition console_baud :: "trace \<Rightarrow> nat" where
  "console_baud = latch_baud U0_LCR U0_DLL U0_DLM"

definition rs485_baud :: "trace \<Rightarrow> nat" where
  "rs485_baud = latch_baud U2LCR U2DLL U2DLM"

lemma uart0_init_writes:
  "\<exists>p. writes (uart0_init env tr) = writes tr @
     [(APP_PINSEL0, p), (U0_LCR, 0x83), (U0_DLL, 13), (U0_DLM, 0), (U0_LCR, 3), (U0_FCR, 1)]"
  by (simp add: uart0_init_def)

lemma rs485_init_writes:
  "\<exists>tr' p q r f. lpc_rs_init env 115200 tr = Some (St_OK, tr') \<and> writes tr' = writes tr @
     [(PCONP, p), (PINSEL0, q), (PINSEL0, r), (FIO0DIR, f), (FIO0CLR, DE_MASK), (U2LCR, 0x83),
      (U2DLL, 13), (U2DLM, 0), (U2FDR, 0x10), (U2LCR, 3), (U2FCR, 7)]"
  by (simp add: lpc_rs_init_def PCLK_HZ_def Let_def reg_or_def reg_clear_def set_rx_mode_def)

lemmas clock_addresses = SYSCON_BASE_def FLASHCFG_def PLL0CON_def PLL0CFG_def PLL0STAT_def PLL0FEED_def CCLKCFG_def
  CLKSRCSEL_def SCS_def

subsection \<open>The clock and the rates of each outcome\<close>

definition tier_hz :: "u32 \<Rightarrow> nat" where
  "tier_hz tier = (if tier = 4 then 96000000 else if tier = 2 then 12000000 else 4000000)"

text \<open>Writes to other registers only break off a feed sequence.\<close>

definition off_clock :: "(u32 \<times> u32) list \<Rightarrow> bool" where
  "off_clock ws \<longleftrightarrow> list_all (\<lambda>(a, v). a \<notin> {PLL0FEED, CLKSRCSEL, PLL0CFG, PLL0CON, CCLKCFG}) ws"

lemma off_clock_step: "off_clock [w] \<Longrightarrow> clock_step c w = c\<lparr>ct_armed := False\<rparr>"
  by (cases w) (simp add: clock_step_def off_clock_def)

lemma off_clock_run: "off_clock ws \<Longrightarrow> cclk_hz (foldl clock_step c ws) = cclk_hz c"
proof (induction ws arbitrary: c)
  case (Cons w ws)
  then have "off_clock [w]" "off_clock ws" by (simp_all add: off_clock_def)
  with Cons.IH [of "c\<lparr>ct_armed := False\<rparr>"] show ?case
    by (simp add: off_clock_step cclk_hz_def source_hz_def)
qed simp

lemma system_init_clock:
  assumes "system_init env [] = (tier, tr)"
  shows "tier \<in> {1, 2, 3, 4}" and "cclk_hz (clock_after tr) = tier_hz tier"
    and "latch_after U0_LCR U0_DLL U0_DLM tr = \<lparr>l_open = False, l_low = 1, l_high = 0\<rparr>"
    and "latch_after U2LCR U2DLL U2DLM tr = \<lparr>l_open = False, l_low = 1, l_high = 0\<rparr>"
proof -
  obtain scs flash where c: "tier = 1 \<and> writes tr = osc_writes scs \<or> tier = 2 \<and> writes tr = osc_writes scs @ pll_writes \<or>
      tier = 3 \<and> writes tr = osc_writes scs @ pll_writes @ connect_writes flash @ disconnect_writes \<or>
      tier = 4 \<and> writes tr = osc_writes scs @ pll_writes @ connect_writes flash"
    using system_init_cases [of env "[]"] assms by auto
  note ws = osc_writes_def pll_writes_def connect_writes_def disconnect_writes_def feed_writes_def
  show "tier \<in> {1, 2, 3, 4}" using c by auto
  show "cclk_hz (clock_after tr) = tier_hz tier"
    using c by (elim disjE conjE)
      (simp_all add: clock_after_def ws clock_step_def clock_reset_def clock_addresses cclk_hz_def source_hz_def tier_hz_def)
  show "latch_after U0_LCR U0_DLL U0_DLM tr = \<lparr>l_open = False, l_low = 1, l_high = 0\<rparr>"
    using c by (elim disjE conjE) (simp_all add: latch_after_def ws latch_step_def clock_addresses app_regs)
  show "latch_after U2LCR U2DLL U2DLM tr = \<lparr>l_open = False, l_low = 1, l_high = 0\<rparr>"
    using c by (elim disjE conjE) (simp_all add: latch_after_def ws latch_step_def clock_addresses rs485_regs)
qed

lemma uart_rates:
  assumes s: "system_init env [] = (tier, tr)"
  obtains tr' where "lpc_rs_init env 115200 (uart0_init env tr) = Some (St_OK, tr')"
    "cclk_hz (clock_after tr') = tier_hz tier" "console_baud tr' = tier_hz tier div 4 div 208"
    "rs485_baud tr' = tier_hz tier div 4 div 208"
proof -
  obtain p where 1: "writes (uart0_init env tr) = writes tr @
     [(APP_PINSEL0, p), (U0_LCR, 0x83), (U0_DLL, 13), (U0_DLM, 0), (U0_LCR, 3), (U0_FCR, 1)]" (is "_ = _ @ ?u")
    using uart0_init_writes by blast
  obtain tr' p' q r f where 2: "lpc_rs_init env 115200 (uart0_init env tr) = Some (St_OK, tr')"
    "writes tr' = writes (uart0_init env tr) @
     [(PCONP, p'), (PINSEL0, q), (PINSEL0, r), (FIO0DIR, f), (FIO0CLR, DE_MASK), (U2LCR, 0x83),
      (U2DLL, 13), (U2DLM, 0), (U2FDR, 0x10), (U2LCR, 3), (U2FCR, 7)]" (is "_ = _ @ ?v")
    using rs485_init_writes by blast
  have w: "writes tr' = writes tr @ ?u @ ?v" using 1 2(2) by simp
  have "off_clock (?u @ ?v)" by (simp add: off_clock_def clock_addresses app_regs rs485_regs)
  from off_clock_run [OF this, of "clock_after tr"]
  have hz: "cclk_hz (clock_after tr') = tier_hz tier"
    using system_init_clock(2) [OF s] by (simp only: clock_after_def w foldl_append)
  have "latch_after U0_LCR U0_DLL U0_DLM tr' = \<lparr>l_open = False, l_low = 13, l_high = 0\<rparr>"
    "latch_after U2LCR U2DLL U2DLM tr' = \<lparr>l_open = False, l_low = 13, l_high = 0\<rparr>"
    using system_init_clock(3,4) [OF s] unfolding latch_after_def w foldl_append
    by (simp_all add: latch_step_def app_regs rs485_regs)
  then have "console_baud tr' = tier_hz tier div 4 div 208" "rs485_baud tr' = tier_hz tier div 4 div 208"
    by (simp_all add: console_baud_def rs485_baud_def latch_baud_def hz)
  with 2(1) hz show ?thesis by (rule that)
qed

subsection \<open>Properties\<close>

text \<open>
  C19: the clock and the speed of both UARTs, from reset. Whatever the hardware does, the reset handler ends in one of the
  four outcomes, and after the set-up of the console UART and of the RS-485 port at 115200 baud both
  divisors are 13. With outcome 4 the processor runs at 96 MHz and both UARTs at 115384 baud, 0.16 percent
  off; with outcome 2 at 12 MHz and 14423 baud. With outcome 1 it runs at 4 MHz and both at 4807 baud,
  and so it does with outcome 3, where the comments say 12 MHz: the PLL is disconnected again, but the divider by three,
  set for it, is left in place.
\<close>

theorem uart_rates_by_clock_outcome:
  "\<exists>mem' tier tr tr'. reset_handler env l mem [] = (mem', tier, tr) \<and> tier \<in> {1, 2, 3, 4} \<and>
    lpc_rs_init env 115200 (uart0_init env tr) = Some (St_OK, tr') \<and>
    cclk_hz (clock_after tr') = (if tier = 4 then 96000000 else if tier = 2 then 12000000 else 4000000) \<and>
    console_baud tr' = (if tier = 4 then 115384 else if tier = 2 then 14423 else 4807) \<and>
    rs485_baud tr' = console_baud tr'"
proof -
  obtain tier tr where s: "system_init env [] = (tier, tr)" by fastforce
  obtain tr' where "lpc_rs_init env 115200 (uart0_init env tr) = Some (St_OK, tr')"
    "cclk_hz (clock_after tr') = tier_hz tier" "console_baud tr' = tier_hz tier div 4 div 208"
    "rs485_baud tr' = tier_hz tier div 4 div 208"
    by (rule uart_rates [OF s])
  then show ?thesis
    using s system_init_clock(1) [OF s]
    by (intro exI [of _ "fst (reset_handler env l mem [])"] exI [of _ tier] exI [of _ tr] exI [of _ tr'])
      (simp add: reset_handler_def Let_def tier_hz_def)
qed

end
