(* ===== verification/App_Run.thy ===== *)
theory App_Run
  imports Clock_Tree
begin

text \<open>
  The tasks of \<^verbatim>\<open>src/app/main_blinky.cpp\<close> for any number of turns. The RS-485 task is followed from reset: the
  clock set-up, the console, the port and the turns, with the responder of the RP2040 at the other end of
  the line. The echo task is followed on a console that is fed with bytes.
\<close>

subsection \<open>Runs\<close>

fun rs485_task_run ::
  "(u32 \<Rightarrow> u32) \<Rightarrow> env \<Rightarrow> (nat \<Rightarrow> nat \<Rightarrow> u8) \<Rightarrow> (nat \<Rightarrow> u8) \<Rightarrow> nat \<Rightarrow> rs485_proto \<Rightarrow> u8 \<Rightarrow> trace \<Rightarrow>
   (rs485_proto \<times> u8 \<times> trace) option"
where
  "rs485_task_run ticks env junk junk_rx 0 p sq tr = Some (p, sq, tr)"
| "rs485_task_run ticks env junk junk_rx (Suc n) p sq tr = do {
     (p, sq, tr) \<leftarrow> rs485_task_turn ticks env junk junk_rx p sq tr;
     rs485_task_run ticks env junk junk_rx n p sq tr }"

fun echo_task_run :: "(u32 \<Rightarrow> u32) \<Rightarrow> env \<Rightarrow> nat \<Rightarrow> trace \<Rightarrow> trace option" where
  "echo_task_run ticks env 0 tr = Some tr"
| "echo_task_run ticks env (Suc n) tr = do {
     tr \<leftarrow> echo_task_turn ticks env tr; echo_task_run ticks env n tr }"

subsection \<open>An observer of the console\<close>

text \<open>Whether the divisor latch is open, and the bytes written to the transmit register while it is closed.\<close>

definition con_step :: "bool \<times> buf \<Rightarrow> u32 \<times> u32 \<Rightarrow> bool \<times> buf" where
  "con_step c w =
     (let (a, v) = w in
      if a = U0_LCR then (bit v 7, snd c)
      else if a = U0_THR \<and> \<not> fst c then (fst c, snd c @ [ucast v])
      else c)"

definition console_of :: "trace \<Rightarrow> bool \<times> buf" where
  "console_of tr = foldl con_step (False, []) (writes tr)"

lemma console_of_append [simp]: "console_of (tr @ tr') = foldl con_step (console_of tr) (writes tr')"
  by (simp add: console_of_def)

lemma con_chars:
  "foldl con_step (False, out) (map (\<lambda>c. (U0_THR, ucast c)) cs) = (False, out @ cs)"
  by (induction cs arbitrary: out) (simp_all add: con_step_def app_regs)

definition off_console :: "u32 \<times> u32 \<Rightarrow> bool" where
  "off_console w \<longleftrightarrow> fst w \<noteq> U0_LCR \<and> fst w \<noteq> U0_THR"

lemma con_off: "list_all off_console ws \<Longrightarrow> foldl con_step c ws = c"
  by (induction ws arbitrary: c) (simp_all add: con_step_def off_console_def Let_def split_beta)

lemma console_off: "list_all off_console ws \<Longrightarrow> writes tr' = writes tr @ ws \<Longrightarrow> console_of tr' = console_of tr"
  by (simp add: console_of_def con_off)

lemma port_only_console: "port_only tr tr' \<Longrightarrow> console_of tr' = console_of tr"
proof -
  have "list_all port_access evs \<Longrightarrow> list_all off_console (writes evs)" for evs
    by (induction evs rule: writes.induct) (auto simp: off_console_def app_regs rs485_regs)
  then show "port_only tr tr' \<Longrightarrow> console_of tr' = console_of tr"
    by (auto simp: grows_by_def con_off)
qed

subsection \<open>From reset to the first turn of the RS-485 task\<close>

text \<open>The accesses of the clock set-up.\<close>

definition clock_access :: "hw_event \<Rightarrow> bool" where
  "clock_access ev = (case ev of
     Rd a v \<Rightarrow> a \<in> {SCS, PLL0STAT, FLASHCFG}
   | Wr a v \<Rightarrow> a \<in> {SCS, CLKSRCSEL, PLL0CFG, PLL0CON, PLL0FEED, CCLKCFG, FLASHCFG}
   | Dsb \<Rightarrow> True | Isb \<Rightarrow> True | _ \<Rightarrow> False)"

lemma grows_by_more: "grows_by P tr t \<Longrightarrow> list_all P evs \<Longrightarrow> grows_by P tr (t @ evs)"
  by (auto simp: grows_by_def)

lemma clock_poll_grows:
  "grows_by P tr t \<Longrightarrow> (\<And>v. P (Rd a v)) \<Longrightarrow> grows_by P tr (snd (clock_poll env a up n t))"
proof (induction n arbitrary: t)
  case (Suc n)
  have "grows_by P tr (t @ [Rd a (env t a)])" by (rule grows_by_more) (simp_all add: Suc.prems)
  from Suc.IH [OF this Suc.prems(2)] this show ?case by simp
qed simp

lemma system_init_grows: "grows_by clock_access tr (snd (system_init env tr))"
  by (simp add: system_init_def Let_def split_beta reg_or_def dsb_def isb_def)
     (intro conjI impI grows_by_more clock_poll_grows; simp add: clock_access_def)

text \<open>They concern neither the console nor the port, and the set-up of the UARTs leaves the port as after a reset.\<close>

lemma clock_access_off:
  "list_all clock_access evs \<Longrightarrow> list_all off_console (writes evs) \<and> foldl port_step p evs = p"
proof (induction evs arbitrary: p)
  case (Cons ev evs)
  have "port_step p ev = p" "list_all off_console (writes [ev])"
    using Cons.prems
    by (auto simp: clock_access_def off_console_def clock_addresses app_regs rs485_regs split: hw_event.splits)
  moreover have "writes (ev # evs) = writes [ev] @ writes evs" by (cases ev) simp_all
  ultimately show ?case using Cons.IH [of p] Cons.prems by simp
qed simp

lemma system_init_off:
  assumes "system_init env [] = (tier, tr)"
  shows "port_of tr = port_reset" "console_of tr = (False, [])"
proof -
  have "list_all clock_access tr" using system_init_grows [of "[]" env] assms by (simp add: grows_by_def)
  from clock_access_off [OF this] show "port_of tr = port_reset" "console_of tr = (False, [])"
    by (simp_all add: port_of_def console_of_def con_off)
qed

lemma uarts_init_off:
  assumes "port_of tr = port_reset" and "lpc_rs_init env 115200 (uart0_init env tr) = Some (St_OK, tr')"
  shows "port_of tr' = port_reset" "console_of tr' = (False, snd (console_of tr))"
proof -
  show "port_of tr' = port_reset"
    using assms
    by (auto simp: lpc_rs_init_def PCLK_HZ_def Let_def reg_or_def reg_clear_def set_rx_mode_def uart0_init_def
        port_of_def app_regs rs485_regs port_reset_def)
  show "console_of tr' = (False, snd (console_of tr))"
    using assms(2)
    by (auto simp: lpc_rs_init_def PCLK_HZ_def Let_def reg_or_def reg_clear_def set_rx_mode_def uart0_init_def
        con_step_def app_regs rs485_regs)
qed

lemma link_idle_reset: "port_of tr = port_reset \<Longrightarrow> link_idle junk junk' tr"
  using link_idle_start [of junk junk'] by (simp add: link_idle_def port_ready_def line_in_def)

subsection \<open>The turns\<close>

text \<open>The payload of turn \<open>i\<close>, the frames the task puts on the bus in it, and what it prints.\<close>

definition turn_payload :: "u8 \<Rightarrow> buf" where
  "turn_payload i = [0xAA, 0xBB, i, i + 1]"

definition turn_frames :: "u8 \<Rightarrow> buf" where
  "turn_frames i = proto_wire DATA i (turn_payload i) @ proto_wire ACK i []"

lemma rs485_task_run_echo:
  fixes junk :: "nat \<Rightarrow> nat \<Rightarrow> u8" and junk' :: "nat \<Rightarrow> u8"
  assumes "console_free env0"
  defines "env \<equiv> uart_env (responder_peer junk junk') env0"
  shows "link_idle junk junk' tr \<Longrightarrow> console_of tr = (False, out) \<Longrightarrow>
    \<exists>tr'. rs485_task_run ticks env jk jr n \<lparr>rp_seq = q\<rparr> q tr =
        Some (\<lparr>rp_seq = q + of_nat n\<rparr>, q + of_nat n, tr') \<and> link_idle junk junk' tr' \<and>
      p_out (port_of tr') = p_out (port_of tr) @ concat (map (\<lambda>i. turn_frames (q + of_nat i)) [0..<n]) \<and>
      console_of tr' = (False, out @ concat (map (\<lambda>i. turn_payload (q + of_nat i) @ [0x0A]) [0..<n]))"
proof (induction n arbitrary: q tr out)
  case (Suc n)
  obtain tr2 evs where t: "rs485_task_turn ticks env jk jr \<lparr>rp_seq = q\<rparr> q tr =
      Some (\<lparr>rp_seq = q + 1\<rparr>, q + 1, tr2 @ evs @ [Task_delay (ticks 1000)])"
    "p_out (port_of tr2) = p_out (port_of tr) @ turn_frames q"
    "port_only tr tr2" "list_all console_event evs"
    "writes evs = map (\<lambda>c. (U0_THR, ucast c)) (turn_payload q @ [0x0A])"
    "link_idle junk junk' (tr2 @ evs @ [Task_delay (ticks 1000)])"
    using rs485_task_turn_echo [OF Suc.prems(1) assms(1), of ticks jk jr "\<lparr>rp_seq = q\<rparr>" q]
    by (auto simp: env_def turn_frames_def turn_payload_def)
  let ?tr = "tr2 @ evs @ [Task_delay (ticks 1000)]"
  have "console_of ?tr = foldl con_step (console_of tr) (map (\<lambda>c. (U0_THR, ucast c)) (turn_payload q @ [0x0A]))"
    using port_only_console [OF t(3)] by (simp add: t(5))
  then have c: "console_of ?tr = (False, out @ turn_payload q @ [0x0A])"
    unfolding Suc.prems(2) con_chars by simp
  have p: "port_of ?tr = port_of tr2"
    using port_of_console [OF t(4), of "port_of tr2"] by (simp add: port_of_def)
  have shift: "map (\<lambda>i. f (q + of_nat i)) [0..<Suc n] = f q # map (\<lambda>i. f (q + 1 + of_nat i)) [0..<n]" for f :: "u8 \<Rightarrow> buf"
    by (subst upt_conv_Cons) (simp_all add: map_Suc_upt [symmetric] add.assoc comp_def del: upt_Suc)
  obtain tr' where "rs485_task_run ticks env jk jr n \<lparr>rp_seq = q + 1\<rparr> (q + 1) ?tr =
      Some (\<lparr>rp_seq = q + 1 + of_nat n\<rparr>, q + 1 + of_nat n, tr')" "link_idle junk junk' tr'"
    "p_out (port_of tr') = p_out (port_of ?tr) @ concat (map (\<lambda>i. turn_frames (q + 1 + of_nat i)) [0..<n])"
    "console_of tr' = (False, (out @ turn_payload q @ [0x0A]) @
       concat (map (\<lambda>i. turn_payload (q + 1 + of_nat i) @ [0x0A]) [0..<n]))"
    using Suc.IH [OF t(6) c] by blast
  then show ?case
    using t(1) unfolding shift [of turn_frames] shift [of "\<lambda>i. turn_payload i @ [0x0A]"] p t(2)
    by (intro exI [of _ tr']) (simp add: add.assoc)
qed simp

subsection \<open>The echo task\<close>

text \<open>A transmitter that becomes free again and again, and the number of bytes taken from the receive register.\<close>

definition console_lives :: "(u32 \<Rightarrow> u32) \<Rightarrow> env \<Rightarrow> bool" where
  "console_lives ticks env \<longleftrightarrow> (\<forall>tr. \<exists>n. thr_free ticks env n tr)"

definition taken :: "trace \<Rightarrow> nat" where
  "taken tr = length (reads_at U0_RBR tr)"

text \<open>
  The byte that is read after the line status announced one is the next byte of the stream \<open>xs\<close>; when bytes arrive is
  up to \<open>env\<close>.
\<close>

definition announces :: "env \<Rightarrow> trace \<Rightarrow> bool" where
  "announces env tr \<longleftrightarrow> env tr U0_LSR AND 1 \<noteq> 0"

definition console_input :: "(nat \<Rightarrow> u8) \<Rightarrow> env \<Rightarrow> bool" where
  "console_input xs env \<longleftrightarrow> (\<forall>tr. announces env tr \<longrightarrow>
     ucast (env (tr @ [Rd U0_LSR (env tr U0_LSR)]) U0_RBR) = xs (taken tr))"

lemma busy_polls_quiet: "writes (busy_polls ticks env n tr) = writes tr \<and> taken (busy_polls ticks env n tr) = taken tr"
  by (induction n arbitrary: tr) (simp_all add: taken_def app_regs)

lemma uart_putchar_lives:
  assumes "console_lives ticks env"
  shows "\<exists>tr'. uart_putchar ticks env c tr = Some tr' \<and> writes tr' = writes tr @ [(U0_THR, ucast c)] \<and> taken tr' = taken tr"
proof -
  obtain tr' n where "uart_putchar ticks env c tr = Some tr'"
    "tr' = busy_polls ticks env n tr @ [Rd U0_LSR (env (busy_polls ticks env n tr) U0_LSR), Wr U0_THR (ucast c)]"
    using assms uart_putchar_cooperates [of ticks env c tr] unfolding console_lives_def by auto
  then show ?thesis
    using busy_polls_quiet [of ticks env n tr] by (simp add: taken_def app_regs)
qed

lemma uart_puts_lives:
  assumes "console_lives ticks env"
  shows "\<exists>tr'. uart_puts ticks env cs tr = Some tr' \<and>
    writes tr' = writes tr @ map (\<lambda>c. (U0_THR, ucast c)) cs \<and> taken tr' = taken tr"
proof (induction cs arbitrary: tr)
  case (Cons c cs)
  obtain tr1 where "uart_putchar ticks env c tr = Some tr1" "writes tr1 = writes tr @ [(U0_THR, ucast c)]"
    "taken tr1 = taken tr"
    using uart_putchar_lives [OF assms] by blast
  then show ?case using Cons.IH [of tr1] by auto
qed simp

lemma uart_puts_append:
  "uart_puts ticks env (cs @ ds) = (\<lambda>tr. do { tr \<leftarrow> uart_puts ticks env cs tr; uart_puts ticks env ds tr })"
proof (induction cs)
  case (Cons c cs)
  show ?case
  proof
    fix tr
    show "uart_puts ticks env ((c # cs) @ ds) tr =
        do { tr \<leftarrow> uart_puts ticks env (c # cs) tr; uart_puts ticks env ds tr }"
      using Cons.IH by (cases "uart_putchar ticks env c tr") simp_all
  qed
qed simp

text \<open>What the task prints first.\<close>

definition banner :: "bool \<Rightarrow> buf" where
  "banner on = [0x5B] @ pll_name on @ [0x5D, 0x20] @ boot_msg"

lemma echo_task_init_puts:
  "echo_task_init ticks env tr =
     (let tr = uart0_init env tr; v = env tr APP_PLL0STAT
      in uart_puts ticks env (banner (v AND PLL0_CONNECTED \<noteq> 0)) (tr @ [Rd APP_PLL0STAT v]))"
proof -
  have cons: "uart_puts ticks env (c # cs) = (\<lambda>tr. do { tr \<leftarrow> uart_putchar ticks env c tr; uart_puts ticks env cs tr })" for c cs
    by (rule ext) simp
  show ?thesis by (simp add: echo_task_init_def banner_def uart_puts_append cons Let_def)
qed

lemma echo_turn_cases:
  assumes "console_lives ticks env" and "console_input xs env" and "console_of tr = (False, out)"
  shows "\<exists>tr'. echo_task_turn ticks env tr = Some tr' \<and>
    (if announces env tr then taken tr' = Suc (taken tr) \<and> console_of tr' = (False, out @ [xs (taken tr)])
     else taken tr' = taken tr \<and> console_of tr' = (False, out))"
proof (cases "announces env tr")
  case True
  let ?t1 = "tr @ [Rd U0_LSR (env tr U0_LSR)]"
  let ?t2 = "?t1 @ [Rd U0_RBR (env ?t1 U0_RBR)]"
  have c: "ucast (env ?t1 U0_RBR AND 0xFF) = xs (taken tr)"
    using assms(2) True unfolding console_input_def ucast_u8_mask by blast
  obtain tr' where "uart_putchar ticks env (xs (taken tr)) ?t2 = Some tr'"
    "writes tr' = writes ?t2 @ [(U0_THR, ucast (xs (taken tr)))]" "taken tr' = taken ?t2"
    using uart_putchar_lives [OF assms(1)] by blast
  then show ?thesis
    using True c assms(3)
    by (intro exI [of _ tr'])
      (simp add: echo_task_turn_def uart_has_data_def uart_raw_getchar_def announces_def taken_def console_of_def
        con_step_def app_regs)
next
  case False
  then show ?thesis
    using assms(3) by (simp add: echo_task_turn_def uart_has_data_def announces_def taken_def app_regs)
qed

lemma echo_task_run_echoes:
  assumes "console_lives ticks env" and "console_input xs env"
  shows "console_of tr = (False, out) \<Longrightarrow>
    \<exists>tr'. echo_task_run ticks env n tr = Some tr' \<and> taken tr \<le> taken tr' \<and> taken tr' \<le> taken tr + n \<and>
      console_of tr' = (False, out @ map xs [taken tr..<taken tr']) \<and>
      ((\<forall>t. announces env t) \<longrightarrow> taken tr' = taken tr + n)"
proof (induction n arbitrary: tr out)
  case (Suc n)
  obtain tr1 where 1: "echo_task_turn ticks env tr = Some tr1"
    "if announces env tr then taken tr1 = Suc (taken tr) \<and> console_of tr1 = (False, out @ [xs (taken tr)])
     else taken tr1 = taken tr \<and> console_of tr1 = (False, out)"
    using echo_turn_cases [OF assms Suc.prems] by blast
  show ?case
  proof (cases "announces env tr")
    case True
    with 1(2) have t: "taken tr1 = Suc (taken tr)" "console_of tr1 = (False, out @ [xs (taken tr)])" by simp_all
    obtain tr' where "echo_task_run ticks env n tr1 = Some tr'" "taken tr1 \<le> taken tr'" "taken tr' \<le> taken tr1 + n"
      "console_of tr' = (False, (out @ [xs (taken tr)]) @ map xs [taken tr1..<taken tr'])"
      "(\<forall>t. announces env t) \<longrightarrow> taken tr' = taken tr1 + n"
      using Suc.IH [OF t(2)] by blast
    then show ?thesis
      using 1(1) t(1) by (intro exI [of _ tr']) (simp add: upt_conv_Cons del: upt_Suc)
  next
    case False
    with 1(2) have t: "taken tr1 = taken tr" "console_of tr1 = (False, out)" by simp_all
    from Suc.IH [OF t(2)] show ?thesis using 1(1) t(1) False by auto
  qed
qed simp

subsection \<open>Properties\<close>

text \<open>
  C9: the RS-485 task, from reset, for ever. When the clock set-up ends with the PLL connected, so that the
  port runs at its nominal speed, and the responder is at the other end of the line, then after the
  set-up of both UARTs the task takes any number of turns: the turn \<open>i\<close> puts one DATA frame with its
  payload and one acknowledgement on the bus, and prints the payload that came back and a newline. Nothing else
  reaches the bus or the console, both counters stay equal and wrap at 256 together, and after every turn
  nothing is left on the line.
\<close>

theorem rs485_task_from_reset:
  fixes junk :: "nat \<Rightarrow> nat \<Rightarrow> u8" and junk' :: "nat \<Rightarrow> u8"
  assumes "system_init (uart_env (responder_peer junk junk') env0) [] = (4, tr)" and "console_free env0"
  defines "env \<equiv> uart_env (responder_peer junk junk') env0"
  shows "\<exists>mem' tr0. reset_handler env l mem [] = (mem', 4, tr) \<and>
    rs485_task_init env (uart0_init env tr) = Some (True, rs485_proto_new, 0, tr0) \<and> rs485_baud tr0 = 115384 \<and>
    (\<forall>n. \<exists>tr'. rs485_task_run ticks env jk jr n rs485_proto_new 0 tr0 =
        Some (\<lparr>rp_seq = of_nat n\<rparr>, of_nat n, tr') \<and>
      p_out (port_of tr') = concat (map (\<lambda>i. proto_wire DATA (of_nat i) (turn_payload (of_nat i)) @
        proto_wire ACK (of_nat i) []) [0..<n]) \<and>
      snd (console_of tr') = concat (map (\<lambda>i. turn_payload (of_nat i) @ [0x0A]) [0..<n]) \<and>
      line_in (responder_peer junk junk') tr' = [])"
proof -
  have s: "system_init env [] = (4, tr)" using assms(1) by (simp add: env_def)
  obtain tr0 where 1: "lpc_rs_init env 115200 (uart0_init env tr) = Some (St_OK, tr0)"
    "rs485_baud tr0 = tier_hz 4 div 4 div 208"
    by (rule uart_rates [OF s])
  have p: "port_of tr0 = port_reset" "console_of tr0 = (False, [])"
    using uarts_init_off [OF system_init_off(1) [OF s] 1(1)] system_init_off(2) [OF s] by simp_all
  have "\<exists>tr'. rs485_task_run ticks env jk jr n rs485_proto_new 0 tr0 = Some (\<lparr>rp_seq = of_nat n\<rparr>, of_nat n, tr') \<and>
      p_out (port_of tr') = concat (map (\<lambda>i. turn_frames (of_nat i)) [0..<n]) \<and>
      snd (console_of tr') = concat (map (\<lambda>i. turn_payload (of_nat i) @ [0x0A]) [0..<n]) \<and>
      line_in (responder_peer junk junk') tr' = []" for n
    using rs485_task_run_echo [OF assms(2) link_idle_reset [OF p(1), of junk junk'] p(2), where ticks = ticks and jk = jk and jr = jr and n = n and q = 0,
        folded env_def] p(1)
    by (auto simp: rs485_proto_new_def port_reset_def link_idle_def)
  then show ?thesis
    using s 1 by (intro exI [of _ "fst (reset_handler env l mem [])"] exI [of _ tr0])
      (simp add: reset_handler_def rs485_task_init_def Let_def tier_hz_def turn_frames_def)
qed

text \<open>Hardware whose clock set-up succeeds at the first polls, and whose console is always free.\<close>

theorem rs485_task_from_reset_witness:
  "\<exists>tr tr0 tr'. system_init (uart_env (responder_peer (\<lambda>_ _. 0) (\<lambda>_. 0)) (\<lambda>_ _. -1)) [] = (4, tr) \<and>
    rs485_task_run id (uart_env (responder_peer (\<lambda>_ _. 0) (\<lambda>_. 0)) (\<lambda>_ _. -1)) (\<lambda>_ _. 0) (\<lambda>_. 0) 2 rs485_proto_new 0 tr0 =
      Some (\<lparr>rp_seq = 2\<rparr>, 2, tr') \<and>
    snd (console_of tr') = [0xAA, 0xBB, 0, 1, 0x0A, 0xAA, 0xBB, 1, 2, 0x0A]"
proof -
  let ?env = "uart_env (responder_peer (\<lambda>_ _. 0) (\<lambda>_. 0)) (\<lambda>_ _. -1)"
  have e: "?env t a = -1" if "a \<noteq> U2LSR" "a \<noteq> U2RBR" for t a using that by (simp add: uart_env_def Let_def)
  have "?env t SCS = -1" "?env t PLL0STAT = -1" for t
    by (rule e; simp add: clock_addresses rs485_regs)+
  then have poll: "clock_poll ?env SCS up 1000000 t = (True, t @ [Rd SCS (-1)])" "clock_poll ?env PLL0STAT up 1000000 t = (True, t @ [Rd PLL0STAT (-1)])"
    if "up (-1)" for up t
  proof -
    have n: "(1000000 :: nat) = Suc 999999" by simp
    show "clock_poll ?env SCS up 1000000 t = (True, t @ [Rd SCS (-1)])" "clock_poll ?env PLL0STAT up 1000000 t = (True, t @ [Rd PLL0STAT (-1)])"
      using that \<open>\<And>t. ?env t SCS = -1\<close> \<open>\<And>t. ?env t PLL0STAT = -1\<close> unfolding n clock_poll.simps by simp_all
  qed
  obtain tr where s: "system_init ?env [] = (4, tr)"
    by (simp add: system_init_def Let_def poll SCS_OSCSTAT_def PLOCK0_def PLLC0_STAT_def PLLE0_STAT_def)
  have c: "console_free (\<lambda>_ _. -1)" by (simp add: console_free_def)
  obtain tr0 tr' where "rs485_task_run id ?env (\<lambda>_ _. 0) (\<lambda>_. 0) 2 rs485_proto_new 0 tr0 =
      Some (\<lparr>rp_seq = of_nat 2\<rparr>, of_nat 2, tr')"
    "snd (console_of tr') = concat (map (\<lambda>i. turn_payload (of_nat i) @ [0x0A]) [0..<2])"
    using rs485_task_from_reset [OF s c, where ticks = id and jk = "\<lambda>_ _. 0" and jr = "\<lambda>_. 0"] by blast
  then show ?thesis
    using s by (intro exI [of _ tr] exI [of _ tr0] exI [of _ tr']) (simp add: turn_payload_def upt_rec)
qed

text \<open>
  C18: the echo task prints its banner, which tells whether the PLL is connected, and then echoes: for every
  stream of incoming bytes, whenever they arrive, on a transmitter that becomes free again and again, every
  number of turns returns, and the console has been sent the banner and the bytes taken so far, each
  once and in order. A turn takes a byte exactly when one is announced, so it takes one each turn while bytes are waiting.
\<close>

theorem echo_task_echoes:
  assumes "console_lives ticks env" and "console_input xs env" and "console_of tr = (d, out)"
  shows "\<exists>tr0 on. echo_task_init ticks env tr = Some tr0 \<and>
    on = (env (uart0_init env tr) APP_PLL0STAT AND PLL0_CONNECTED \<noteq> 0) \<and>
    console_of tr0 = (False, out @ banner on) \<and>
    (\<forall>n. \<exists>tr'. echo_task_run ticks env n tr0 = Some tr' \<and> taken tr \<le> taken tr' \<and> taken tr' \<le> taken tr + n \<and>
      console_of tr' = (False, out @ banner on @ map xs [taken tr..<taken tr']) \<and>
      ((\<forall>t. announces env t) \<longrightarrow> taken tr' = taken tr + n))"
proof -
  let ?t0 = "uart0_init env tr" and ?v = "env (uart0_init env tr) APP_PLL0STAT"
  let ?on = "?v AND PLL0_CONNECTED \<noteq> 0"
  obtain tr0 where 1: "uart_puts ticks env (banner ?on) (?t0 @ [Rd APP_PLL0STAT ?v]) = Some tr0"
    "writes tr0 = writes (?t0 @ [Rd APP_PLL0STAT ?v]) @ map (\<lambda>c. (U0_THR, ucast c)) (banner ?on)"
    "taken tr0 = taken (?t0 @ [Rd APP_PLL0STAT ?v])"
    using uart_puts_lives [OF assms(1)] by blast
  have "console_of ?t0 = (False, out)"
    using assms(3) by (simp add: uart0_init_def Let_def con_step_def app_regs)
  then have c: "console_of tr0 = (False, out @ banner ?on)"
    using 1(2) con_chars by (simp add: console_of_def)
  have t: "taken tr0 = taken tr" using 1(3) by (simp add: taken_def uart0_init_def Let_def app_regs)
  show ?thesis
    using 1(1) c echo_task_run_echoes [OF assms(1,2) c] unfolding t
    by (intro exI [of _ tr0] exI [of _ ?on]) (simp add: echo_task_init_puts Let_def)
qed

text \<open>A console that is always free and always has the next letter of the alphabet.\<close>

theorem echo_task_echoes_witness:
  "\<exists>tr0 tr'. echo_task_run id (\<lambda>t a. if a = U0_LSR then 0x21 else of_nat (taken t + 0x61)) 3 tr0 = Some tr' \<and>
     console_of tr' = (False, banner False @ [0x61, 0x62, 0x63])"
proof -
  let ?env = "\<lambda>t a. if a = U0_LSR then 0x21 else of_nat (taken t + 0x61) :: u32"
  have lives: "console_lives id ?env"
    by (auto simp: console_lives_def thr_free_def intro!: exI [of _ 0])
  have letter: "ucast (of_nat k :: u32) = (of_nat k :: u8)" for k
    by (simp add: unsigned_of_nat word_of_nat_eq_iff take_bit_take_bit)
  have input: "console_input (\<lambda>k. of_nat (k + 0x61)) ?env"
    using letter unfolding console_input_def by (simp add: taken_def app_regs del: of_nat_add)
  have ready: "announces ?env t" for t by (simp add: announces_def)
  have "taken (uart0_init ?env []) = 0" by (simp add: taken_def uart0_init_def Let_def app_regs)
  then have off: "?env (uart0_init ?env []) APP_PLL0STAT AND PLL0_CONNECTED = 0" by (simp add: app_regs PLL0_CONNECTED_def)
  have c: "console_of [] = (False, [])" by (simp add: console_of_def)
  obtain tr0 on where 1: "on = (?env (uart0_init ?env []) APP_PLL0STAT AND PLL0_CONNECTED \<noteq> 0)"
    "\<And>n. \<exists>tr'. echo_task_run id ?env n tr0 = Some tr' \<and> taken [] \<le> taken tr' \<and> taken tr' \<le> taken [] + n \<and>
      console_of tr' = (False, [] @ banner on @ map (\<lambda>k. of_nat (k + 0x61)) [taken []..<taken tr']) \<and>
      ((\<forall>t. announces ?env t) \<longrightarrow> taken tr' = taken [] + n)"
    using echo_task_echoes [OF lives input c] by blast
  have "\<not> on" using 1(1) off by blast
  moreover obtain tr' where "echo_task_run id ?env 3 tr0 = Some tr'" "taken tr' = taken [] + 3"
    "console_of tr' = (False, [] @ banner on @ map (\<lambda>k. of_nat (k + 0x61)) [taken []..<taken tr'])"
    using 1(2) [of 3] ready by blast
  ultimately show ?thesis
    by (intro exI [of _ tr0] exI [of _ tr']) (simp add: taken_def upt_rec)
qed

end
