(* ===== verification/I2c_Slave.thy ===== *)
theory I2c_Slave
  imports Bitbang_I2c_Lpc Spi_Chip
begin

text \<open>
  A slave with registers on the I2C lines: an executable machine on the edges, that follows the protocol and not the
  driver. The lemmas show what the combined transaction of \<open>Bitbang_I2c_Lpc\<close> does with it: the byte read is the
  register that was selected, and another address is not acknowledged.
\<close>

subsection \<open>A slave with registers\<close>

text \<open>
  The levels of the data line at the rising clock edges since the last start, and the register that the last
  complete write to the address selected: its second byte. A stop ends the transfer.
\<close>

record i2c_slave =
  is_reg :: u8
  is_bits :: "bool list"

fun slave_step :: "u8 \<Rightarrow> i2c_slave \<Rightarrow> edge \<Rightarrow> i2c_slave" where
  "slave_step a s Start_cond = s\<lparr>is_bits := []\<rparr>"
| "slave_step a s Stop_cond = s\<lparr>is_bits := []\<rparr>"
| "slave_step a s Scl_fall = s"
| "slave_step a s (Scl_rise v) =
     (let bs = is_bits s @ [v] in
      if length bs = 17 \<and> take 8 bs = msb_first (push_bit 1 a) then s\<lparr>is_bits := bs, is_reg := foldl shift_in 0 (drop 9 bs)\<rparr>
      else s\<lparr>is_bits := bs\<rparr>)"

definition slave_state :: "u8 \<Rightarrow> edge list \<Rightarrow> i2c_slave" where
  "slave_state a E = foldl (slave_step a) \<lparr>is_reg = 0, is_bits = []\<rparr> E"

text \<open>
  It acknowledges its address, and every byte written to it; addressed for reading it sends the selected register,
  most significant bit first. At other times it leaves the line alone.
\<close>

definition reg_slave :: "u8 \<Rightarrow> (u8 \<Rightarrow> u8) \<Rightarrow> slave" where
  "reg_slave a mem E =
     (let s = slave_state a E; bs = is_bits s; n = length bs in
      if n < 9 then True
      else if take 8 bs = msb_first (push_bit 1 a) then n mod 9 \<noteq> 0
      else if take 8 bs = msb_first (push_bit 1 a OR 1) then
        (if n = 9 then False else if n \<le> 17 then bit (mem (is_reg s)) (17 - n) else True)
      else True)"

lemma slave_state_append [simp]: "slave_state a (E @ F) = foldl (slave_step a) (slave_state a E) F"
  by (simp add: slave_state_def)

lemma msb_first_bits: "msb_first b = [bit b 7, bit b 6, bit b 5, bit b 4, bit b 3, bit b 2, bit b 1, bit b 0]"
  by (simp add: msb_first_def upt_rec numeral_eq_Suc)

lemma byte_edges_bits: "byte_edges b 8 = [Scl_rise (bit b 7), Scl_fall, Scl_rise (bit b 6), Scl_fall, Scl_rise (bit b 5), Scl_fall,
    Scl_rise (bit b 4), Scl_fall, Scl_rise (bit b 3), Scl_fall, Scl_rise (bit b 2), Scl_fall, Scl_rise (bit b 1), Scl_fall,
    Scl_rise (bit b 0), Scl_fall]"
  by (simp add: numeral_eq_Suc)

lemma foldl_msb_first: "foldl shift_in 0 (msb_first b) = b"
proof -
  have "msb_first b = bits_msb b" by (simp add: msb_first_bits bits_msb_def upt_rec numeral_eq_Suc)
  then show ?thesis by (simp add: foldl_bits_msb)
qed

lemma msb_first_inject: "msb_first a = msb_first b \<longleftrightarrow> a = b"
  by (metis foldl_msb_first)

text \<open>What the slave makes of a byte: the bits are added, and the second byte of a write selects the register.\<close>

lemma slave_first_byte:
  "is_bits (slave_state a E) = [] \<Longrightarrow>
   slave_state a (E @ byte_edges b 8) = \<lparr>is_reg = is_reg (slave_state a E), is_bits = msb_first b\<rparr>"
  by (cases "slave_state a E") (simp add: byte_edges_bits msb_first_bits Let_def del: byte_edges.simps)

lemma slave_second_byte:
  assumes "slave_state a E = \<lparr>is_reg = r, is_bits = msb_first c @ [v]\<rparr>"
  shows "slave_state a (E @ byte_edges b 8) =
    \<lparr>is_reg = if c = push_bit 1 a then b else r, is_bits = msb_first c @ v # msb_first b\<rparr>"
  using assms msb_first_inject [of c "push_bit 1 a"] foldl_msb_first [of b]
  by (simp add: byte_edges_bits msb_first_bits Let_def del: byte_edges.simps)

subsection \<open>Transactions with it\<close>

text \<open>Seven-bit addresses give different address bytes.\<close>

lemma address_bytes [simp]: "a * 2 \<noteq> b * 2 OR (1 :: u8)" "b * 2 OR 1 \<noteq> a * (2 :: u8)"
proof -
  have "\<not> bit (push_bit 1 a) 0" "bit (push_bit 1 b OR (1 :: u8)) 0"
    unfolding bit_push_bit_iff bit_or_iff by simp_all
  then have "push_bit 1 a \<noteq> push_bit 1 b OR (1 :: u8)" by metis
  then show "a * 2 \<noteq> b * 2 OR (1 :: u8)" "b * 2 OR 1 \<noteq> a * (2 :: u8)" by (simp_all add: push_bit_eq_mult)
qed

lemma address_inject:
  assumes "a < 0x80" "b < (0x80 :: u8)"
  shows "push_bit 1 a = push_bit 1 b \<longleftrightarrow> a = b"
proof
  assume "push_bit 1 a = push_bit 1 b"
  then have "unat (push_bit 1 a) = unat (push_bit 1 b)" by simp
  moreover have "unat (push_bit 1 c) = 2 * unat c" if "c < 0x80" for c :: u8
    using that by (simp add: push_bit_eq_mult unat_word_ariths word_less_nat_alt)
  ultimately show "a = b" using assms by (simp add: word_unat_eq_iff)
qed simp

lemma length_msb_first [simp]: "length (msb_first b) = 8"
  by (simp add: msb_first_def)

lemma reg_slave_write:
  assumes "is_bits (slave_state a E) = []"
  shows "send_spec (reg_slave a mem) E [push_bit 1 c, d] =
    (if push_bit 1 c = push_bit 1 a
     then (True, E @ byte_edges (push_bit 1 c) 8 @ [Scl_rise True, Scl_fall] @ byte_edges d 8 @ [Scl_rise True, Scl_fall])
     else (False, E @ byte_edges (push_bit 1 c) 8 @ [Scl_rise True, Scl_fall]))"
proof -
  let ?A = "E @ byte_edges (push_bit 1 c) 8"
  have 1: "slave_state a (?A @ [Scl_rise True]) =
      \<lparr>is_reg = is_reg (slave_state a E), is_bits = msb_first (push_bit 1 c) @ [True]\<rparr>"
    by (simp only: slave_state_append [of _ ?A] slave_first_byte [OF assms]) (simp add: Let_def)
  have ack1: "reg_slave a mem (?A @ [Scl_rise True]) = (push_bit 1 c \<noteq> push_bit 1 a)"
    unfolding reg_slave_def 1 by (simp add: Let_def msb_first_inject)
  let ?B = "?A @ [Scl_rise True, Scl_fall]"
  have 2: "slave_state a ?B = \<lparr>is_reg = is_reg (slave_state a E), is_bits = msb_first (push_bit 1 c) @ [True]\<rparr>"
    using 1 by (simp add: slave_state_def)
  have 3: "slave_state a ((?B @ byte_edges d 8) @ [Scl_rise True]) = \<lparr>is_reg = if push_bit 1 c = push_bit 1 a then d else is_reg (slave_state a E),
      is_bits = msb_first (push_bit 1 c) @ True # msb_first d @ [True]\<rparr>"
    by (simp only: slave_state_append [of _ "?B @ byte_edges d 8"] slave_second_byte [OF 2]) (simp add: Let_def)
  have ack2: "push_bit 1 c = push_bit 1 a \<Longrightarrow> \<not> reg_slave a mem ((?B @ byte_edges d 8) @ [Scl_rise True])"
    unfolding reg_slave_def 3 by (simp add: Let_def)
  show ?thesis using ack1 ack2 by (simp add: Let_def del: byte_edges.simps)
qed

lemma reg_slave_sends:
  assumes "slave_state a E = \<lparr>is_reg = d, is_bits = msb_first (push_bit 1 a OR 1) @ True # bs\<rparr>" and "length bs + k = 8"
  shows "fst (slave_bits (reg_slave a mem) E k acc) = foldl shift_in acc (map (bit (mem d)) (rev [0..<k]))"
  using assms
proof (induction k arbitrary: E bs acc)
  case (Suc k)
  let ?A = "E @ [Scl_rise True]"
  have 1: "slave_state a ?A = \<lparr>is_reg = d, is_bits = msb_first (push_bit 1 a OR 1) @ True # (bs @ [True])\<rparr>"
    using Suc.prems(1) by (simp add: Let_def msb_first_inject)
  have "17 - length (msb_first (push_bit 1 a OR 1) @ True # (bs @ [True])) = k" using Suc.prems(2) by simp
  then have lvl: "reg_slave a mem ?A = bit (mem d) k"
    unfolding reg_slave_def 1 using Suc.prems(2) by (simp add: Let_def msb_first_inject)
  have 2: "slave_state a (?A @ [Scl_fall]) = \<lparr>is_reg = d, is_bits = msb_first (push_bit 1 a OR 1) @ True # (bs @ [True])\<rparr>"
    using 1 by (simp add: slave_state_def)
  show ?case
    using Suc.IH [OF 2] Suc.prems(2) by (simp add: Let_def lvl shift_in_def)
qed simp

lemma reg_slave_transaction:
  "\<exists>F. write_read_spec (reg_slave a mem) E c [d] 1 =
    (if push_bit 1 c = push_bit 1 a then (I2c_OK, [mem d], F) else (I2c_NACK, [], F))"
proof -
  let ?S = "E @ [Start_cond, Scl_fall]"
  have s: "is_bits (slave_state a ?S) = []" by simp
  show ?thesis
  proof (cases "push_bit 1 c = push_bit 1 a")
    case True
    define B where "B = (?S @ byte_edges (push_bit 1 c) 8 @ [Scl_rise True, Scl_fall]) @ byte_edges d 8"
    have b: "send_spec (reg_slave a mem) ?S [push_bit 1 c, d] = (True, B @ [Scl_rise True, Scl_fall])"
      using reg_slave_write [OF s, of mem c d] True by (simp add: B_def del: byte_edges.simps send_spec.simps)
    have 1: "slave_state a (?S @ byte_edges (push_bit 1 c) 8 @ [Scl_rise True, Scl_fall]) =
        \<lparr>is_reg = is_reg (slave_state a ?S), is_bits = msb_first (push_bit 1 c) @ [True]\<rparr>"
      using slave_first_byte [OF s, of "push_bit 1 c"] by (simp add: Let_def slave_state_def)
    have reg: "is_reg (slave_state a B) = d" "length (is_bits (slave_state a B)) = 17"
      using slave_second_byte [OF 1, of d] True by (simp_all add: B_def del: slave_state_append)
    let ?T = "(B @ [Scl_rise True, Scl_fall]) @ [Scl_rise True, Start_cond, Scl_fall]"
    have t: "slave_state a ?T = \<lparr>is_reg = d, is_bits = []\<rparr>"
      using reg by (simp add: Let_def)
    have 2: "slave_state a ((?T @ byte_edges (push_bit 1 c OR 1) 8) @ [Scl_rise True]) =
        \<lparr>is_reg = d, is_bits = msb_first (push_bit 1 a OR 1) @ [True]\<rparr>"
      using slave_first_byte [of a ?T "push_bit 1 c OR 1"] t True
      by (simp only: slave_state_append [of _ "?T @ byte_edges (push_bit 1 c OR 1) 8"]) (simp add: Let_def)
    have ack: "\<not> reg_slave a mem ((?T @ byte_edges (push_bit 1 c OR 1) 8) @ [Scl_rise True])"
      unfolding reg_slave_def 2 by (simp add: Let_def msb_first_inject)
    let ?C = "?T @ byte_edges (push_bit 1 c OR 1) 8 @ [Scl_rise True, Scl_fall]"
    have c: "send_spec (reg_slave a mem) ?T [push_bit 1 c OR 1] = (True, ?C)"
      using ack by (simp add: Let_def del: byte_edges.simps)
    have "slave_state a ?C = \<lparr>is_reg = d, is_bits = msb_first (push_bit 1 a OR 1) @ True # []\<rparr>"
      using 2 by (simp add: slave_state_def)
    from reg_slave_sends [OF this, of 8 mem 0] have v: "fst (slave_bits (reg_slave a mem) ?C 8 0) = mem d"
      by (simp add: foldl_msb_first [of "mem d", unfolded msb_first_def])
    have r: "read_spec (reg_slave a mem) ?C 1 = ([mem d], snd (slave_bits (reg_slave a mem) ?C 8 0) @ [Scl_rise True, Scl_fall])"
      using v by (simp add: Let_def split_beta del: slave_bits.simps)
    have "write_read_spec (reg_slave a mem) E c [d] 1 =
        (I2c_OK, [mem d], (snd (slave_bits (reg_slave a mem) ?C 8 0) @ [Scl_rise True, Scl_fall]) @ stop_edges)"
      by (simp only: write_read_spec_def b c r Let_def prod.case not_True_eq_False if_False)
    then show ?thesis unfolding if_P [OF True] by blast
  next
    case False
    then have "send_spec (reg_slave a mem) ?S [push_bit 1 c, d] =
        (False, ?S @ byte_edges (push_bit 1 c) 8 @ [Scl_rise True, Scl_fall])"
      using reg_slave_write [OF s, of mem c d] by (simp del: byte_edges.simps send_spec.simps)
    then have "write_read_spec (reg_slave a mem) E c [d] 1 =
        (I2c_NACK, [], (?S @ byte_edges (push_bit 1 c) 8 @ [Scl_rise True, Scl_fall]) @ stop_edges)"
      by (simp only: write_read_spec_def Let_def prod.case not_False_eq_True if_True)
    then show ?thesis unfolding if_not_P [OF False] by blast
  qed
qed

end
