(* ===== verification/I2c_Probe.thy ===== *)
theory I2c_Probe
  imports Can_Hil I2c_Slave
begin

text \<open>
  \<^verbatim>\<open>tests/i2c_probe_test.cpp\<close>: a program that asks for the identification register of a BMP280 at its two
  addresses and shows a verdict on four LEDs, over the bit-banged I2C port. The registers of the LEDs are the
  ones of \<^verbatim>\<open>tests/rs485_test.cpp\<close>, the delay the one of the CAN tests. The verdict is compared with what is on the
  bus: the slave of \<open>I2c_Slave\<close> at any address, and a dead bus.
\<close>

subsection \<open>The program\<close>

definition PROBE_LED2 :: u32 where "PROBE_LED2 = push_bit 20 1"
definition PROBE_LED3 :: u32 where "PROBE_LED3 = push_bit 21 1"
definition PROBE_LED_ALL :: u32 where "PROBE_LED_ALL = HIL_LED1 OR PROBE_LED2 OR PROBE_LED3 OR HIL_LED4"

definition probe_leds :: "env \<Rightarrow> trace \<Rightarrow> trace" where
  "probe_leds env tr =
     (let tr = reg_clear env HIL_PINSEL3 (push_bit 4 3 OR push_bit 8 3 OR push_bit 10 3 OR push_bit 14 3) tr;
          tr = reg_or env HIL_FIO1DIR PROBE_LED_ALL tr;
          tr = reg_wr HIL_FIO1CLR PROBE_LED_ALL tr;
          tr = reg_wr HIL_FIO1SET PROBE_LED_ALL tr @ hil_delay_ms 1000
      in reg_wr HIL_FIO1CLR PROBE_LED_ALL tr)"

text \<open>The status that \<^verbatim>\<open>init\<close> returns is not looked at.\<close>

definition i2c_probe_boot :: "env \<Rightarrow> trace \<Rightarrow> bb_i2c option" where
  "i2c_probe_boot env tr = do {
     (_, ob) \<leftarrow> i2c_init (bb_i2c_dev env) 100000 (bb_i2c_new (probe_leds env tr));
     Some ob }"

definition i2c_verdict :: "i2c_status \<Rightarrow> u8 \<Rightarrow> u32" where
  "i2c_verdict st ident = (if st = I2c_NACK then PROBE_LED2 else if st = I2c_OK \<and> ident = 0x58 then HIL_LED1 else HIL_LED4)"

definition i2c_probe_turn :: "env \<Rightarrow> bb_i2c \<Rightarrow> bb_i2c option" where
  "i2c_probe_turn env ob = do {
     let dev = bb_i2c_dev env;
     (st, ident, ob) \<leftarrow> i2c_write_read dev 0x76 (Some [0xD0]) 1 (Some [0]) 1 ob;
     (st, ident, ob) \<leftarrow> (if st = I2c_NACK then i2c_write_read dev 0x77 (Some [0xD0]) 1 (Some ident) 1 ob
                     else Some (st, ident, ob));
     v \<leftarrow> rd8 ident 0;
     let tr = reg_wr HIL_FIO1CLR PROBE_LED_ALL (bi_hw ob);
     let tr = reg_wr HIL_FIO1SET (i2c_verdict st v) tr;
     Some (ob\<lparr>bi_hw := tr @ hil_delay_ms 1000\<rparr>) }"

fun i2c_probe_run :: "env \<Rightarrow> nat \<Rightarrow> bb_i2c \<Rightarrow> bb_i2c option" where
  "i2c_probe_run env 0 ob = Some ob"
| "i2c_probe_run env (Suc n) ob = do { ob \<leftarrow> i2c_probe_turn env ob; i2c_probe_run env n ob }"

subsection \<open>The LEDs\<close>

text \<open>Which of LED1 to LED4 the program has left on.\<close>

definition lit :: "trace \<Rightarrow> bool list" where
  "lit tr = map (\<lambda>m. pin_level HIL_FIO1SET HIL_FIO1CLR m False tr) [HIL_LED1, PROBE_LED2, PROBE_LED3, HIL_LED4]"

lemmas probe_regs = hil_regs HIL_LED1_def PROBE_LED2_def PROBE_LED3_def HIL_LED4_def PROBE_LED_ALL_def

lemma writes_delay [simp]: "writes (hil_delay_ms n) = []"
proof -
  have "writes (replicate k (Spin m)) = []" for k m by (induction k) simp_all
  then show ?thesis by (simp add: hil_delay_ms_def)
qed

lemma pin_level_delay [simp]: "pin_level s c m lvl (hil_delay_ms n) = lvl"
  by (rule pin_level_no_writes) simp

text \<open>After a turn exactly the LED of the verdict is lit, whatever was lit before.\<close>

lemma lit_after:
  "lit (tr @ Wr HIL_FIO1CLR PROBE_LED_ALL # Wr HIL_FIO1SET HIL_LED1 # hil_delay_ms n) = [True, False, False, False]"
  "lit (tr @ Wr HIL_FIO1CLR PROBE_LED_ALL # Wr HIL_FIO1SET PROBE_LED2 # hil_delay_ms n) = [False, True, False, False]"
  "lit (tr @ Wr HIL_FIO1CLR PROBE_LED_ALL # Wr HIL_FIO1SET PROBE_LED3 # hil_delay_ms n) = [False, False, True, False]"
  "lit (tr @ Wr HIL_FIO1CLR PROBE_LED_ALL # Wr HIL_FIO1SET HIL_LED4 # hil_delay_ms n) = [False, False, False, True]"
  by (simp_all add: lit_def probe_regs)

subsection \<open>A turn on a bus\<close>

text \<open>The transactions of a turn: the verdict's status and byte, and the edges afterwards.\<close>

definition probe_spec :: "slave \<Rightarrow> edge list \<Rightarrow> i2c_status \<times> u8 \<times> edge list" where
  "probe_spec sl E =
     (let (st, vs, F) = write_read_spec sl E 0x76 [0xD0] 1
      in if st = I2c_NACK then
           let (st, vs, F) = write_read_spec sl F 0x77 [0xD0] 1 in (st, if vs = [] then 0 else hd vs, F)
         else (st, if vs = [] then 0 else hd vs, F))"

lemma i2c_lines_delay [simp]: "i2c_watch w (hil_delay_ms n) = w"
proof -
  have "i2c_watch w (replicate k (Spin m)) = w" for k m by (induction k) simp_all
  then show ?thesis by (simp add: hil_delay_ms_def)
qed

lemma probe_transaction:
  assumes "i2c_bus env sl" "idle_bus (bi_hw ob) E"
  obtains st vs F tr where "write_read_spec sl E a [0xD0] 1 = (st, vs, F)"
    "i2c_write_read (bb_i2c_dev env) a (Some [0xD0]) 1 (Some [0]) 1 ob = Some (st, [if vs = [] then 0 else hd vs], ob\<lparr>bi_hw := tr\<rparr>)"
    "idle_bus tr F" "vs = [] \<longleftrightarrow> st \<noteq> I2c_OK"
proof -
  obtain st vs F where s: "write_read_spec sl E a [0xD0] 1 = (st, vs, F)" by (metis prod_cases3)
  have l: "1 \<le> length [0xD0 :: u8]" "1 \<le> length [0 :: u8]" by simp_all
  obtain tr where t: "i2c_write_read (bb_i2c_dev env) a (Some [0xD0]) 1 (Some [0]) 1 ob =
      Some (st, vs @ drop (length vs) [0], ob\<lparr>bi_hw := tr\<rparr>)" "idle_bus tr F" "length vs = (if st = I2c_OK then 1 else 0)"
    using write_read_transaction [OF assms l, of a] s by auto
  have "vs @ drop (length vs) [0] = [if vs = [] then 0 else hd vs]" "vs = [] \<longleftrightarrow> st \<noteq> I2c_OK"
    using t(3) by (cases vs; auto split: if_splits)+
  with s t(1,2) show ?thesis by (intro that) simp_all
qed

text \<open>The end of a turn: the LEDs and the pause.\<close>

definition show_led :: "u32 \<Rightarrow> trace" where
  "show_led m = [Wr HIL_FIO1CLR PROBE_LED_ALL, Wr HIL_FIO1SET m] @ hil_delay_ms 1000"

lemma show_led_idle: "idle_bus tr E \<Longrightarrow> idle_bus (tr @ show_led m) E"
  by (simp add: idle_bus_def i2c_lines_def show_led_def hil_regs i2c_regs)

lemma show_led_verdict:
  "lit (tr @ show_led (i2c_verdict st v)) =
     [st = I2c_OK \<and> v = 0x58, st = I2c_NACK, False, st \<noteq> I2c_NACK \<and> \<not> (st = I2c_OK \<and> v = 0x58)]"
  by (auto simp: i2c_verdict_def show_led_def lit_after)

lemma i2c_probe_turn_spec:
  assumes "i2c_bus env sl" "idle_bus (bi_hw ob) E" "probe_spec sl E = (st, v, F)"
  obtains ob' where "i2c_probe_turn env ob = Some ob'" "idle_bus (bi_hw ob') F"
    "lit (bi_hw ob') = [st = I2c_OK \<and> v = 0x58, st = I2c_NACK, False, st \<noteq> I2c_NACK \<and> \<not> (st = I2c_OK \<and> v = 0x58)]"
proof -
  obtain st1 vs1 F1 tr1 where 1: "write_read_spec sl E 0x76 [0xD0] 1 = (st1, vs1, F1)"
    "i2c_write_read (bb_i2c_dev env) 0x76 (Some [0xD0]) 1 (Some [0]) 1 ob =
      Some (st1, [if vs1 = [] then 0 else hd vs1], ob\<lparr>bi_hw := tr1\<rparr>)"
    "idle_bus tr1 F1" "vs1 = [] \<longleftrightarrow> st1 \<noteq> I2c_OK"
    by (rule probe_transaction [OF assms(1,2)])
  have "\<exists>tr. i2c_probe_turn env ob = Some (ob\<lparr>bi_hw := tr @ show_led (i2c_verdict st v)\<rparr>) \<and> idle_bus tr F"
  proof (cases "st1 = I2c_NACK")
    case True
    have at: "idle_bus (bi_hw (ob\<lparr>bi_hw := tr1\<rparr>)) F1" using 1(3) by simp
    obtain st2 vs2 F2 tr2 where 2: "write_read_spec sl F1 0x77 [0xD0] 1 = (st2, vs2, F2)"
      "i2c_write_read (bb_i2c_dev env) 0x77 (Some [0xD0]) 1 (Some [0]) 1 (ob\<lparr>bi_hw := tr1\<rparr>) =
        Some (st2, [if vs2 = [] then 0 else hd vs2], ob\<lparr>bi_hw := tr1\<rparr>\<lparr>bi_hw := tr2\<rparr>)"
      "idle_bus tr2 F2" "vs2 = [] \<longleftrightarrow> st2 \<noteq> I2c_OK"
      by (rule probe_transaction [OF assms(1) at])
    have r: "st = st2" "v = (if vs2 = [] then 0 else hd vs2)" "F = F2"
      using assms(3) True by (simp_all add: probe_spec_def 1(1) 2(1) del: One_nat_def)
    show ?thesis
      using 1(2,4) 2(2,3) True
      by (intro exI [of _ tr2]) (simp add: i2c_probe_turn_def show_led_def r del: bb_i2c_dev_simps One_nat_def)
  next
    case False
    then have r: "st = st1" "v = (if vs1 = [] then 0 else hd vs1)" "F = F1"
      using assms(3) by (simp_all add: probe_spec_def 1(1) del: One_nat_def)
    show ?thesis
      using 1(2,3) False
      by (intro exI [of _ tr1]) (simp add: i2c_probe_turn_def show_led_def r del: bb_i2c_dev_simps One_nat_def)
  qed
  then obtain tr where t: "i2c_probe_turn env ob = Some (ob\<lparr>bi_hw := tr @ show_led (i2c_verdict st v)\<rparr>)" "idle_bus tr F"
    by blast
  show ?thesis by (rule that [OF t(1)]) (simp_all add: show_led_idle [OF t(2)] show_led_verdict)
qed

text \<open>A dead bus: both addresses are acknowledged, and the identification reads zero.\<close>

lemma i2c_probe_turn_dead:
  assumes "pins_dead env"
  shows "\<exists>ob'. i2c_probe_turn env ob = Some ob' \<and> lit (bi_hw ob') = [False, False, False, True]"
proof -
  have l: "1 \<le> length [0xD0 :: u8]" "1 \<le> length [0 :: u8]" by simp_all
  obtain tr where "i2c_write_read (bb_i2c_dev env) 0x76 (Some [0xD0]) 1 (Some [0]) 1 ob =
      Some (I2c_OK, replicate 1 0 @ drop 1 [0], ob\<lparr>bi_hw := tr\<rparr>)"
    using dead_write_read [OF assms l] by blast
  then have "i2c_probe_turn env ob = Some (ob\<lparr>bi_hw := tr @ show_led (i2c_verdict I2c_OK 0)\<rparr>)"
    by (simp add: i2c_probe_turn_def show_led_def del: bb_i2c_dev_simps One_nat_def)
  then show ?thesis by (simp add: show_led_verdict)
qed

lemma i2c_probe_boot_idle:
  assumes "i2c_bus env sl"
  obtains ob where "i2c_probe_boot env [] = Some ob" "idle_bus (bi_hw ob) []"
proof -
  have idle: "i2c_lines (probe_leds env []) = (False, False, [])"
    by (simp add: i2c_lines_def probe_leds_def Let_def reg_clear_def reg_or_def hil_regs i2c_regs)
  have hz: "(100000 :: u32) \<noteq> 0" "\<not> 400000 < (100000 :: u32)" by simp_all
  let ?t1 = "reg_clear env I2C_PINSEL4 (push_bit 8 3 OR push_bit 10 3) (probe_leds env [])"
  have 1: "i2c_lines ?t1 = (False, False, [])" using idle by (simp add: reg_clear_def i2c_regs i2c_lines_def)
  have 2: "i2c_lines (sda_release env ?t1) = (False, False, [])"
    using 1 by (simp add: sda_release_lines [OF assms])
  have 3: "i2c_lines (reg_clear env I2C_FIO2DIR SCL_MASK (sda_release env ?t1)) = (False, False, [])"
    using i2c_bus_reads [OF assms 2] 2 by (simp add: reg_clear_def i2c_edge_def)
  obtain ob where ob: "i2c_probe_boot env [] = Some ob"
    "bi_hw ob = reg_clear env I2C_FIO2DIR SCL_MASK (sda_release env ?t1)"
    by (simp add: i2c_probe_boot_def bi_init_def Let_def bb_i2c_new_def del: reg_update_simp)
  show ?thesis by (rule that [OF ob(1)]) (use 3 in \<open>simp only: idle_bus_def ob(2)\<close>)
qed

subsection \<open>Verdicts\<close>

text \<open>What the probe makes of a slave at a seven-bit address.\<close>

definition probe_finds :: "u8 \<Rightarrow> (u8 \<Rightarrow> u8) \<Rightarrow> bool list" where
  "probe_finds a mem =
     (if a \<noteq> 0x76 \<and> a \<noteq> 0x77 then [False, True, False, False]
      else if mem 0xD0 = 0x58 then [True, False, False, False] else [False, False, False, True])"

lemma probe_spec_reg_slave:
  assumes "a < 0x80"
  obtains F where "probe_spec (reg_slave a mem) E =
    (if a = 0x76 \<or> a = 0x77 then (I2c_OK, mem 0xD0, F) else (I2c_NACK, 0, F))"
proof -
  have eq: "push_bit 1 0x76 = push_bit 1 a \<longleftrightarrow> a = 0x76" "push_bit 1 0x77 = push_bit 1 a \<longleftrightarrow> a = 0x77"
    using address_inject [OF _ assms, of "0x76"] address_inject [OF _ assms, of "0x77"] by auto
  obtain F where 1: "write_read_spec (reg_slave a mem) E 0x76 [0xD0] 1 =
      (if a = 0x76 then (I2c_OK, [mem 0xD0], F) else (I2c_NACK, [], F))"
    using reg_slave_transaction [of a mem E "0x76" "0xD0"] unfolding eq by blast
  obtain F' where 2: "write_read_spec (reg_slave a mem) F 0x77 [0xD0] 1 =
      (if a = 0x77 then (I2c_OK, [mem 0xD0], F') else (I2c_NACK, [], F'))"
    using reg_slave_transaction [of a mem F "0x77" "0xD0"] unfolding eq by blast
  show ?thesis
  proof (cases "a = 0x76")
    case True
    then have "probe_spec (reg_slave a mem) E = (I2c_OK, mem 0xD0, F)"
      using 1 by (simp add: probe_spec_def del: One_nat_def)
    then show ?thesis using True that [of F] by simp
  next
    case False
    then have "probe_spec (reg_slave a mem) E = (if a = 0x77 then (I2c_OK, mem 0xD0, F') else (I2c_NACK, 0, F'))"
      using 1 2 by (simp add: probe_spec_def del: One_nat_def)
    then show ?thesis using False that [of F'] by simp
  qed
qed

lemma i2c_probe_turn_finds:
  assumes "i2c_bus env (reg_slave a mem)" and "a < 0x80" and "idle_bus (bi_hw ob) E"
  obtains ob' F where "i2c_probe_turn env ob = Some ob'" "idle_bus (bi_hw ob') F" "lit (bi_hw ob') = probe_finds a mem"
proof -
  obtain F where "probe_spec (reg_slave a mem) E =
      (if a = 0x76 \<or> a = 0x77 then (I2c_OK, mem 0xD0, F) else (I2c_NACK, 0, F))"
    by (rule probe_spec_reg_slave [OF assms(2)])
  then obtain st v where s: "probe_spec (reg_slave a mem) E = (st, v, F)"
    "if a = 0x76 \<or> a = 0x77 then st = I2c_OK \<and> v = mem 0xD0 else st = I2c_NACK"
    by (auto split: if_splits)
  obtain ob' where t: "i2c_probe_turn env ob = Some ob'" "idle_bus (bi_hw ob') F"
    "lit (bi_hw ob') = [st = I2c_OK \<and> v = 0x58, st = I2c_NACK, False, st \<noteq> I2c_NACK \<and> \<not> (st = I2c_OK \<and> v = 0x58)]"
    by (rule i2c_probe_turn_spec [OF assms(1,3) s(1)])
  have "lit (bi_hw ob') = probe_finds a mem"
    using t(3) s(2) by (auto simp: probe_finds_def split: if_splits)
  with t(1,2) show ?thesis by (rule that)
qed

lemma i2c_probe_run_finds:
  assumes "i2c_bus env (reg_slave a mem)" and "a < 0x80"
  shows "idle_bus (bi_hw ob) E \<Longrightarrow>
    \<exists>ob'. i2c_probe_run env (Suc n) ob = Some ob' \<and> lit (bi_hw ob') = probe_finds a mem"
proof (induction n arbitrary: ob E)
  case 0
  show ?case by (rule i2c_probe_turn_finds [OF assms 0]) simp
next
  case (Suc n)
  obtain ob1 F where "i2c_probe_turn env ob = Some ob1" "idle_bus (bi_hw ob1) F"
    by (rule i2c_probe_turn_finds [OF assms Suc.prems])
  with Suc.IH show ?case by fastforce
qed

lemma i2c_probe_run_dead:
  assumes "pins_dead env"
  shows "\<exists>ob'. i2c_probe_run env (Suc n) ob = Some ob' \<and> lit (bi_hw ob') = [False, False, False, True]"
proof (induction n arbitrary: ob)
  case 0
  obtain ob' where "i2c_probe_turn env ob = Some ob'" "lit (bi_hw ob') = [False, False, False, True]"
    using i2c_probe_turn_dead [OF assms] by blast
  then show ?case by simp
next
  case (Suc n)
  obtain ob1 where "i2c_probe_turn env ob = Some ob1" using i2c_probe_turn_dead [OF assms] by blast
  with Suc.IH [of ob1] show ?case by auto
qed

subsection \<open>Properties\<close>

text \<open>
  C16: the I2C probe tells what is on the bus. With a slave at any seven-bit address on the two lines, from power-on, the
  set-up returns and so does every turn, and after each turn exactly one LED is lit: LED1 if the slave answers at 0x76 or
  0x77 and its register 0xD0 holds 0x58, LED4 if it answers there and the register holds anything else, LED2 if it is at
  another address. But on a bus whose lines are stuck low, which the comments also list under LED2, every turn
  shows LED4: the acknowledge bit and the identification both read as zero, and no error is reported.
\<close>

theorem i2c_probe_verdicts:
  assumes "i2c_bus env (reg_slave a mem)" and "a < 0x80" and "pins_dead env'"
  shows "(\<exists>ob. i2c_probe_boot env [] = Some ob \<and>
      (\<forall>n. \<exists>ob'. i2c_probe_run env (Suc n) ob = Some ob' \<and> lit (bi_hw ob') = probe_finds a mem)) \<and>
    (\<exists>ob. i2c_probe_boot env' [] = Some ob \<and>
      (\<forall>n. \<exists>ob'. i2c_probe_run env' (Suc n) ob = Some ob' \<and> lit (bi_hw ob') = [False, False, False, True]))"
proof
  obtain ob where "i2c_probe_boot env [] = Some ob" "idle_bus (bi_hw ob) []"
    by (rule i2c_probe_boot_idle [OF assms(1)])
  then show "\<exists>ob. i2c_probe_boot env [] = Some ob \<and>
      (\<forall>n. \<exists>ob'. i2c_probe_run env (Suc n) ob = Some ob' \<and> lit (bi_hw ob') = probe_finds a mem)"
    using i2c_probe_run_finds [OF assms(1,2)] by blast
next
  obtain ob where "i2c_probe_boot env' [] = Some ob"
    by (simp add: i2c_probe_boot_def bi_init_def Let_def)
  then show "\<exists>ob. i2c_probe_boot env' [] = Some ob \<and>
      (\<forall>n. \<exists>ob'. i2c_probe_run env' (Suc n) ob = Some ob' \<and> lit (bi_hw ob') = [False, False, False, True])"
    using i2c_probe_run_dead [OF assms(3)] by blast
qed

text \<open>A BMP280 at its second address, and pins that read zero.\<close>

theorem i2c_probe_verdicts_witness:
  "\<exists>ob ob'. i2c_probe_run (i2c_sim (reg_slave 0x77 (\<lambda>r. if r = 0xD0 then 0x58 else 0))) 2 ob = Some ob' \<and>
     lit (bi_hw ob') = [True, False, False, False]"
proof -
  let ?s = "reg_slave 0x77 (\<lambda>r. if r = 0xD0 then 0x58 else 0)"
  have d: "pins_dead (\<lambda>_ _. 0)" by (simp add: pins_dead_def)
  have a: "(0x77 :: u8) < 0x80" by simp
  obtain ob where "\<forall>n. \<exists>ob'. i2c_probe_run (i2c_sim ?s) (Suc n) ob = Some ob' \<and>
      lit (bi_hw ob') = probe_finds 0x77 (\<lambda>r. if r = 0xD0 then 0x58 else 0)"
    using i2c_probe_verdicts [OF i2c_sim_bus a d] by blast
  then obtain ob' where "i2c_probe_run (i2c_sim ?s) (Suc 1) ob = Some ob'"
    "lit (bi_hw ob') = probe_finds 0x77 (\<lambda>r. if r = 0xD0 then 0x58 else 0)"
    by blast
  moreover have "probe_finds 0x77 (\<lambda>r. if r = 0xD0 then 0x58 else 0) = [True, False, False, False]"
    by (simp add: probe_finds_def)
  moreover have "Suc 1 = 2" by simp
  ultimately show ?thesis by metis
qed

end
