(* ===== verification/Spi_Probe.thy ===== *)
theory Spi_Probe
  imports I2c_Probe Mcp2515_Chip
begin

text \<open>
  Two bench programs of the SPI wiring. \<^verbatim>\<open>tests/mcp2515_probe_test.cpp\<close> resets the CAN controller over the bit-banged
  port, reads \<^verbatim>\<open>CANCTRL\<close> and shows a verdict on the LEDs of \<open>I2c_Probe\<close>; \<^verbatim>\<open>tests/spi_debug_test.cpp\<close> toggles the pins
  itself, without the port. The first is run on an arbitrary chip; a stuck data line is a chip that answers the
  same byte for ever. Of the second it is shown what a chip on the wires receives.
\<close>

subsection \<open>The probe\<close>

definition spi_probe_boot :: "env \<Rightarrow> trace \<Rightarrow> bb_spi option" where
  "spi_probe_boot env tr = do {
     (_, ob) \<leftarrow> spi_init (bb_spi_dev env) 1000000 0 (bb_spi_new (probe_leds env tr));
     Some ob }"

text \<open>Select, transfer, deselect, without a look at any status.\<close>

definition probe_exchange :: "'s spi_dev \<Rightarrow> buf \<Rightarrow> buf \<Rightarrow> nat \<Rightarrow> 's \<Rightarrow> (buf \<times> 's) option" where
  "probe_exchange dev tx rx n s = do {
     (_, s) \<leftarrow> spi_select dev 0 s;
     (_, rx, s) \<leftarrow> spi_transfer dev (Some tx) (Some rx) n 100 s;
     (_, s) \<leftarrow> spi_deselect dev 0 s;
     Some (rx, s) }"

definition spi_verdict :: "u8 \<Rightarrow> u32" where
  "spi_verdict canctrl =
     (if canctrl = 0x87 then HIL_LED1 else if canctrl = 0x00 then PROBE_LED2
      else if canctrl = 0xFF then PROBE_LED3 else HIL_LED4)"

definition spi_probe_turn :: "env \<Rightarrow> bb_spi \<Rightarrow> bb_spi option" where
  "spi_probe_turn env ob = do {
     let dev = bb_spi_dev env;
     (_, ob) \<leftarrow> probe_exchange dev [0xC0] [0] 1 ob;
     let ob = ob\<lparr>bb_hw := bb_hw ob @ hil_delay_ms 1\<rparr>;
     (rrx, ob) \<leftarrow> probe_exchange dev [0x03, 0x0F, 0x00] [0, 0, 0] 3 ob;
     canctrl \<leftarrow> rd8 rrx 2;
     let tr = reg_wr HIL_FIO1CLR PROBE_LED_ALL (bb_hw ob);
     let tr = reg_wr HIL_FIO1SET (spi_verdict canctrl) tr;
     Some (ob\<lparr>bb_hw := tr @ hil_delay_ms 1000\<rparr>) }"

fun spi_probe_run :: "env \<Rightarrow> nat \<Rightarrow> bb_spi \<Rightarrow> bb_spi option" where
  "spi_probe_run env 0 ob = Some ob"
| "spi_probe_run env (Suc n) ob = do { ob \<leftarrow> spi_probe_turn env ob; spi_probe_run env n ob }"

subsection \<open>The pins toggled by hand\<close>

text \<open>\<^verbatim>\<open>for (int bit = 7; bit >= 0; bit--)\<close>: \<open>k\<close> turns are left, the next one sends bit \<open>k - 1\<close>.\<close>

fun debug_bits :: "u8 \<Rightarrow> nat \<Rightarrow> trace \<Rightarrow> trace" where
  "debug_bits txb 0 tr = tr"
| "debug_bits txb (Suc k) tr =
     (let tr = (if txb AND push_bit k 1 \<noteq> 0 then reg_wr FIO2SET MOSI_MASK tr else reg_wr FIO2CLR MOSI_MASK tr) @ [Spin 3];
          tr = reg_wr FIO2SET SCK_MASK tr @ [Spin 3];
          tr = reg_wr FIO2CLR SCK_MASK tr @ [Spin 3]
      in debug_bits txb k tr)"

fun debug_bytes :: "buf \<Rightarrow> trace \<Rightarrow> trace" where
  "debug_bytes [] tr = tr"
| "debug_bytes (b # bs) tr = debug_bytes bs (debug_bits b 8 tr)"

definition debug_main :: "env \<Rightarrow> trace \<Rightarrow> trace" where
  "debug_main env tr =
     (let tr = reg_or env HIL_FIO1DIR (HIL_LED1 OR HIL_LED4) tr;
          tr = reg_clear env PINSEL4 0xFF tr;
          tr = reg_or env FIO2DIR (SCK_MASK OR MOSI_MASK OR CS_MASK) tr;
          tr = reg_clear env FIO2DIR MISO_MASK tr;
          tr = reg_wr FIO2SET CS_MASK tr;
          tr = reg_wr FIO2CLR SCK_MASK tr @ [Spin 50000];
          tr = reg_wr FIO2CLR CS_MASK tr;
          tr = debug_bits 0xC0 8 tr;
          tr = reg_wr FIO2SET CS_MASK tr @ [Spin 50000];
          tr = reg_wr FIO2CLR CS_MASK tr;
          tr = debug_bytes [0x02, 0x29, 0x02] tr;
          tr = reg_wr FIO2SET CS_MASK tr @ [Spin 50000]
      in reg_wr HIL_FIO1SET HIL_LED1 tr)"

definition debug_turn :: "trace \<Rightarrow> trace" where
  "debug_turn tr =
     (let tr = reg_wr HIL_FIO1SET HIL_LED4 tr @ [Spin 500000]
      in reg_wr HIL_FIO1CLR HIL_LED4 tr @ [Spin 500000])"

subsection \<open>The probe on a chip\<close>

lemma exchange_is_transaction:
  "spi_transaction (bb_spi_dev env) 0 tx rx n ob = Some (True, rx', ob') \<Longrightarrow>
   probe_exchange (bb_spi_dev env) tx rx n ob = Some (rx', ob')"
  by (auto simp: spi_transaction_def probe_exchange_def bb_select_def SPI_TIMEOUT_MS_def bind_eq_Some_conv)

lemma exchange_answered:
  assumes "bb_at chip env ob fs" and "length tx = length rx"
  obtains ob' where "probe_exchange (bb_spi_dev env) tx rx (length tx) ob = Some (answer chip fs tx, ob')"
    "bb_at chip env ob' (fs @ [tx])"
proof -
  obtain ob' where "spi_transaction (bb_spi_dev env) 0 tx rx (length tx) ob = Some (True, answer chip fs tx, ob')"
    "bb_at chip env ob' (fs @ [tx])"
    using bbc.transaction_answered [OF assms(1), of "length tx" tx rx 0] assms(2) by auto
  then show ?thesis by (intro that exchange_is_transaction)
qed

text \<open>The LEDs of a turn, from the byte a chip shows for \<^verbatim>\<open>CANCTRL\<close> after a reset.\<close>

definition spi_leds :: "u8 \<Rightarrow> bool list" where
  "spi_leds v = [v = 0x87, v = 0x00, v = 0xFF, v \<notin> {0x87, 0x00, 0xFF}]"

definition probe_frames :: "buf list" where
  "probe_frames = [[0xC0], [0x03, 0x0F, 0x00]]"

lemma off_wires_events [simp]:
  "off_wires (Wr a v # tr) \<longleftrightarrow> a \<noteq> FIO2SET \<and> a \<noteq> FIO2CLR \<and> off_wires tr"
  "off_wires (Rd a v # tr) \<longleftrightarrow> off_wires tr" "off_wires (Spin n # tr) \<longleftrightarrow> off_wires tr"
  by (auto simp: off_wires_def)

lemma show_led_off_wires: "off_wires (show_led m)"
  by (simp add: show_led_def hil_regs bb_spi_regs)

lemma show_led_spi: "lit (tr @ show_led (spi_verdict v)) = spi_leds v"
  by (auto simp: spi_verdict_def spi_leds_def show_led_def lit_after)

lemma spi_probe_turn_at:
  assumes "bb_at chip env ob fs"
  obtains ob' where "spi_probe_turn env ob = Some ob'" "bb_at chip env ob' (fs @ probe_frames)"
    "lit (bb_hw ob') = spi_leds (reg chip (fs @ [[0xC0]]) 0x0F)"
proof -
  obtain ob1 where 1: "probe_exchange (bb_spi_dev env) [0xC0] [0] (length [0xC0 :: u8]) ob = Some (answer chip fs [0xC0], ob1)"
    "bb_at chip env ob1 (fs @ [[0xC0]])"
    by (rule exchange_answered [OF assms, of "[0xC0]" "[0]"]) simp_all
  let ?ob1 = "ob1\<lparr>bb_hw := bb_hw ob1 @ hil_delay_ms 1\<rparr>"
  note at = bb_at_log [OF 1(2) off_wires_delay, of 1]
  obtain ob2 where 2: "probe_exchange (bb_spi_dev env) [0x03, 0x0F, 0x00] [0, 0, 0] (length [0x03 :: u8, 0x0F, 0x00]) ?ob1 =
      Some (answer chip (fs @ [[0xC0]]) [0x03, 0x0F, 0x00], ob2)" "bb_at chip env ob2 ((fs @ [[0xC0]]) @ [[0x03, 0x0F, 0x00]])"
    by (rule exchange_answered [OF at, of "[0x03, 0x0F, 0x00]" "[0, 0, 0]"]) simp_all
  have len: "length [0xC0 :: u8] = 1" "length [0x03 :: u8, 0x0F, 0x00] = 3" by simp_all
  note 1 = 1 [unfolded len] and 2 = 2 [unfolded len]
  have v: "rd8 (answer chip (fs @ [[0xC0]]) [0x03, 0x0F, 0x00]) 2 = Some (reg chip (fs @ [[0xC0]]) 0x0F)"
    by (simp add: rd8_def answer_def reg_def upt_rec)
  let ?ob = "ob2\<lparr>bb_hw := bb_hw ob2 @ show_led (spi_verdict (reg chip (fs @ [[0xC0]]) 0x0F))\<rparr>"
  show ?thesis
  proof (rule that)
    show "spi_probe_turn env ob = Some ?ob"
      using 1(1) 2(1) v by (simp add: spi_probe_turn_def show_led_def del: One_nat_def)
    show "bb_at chip env ?ob (fs @ probe_frames)"
      using bb_at_log [OF 2(2) show_led_off_wires] by (simp add: probe_frames_def)
    show "lit (bb_hw ?ob) = spi_leds (reg chip (fs @ [[0xC0]]) 0x0F)" by (simp add: show_led_spi)
  qed
qed

lemma spi_probe_run_at:
  assumes "\<And>fs. reg chip (fs @ [[0xC0]]) 0x0F = v"
  shows "bb_at chip env ob fs \<Longrightarrow>
    \<exists>ob'. spi_probe_run env (Suc n) ob = Some ob' \<and> lit (bb_hw ob') = spi_leds v \<and>
      bb_at chip env ob' (fs @ concat (replicate (Suc n) probe_frames))"
proof (induction n arbitrary: ob fs)
  case 0
  obtain ob' where "spi_probe_turn env ob = Some ob'" "bb_at chip env ob' (fs @ probe_frames)"
    "lit (bb_hw ob') = spi_leds v"
    using spi_probe_turn_at [OF 0] assms by metis
  then show ?case by simp
next
  case (Suc n)
  obtain ob1 where "spi_probe_turn env ob = Some ob1" "bb_at chip env ob1 (fs @ probe_frames)"
    by (rule spi_probe_turn_at [OF Suc.prems])
  with Suc.IH [OF this(2)] show ?case by auto
qed

lemma probe_leds_wires: "wires (bb_hw (bb_spi_new (probe_leds env []))) = wire0"
proof -
  have "off_wires (probe_leds env [])"
    by (simp add: probe_leds_def Let_def reg_clear_def reg_or_def hil_regs bb_spi_regs)
  then show ?thesis by (simp add: wires_def off_wires_run bb_spi_new_def)
qed

lemma spi_probe_boot_at:
  assumes "chip_env chip env"
  obtains ob where "spi_probe_boot env [] = Some ob" "bb_at chip env ob []"
proof -
  obtain ob where "bb_init env 1000000 0 (bb_spi_new (probe_leds env [])) = Some (Spi_OK, ob)" "bb_at chip env ob []"
    by (rule bb_init_at [OF assms, of "bb_spi_new (probe_leds env [])" "[]"]) (simp_all add: probe_leds_wires wire0_def)
  then show ?thesis by (intro that [of ob]) (simp_all add: spi_probe_boot_def)
qed

subsection \<open>What a chip receives from the pins toggled by hand\<close>

text \<open>Bits that arrive at a selected chip while the clock idles low.\<close>

definition hears_bits :: "bool list \<Rightarrow> wire \<Rightarrow> wire \<Rightarrow> bool" where
  "hears_bits bs w w' \<longleftrightarrow> (\<not> w_sck w \<and> \<not> w_cs w \<longrightarrow>
     \<not> w_sck w' \<and> \<not> w_cs w' \<and> w_frames w' = w_frames w \<and> w_bits w' = w_bits w @ bs)"

lemma debug_bits_heard: "hears_bits (map (bit b) (rev [0..<k])) (wires tr) (wires (debug_bits b k tr))"
proof (induction k arbitrary: tr)
  case (Suc k)
  have b: "(b AND push_bit k 1 \<noteq> 0) = bit b k" by (simp add: and_exp_eq_0_iff_not_bit push_bit_of_1)
  let ?m = "if bit b k then Wr FIO2SET MOSI_MASK else Wr FIO2CLR MOSI_MASK"
  let ?tr = "tr @ [?m, Spin 3, Wr FIO2SET SCK_MASK, Spin 3, Wr FIO2CLR SCK_MASK, Spin 3]"
  have "hears_bits [bit b k] (wires tr) (wires ?tr)"
    by (cases "bit b k") (simp_all add: hears_bits_def wire_step_def pin_after_def Let_def bb_spi_regs SCK_MASK_def MOSI_MASK_def CS_MASK_def)
  moreover have "debug_bits b (Suc k) tr = debug_bits b k ?tr"
    unfolding debug_bits.simps b by (cases "bit b k") (simp_all add: Let_def)
  ultimately show ?case using Suc.IH [of ?tr] by (auto simp: hears_bits_def)
qed (simp add: hears_bits_def)

lemma debug_bytes_heard: "hears_bits (bytes_bits bs) (wires tr) (wires (debug_bytes bs tr))"
proof (induction bs arbitrary: tr)
  case (Cons b bs)
  have "map (bit b) (rev [0..<8]) = bits_msb b" by (simp add: bits_msb_def upt_rec numeral_eq_Suc)
  then have "hears_bits (bits_msb b) (wires tr) (wires (debug_bits b 8 tr))" using debug_bits_heard [of b 8 tr] by simp
  with Cons.IH [of "debug_bits b 8 tr"] show ?case by (auto simp: hears_bits_def)
qed (simp add: hears_bits_def)

text \<open>The two frames are the ones that the driver's reset and its write of \<^verbatim>\<open>CNF2\<close> show on the port.\<close>

lemma debug_frames:
  "w_frames (wires (debug_main env [])) = map bytes_bits [[0xC0], [0x02, 0x29, 0x02]]"
  "w_cs (wires (debug_main env []))"
proof -
  define t0 where "t0 = reg_clear env FIO2DIR MISO_MASK (reg_or env FIO2DIR (SCK_MASK OR MOSI_MASK OR CS_MASK)
    (reg_clear env PINSEL4 0xFF (reg_or env HIL_FIO1DIR (HIL_LED1 OR HIL_LED4) [])))"
  have "off_wires t0" by (simp add: t0_def reg_clear_def reg_or_def hil_regs bb_spi_regs)
  then have w0: "wires t0 = wire0" by (simp add: wires_def off_wires_run)
  define t1 where "t1 = t0 @ [Wr FIO2SET CS_MASK, Wr FIO2CLR SCK_MASK, Spin 50000, Wr FIO2CLR CS_MASK]"
  define t2 where "t2 = debug_bits 0xC0 8 t1"
  define t3 where "t3 = t2 @ [Wr FIO2SET CS_MASK, Spin 50000, Wr FIO2CLR CS_MASK]"
  define t4 where "t4 = debug_bytes [0x02, 0x29, 0x02] t3"
  have main: "debug_main env [] = t4 @ [Wr FIO2SET CS_MASK, Spin 50000, Wr HIL_FIO1SET HIL_LED1]"
    by (simp add: debug_main_def Let_def t0_def t1_def t2_def t3_def t4_def del: debug_bits.simps)
  note wire = wire_step_def pin_after_def Let_def bb_spi_regs SCK_MASK_def MOSI_MASK_def CS_MASK_def hil_regs
  have 1: "\<not> w_sck (wires t1)" "\<not> w_cs (wires t1)" "w_frames (wires t1) = []" "w_bits (wires t1) = []"
    unfolding t1_def wires_append w0 by (simp_all add: wire wire0_def)
  have "hears_bits (bytes_bits [0xC0]) (wires t1) (wires t2)"
    using debug_bytes_heard [of "[0xC0]" t1] by (simp add: t2_def del: debug_bits.simps)
  then have 2: "\<not> w_sck (wires t2)" "\<not> w_cs (wires t2)" "w_frames (wires t2) = []" "w_bits (wires t2) = bytes_bits [0xC0]"
    using 1 by (simp_all add: hears_bits_def)
  have 3: "\<not> w_sck (wires t3)" "\<not> w_cs (wires t3)" "w_frames (wires t3) = [bytes_bits [0xC0]]" "w_bits (wires t3) = []"
    unfolding t3_def wires_append using 2 by (simp_all add: wire)
  have "hears_bits (bytes_bits [0x02, 0x29, 0x02]) (wires t3) (wires t4)"
    unfolding t4_def by (rule debug_bytes_heard)
  then have 4: "\<not> w_sck (wires t4)" "\<not> w_cs (wires t4)" "w_frames (wires t4) = [bytes_bits [0xC0]]"
    "w_bits (wires t4) = bytes_bits [0x02, 0x29, 0x02]"
    using 3 by (simp_all add: hears_bits_def)
  show "w_frames (wires (debug_main env [])) = map bytes_bits [[0xC0], [0x02, 0x29, 0x02]]"
    "w_cs (wires (debug_main env []))"
    unfolding main wires_append using 4 by (simp_all add: wire)
qed

lemma debug_turn_wires: "wires ((debug_turn ^^ n) tr) = wires tr"
proof (induction n)
  case (Suc n)
  have "wires (debug_turn t) = wires t" for t
  proof -
    let ?evs = "[Wr HIL_FIO1SET HIL_LED4, Spin 500000, Wr HIL_FIO1CLR HIL_LED4, Spin 500000]"
    have "off_wires ?evs" by (simp add: hil_regs bb_spi_regs)
    then have "wires (t @ ?evs) = wires t" by (simp only: wires_append off_wires_run)
    then show ?thesis by (simp add: debug_turn_def Let_def)
  qed
  with Suc show ?case by simp
qed simp

subsection \<open>Properties\<close>

text \<open>
  C17: the SPI probe tells what is on the wires. With any chip on the bit-banged port that shows the same value \<open>v\<close>
  in \<^verbatim>\<open>CANCTRL\<close> after every reset, from power-on, the set-up and every turn return, the chip has received exactly one reset and one
  read per turn, and exactly one LED is lit: LED1 for the reset value 0x87, LED2 for 0, LED3 for 0xFF, LED4 for anything
  else. A data line stuck low always gives LED2, one stuck high always LED3. And the raw program shows a chip the
  frames of the driver's reset and its write of 2 to the register 0x29, and nothing more in any later turn.
\<close>

theorem spi_probe_verdicts:
  assumes "chip_env chip env" and "\<And>fs. reg chip (fs @ [[0xC0]]) 0x0F = v"
    and "\<And>tr. env_low tr FIO2PIN AND MISO_MASK = 0" and "\<And>tr. env_high tr FIO2PIN AND MISO_MASK \<noteq> 0"
  shows "(\<exists>ob. spi_probe_boot env [] = Some ob \<and> (\<forall>n. \<exists>ob'. spi_probe_run env (Suc n) ob = Some ob' \<and>
      lit (bb_hw ob') = [v = 0x87, v = 0x00, v = 0xFF, v \<notin> {0x87, 0x00, 0xFF}] \<and>
      w_frames (wires (bb_hw ob')) = map bytes_bits (concat (replicate (Suc n) [[0xC0], [0x03, 0x0F, 0x00]])))) \<and>
    (\<exists>ob. spi_probe_boot env_low [] = Some ob \<and>
      (\<forall>n. \<exists>ob'. spi_probe_run env_low (Suc n) ob = Some ob' \<and> lit (bb_hw ob') = [False, True, False, False])) \<and>
    (\<exists>ob. spi_probe_boot env_high [] = Some ob \<and>
      (\<forall>n. \<exists>ob'. spi_probe_run env_high (Suc n) ob = Some ob' \<and> lit (bb_hw ob') = [False, False, True, False])) \<and>
    w_frames (wires ((debug_turn ^^ k) (debug_main env_raw []))) = map bytes_bits [[0xC0], [0x02, 0x29, 0x02]]"
proof (intro conjI)
  have run: "\<exists>ob. spi_probe_boot e [] = Some ob \<and> (\<forall>n. \<exists>ob'. spi_probe_run e (Suc n) ob = Some ob' \<and>
      lit (bb_hw ob') = spi_leds u \<and> bb_at c e ob' (concat (replicate (Suc n) probe_frames)))"
    if ch: "chip_env c e" and u: "\<And>fs. reg c (fs @ [[0xC0]]) 0x0F = u" for c e u
  proof -
    obtain ob where "spi_probe_boot e [] = Some ob" "bb_at c e ob []" by (rule spi_probe_boot_at [OF ch])
    then show ?thesis using spi_probe_run_at [OF u] by (metis append_Nil)
  qed
  show "\<exists>ob. spi_probe_boot env [] = Some ob \<and> (\<forall>n. \<exists>ob'. spi_probe_run env (Suc n) ob = Some ob' \<and>
      lit (bb_hw ob') = [v = 0x87, v = 0x00, v = 0xFF, v \<notin> {0x87, 0x00, 0xFF}] \<and>
      w_frames (wires (bb_hw ob')) = map bytes_bits (concat (replicate (Suc n) [[0xC0], [0x03, 0x0F, 0x00]])))"
    using run [OF assms(1,2)] unfolding bb_at_def waits_def spi_leds_def probe_frames_def by blast
  have low: "chip_env (\<lambda>_ _. 0) env_low" using assms(3) by (simp add: chip_env_def chip_level_def chip_bit_def)
  show "\<exists>ob. spi_probe_boot env_low [] = Some ob \<and>
      (\<forall>n. \<exists>ob'. spi_probe_run env_low (Suc n) ob = Some ob' \<and> lit (bb_hw ob') = [False, True, False, False])"
    using run [OF low, of 0] by (simp add: reg_def spi_leds_def) blast
  have high: "chip_env (\<lambda>_ _. 0xFF) env_high"
  proof -
    have "bit (0xFF :: u8) (7 - m)" for m
    proof -
      have m: "(0xFF :: u8) = mask 8" by (simp add: mask_eq_exp_minus_1)
      show ?thesis unfolding m by (simp add: bit_mask_iff)
    qed
    then show ?thesis using assms(4) by (simp add: chip_env_def chip_level_def chip_bit_def)
  qed
  show "\<exists>ob. spi_probe_boot env_high [] = Some ob \<and>
      (\<forall>n. \<exists>ob'. spi_probe_run env_high (Suc n) ob = Some ob' \<and> lit (bb_hw ob') = [False, False, True, False])"
    using run [OF high, of "0xFF"] by (simp add: reg_def spi_leds_def) blast
  show "w_frames (wires ((debug_turn ^^ k) (debug_main env_raw []))) = map bytes_bits [[0xC0], [0x02, 0x29, 0x02]]"
    by (simp only: debug_turn_wires debug_frames)
qed

text \<open>The small chip of \<open>Mcp2515_Chip\<close>, and the two stuck lines.\<close>

theorem spi_probe_verdicts_witness:
  "\<exists>ob ob'. spi_probe_run (\<lambda>tr _. if chip_level demo_chip (wires tr) then 4 else 0) 3 ob = Some ob' \<and>
     lit (bb_hw ob') = [True, False, False, False]"
proof -
  let ?env = "\<lambda>tr _. if chip_level demo_chip (wires tr) then 4 else 0 :: u32"
  have c: "chip_env demo_chip ?env" by (simp add: chip_env_def MISO_MASK_def)
  have v: "reg demo_chip (fs @ [[0xC0]]) 0x0F = 0x87" for fs by (simp add: demo_step_def demo_reset_def)
  have low: "(\<lambda>_ _. 0) tr FIO2PIN AND MISO_MASK = 0" and high: "(\<lambda>_ _. 4) tr FIO2PIN AND MISO_MASK \<noteq> 0" for tr :: trace
    by (simp_all add: MISO_MASK_def)
  obtain ob where "\<forall>n. \<exists>ob'. spi_probe_run ?env (Suc n) ob = Some ob' \<and>
      lit (bb_hw ob') = [(0x87 :: u8) = 0x87, (0x87 :: u8) = 0x00, (0x87 :: u8) = 0xFF, (0x87 :: u8) \<notin> {0x87, 0x00, 0xFF}]"
    using conjunct1 [OF spi_probe_verdicts [OF c v low high]] by blast
  then obtain ob' where "spi_probe_run ?env (Suc 2) ob = Some ob'"
    "lit (bb_hw ob') = [(0x87 :: u8) = 0x87, (0x87 :: u8) = 0x00, (0x87 :: u8) = 0xFF, (0x87 :: u8) \<notin> {0x87, 0x00, 0xFF}]"
    by blast
  moreover have "Suc 2 = 3" by simp
  ultimately show ?thesis by (intro exI [of _ ob] exI [of _ ob']) (simp del: spi_probe_run.simps)
qed

end
