(* ===== verification/Spec2Isabelle.thy ===== *)
theory Spec2Isabelle
  imports Fw_Prelude Crc16 Cobs Circular_Buffer Hal Telemetry Mcp2515 Mmio Bitbang_Spi_Lpc Rs485_Protocol
    Rs485_Lpc Pico Responder Link Clock_Config Startup App_Main Spi_Lpc Bitbang_I2c_Lpc Spi_Shift Can_Wire
    Bitbang_Spi_Rp Can_Programs Echo_Responder Spi_Rp Console Pin_Race
    Spi_Chip Chip_Wire Mcp2515_Chip Can_Closed Can_Hil Can_Bus Clock_Tree Rs485_Confined App_Run I2c_Slave I2c_Probe Spi_Probe
begin

text \<open>
  A verification development of the firmware reference project: C++ firmware for an LPC1768 board and for
  the RP2040 boards it talks to over RS-485 and CAN. Paths below are relative to \<^verbatim>\<open>src/\<close>.

  \<^bold>\<open>The program and its theories.\<close> The firmware is layered: utilities, hardware-abstraction
  interfaces, protocol drivers that are given an interface, ports that implement an interface on
  registers or SDK calls, and programs that put them together.

  \<^item> Utilities. \<open>Crc16\<close> (\<^verbatim>\<open>include/util/crc16.hpp\<close>), \<open>Cobs\<close> (\<^verbatim>\<open>src/util/cobs.cpp\<close>),
    \<open>Circular_Buffer\<close> (\<^verbatim>\<open>include/util/circular_buffer.hpp\<close>).
  \<^item> Interfaces. \<open>Hal\<close> (\<^verbatim>\<open>include/hal/*.hpp\<close>): a pure virtual class is a record of its methods over
    the state behind the reference; the contracts of its clients are locales.
  \<^item> Drivers. \<open>Telemetry\<close>, \<open>Mcp2515\<close>, \<open>Rs485_Protocol\<close> (\<^verbatim>\<open>src/drivers\<close>): each method is one definition
    over an arbitrary device record. \<open>Can_Wire\<close> adds the frames that the CAN driver shows the chip.
  \<^item> Ports of the LPC1768 (\<^verbatim>\<open>src/hal/lpc1768\<close>): \<open>Bitbang_Spi_Lpc\<close>, \<open>Spi_Lpc\<close>, \<open>Bitbang_I2c_Lpc\<close>,
    \<open>Rs485_Lpc\<close>, on the registers of \<open>Mmio\<close>. Ports of the RP2040 (\<^verbatim>\<open>rp2040\<close>): \<open>Bitbang_Spi_Rp\<close> and
    \<open>Spi_Rp\<close>, on the SDK calls of \<open>Pico\<close>. \<open>Spi_Shift\<close> has the loops that the two bit-banged SPI ports share.
  \<^item> Programs. \<open>Clock_Config\<close> (\<^verbatim>\<open>lib/clock_config.cpp\<close>), \<open>Startup\<close> (\<^verbatim>\<open>lib/startup.cpp\<close>) and \<open>App_Main\<close>
    with \<open>Console\<close> and \<open>Pin_Race\<close> (\<^verbatim>\<open>src/app/main_blinky.cpp\<close>) on the LPC1768; \<open>Responder\<close> (\<^verbatim>\<open>rp2040/protocol_responder.cpp\<close>),
    \<open>Echo_Responder\<close> (\<^verbatim>\<open>rp2040/echo_responder.cpp\<close> with \<^verbatim>\<open>tests/rs485_test.cpp\<close>) and \<open>Can_Programs\<close>
    (\<^verbatim>\<open>rp2040/can_node.cpp\<close>, \<^verbatim>\<open>rp2040/can_loopback_test.cpp\<close>) on the RP2040; \<open>Can_Hil\<close> (\<^verbatim>\<open>tests/mcp2515_loopback_test.cpp\<close>) and
    \<open>Can_Bus\<close> (\<^verbatim>\<open>tests/mcp2515_bus_test.cpp\<close>), the CAN programs of the LPC1768; \<open>I2c_Probe\<close> (\<^verbatim>\<open>tests/i2c_probe_test.cpp\<close>)
    and \<open>Spi_Probe\<close> (\<^verbatim>\<open>tests/mcp2515_probe_test.cpp\<close>, \<^verbatim>\<open>tests/spi_debug_test.cpp\<close>), its bench programs.
  \<^item> Compositions. \<open>Link\<close> connects the protocol driver on the UART port to the responder. \<open>Spi_Chip\<close> is the CAN driver
    on a port with a chip behind it, \<open>Chip_Wire\<close> wires a chip to both bit-banged ports, \<open>Mcp2515_Chip\<close> says what is
    relied on of the CAN controller, and \<open>Can_Closed\<close> with \<open>Can_Hil\<close> and \<open>Can_Bus\<close> runs the programs on it. \<open>Clock_Tree\<close>
    follows the clock set-up to the speed of the UARTs, and \<open>App_Run\<close> the application's tasks from reset through any number of
    turns, with the responder on the line and a stream of bytes on the console.

  \<^bold>\<open>How code becomes definitions.\<close> \<open>Fw_Prelude\<close> fixes the vocabulary: integers are words of their width, a
  buffer is a list whose every access is checked, and a routine whose access is out of bounds, or
  that never returns, has the value \<open>None\<close>; so a theorem that a routine returns \<open>Some\<close> is
  also its memory safety. A status code or a boolean result is a value, every early return a branch. Arrays the
  code leaves uninitialised hold arbitrary bytes, a parameter (\<open>junk\<close>). Loops over an index are recursions with
  a measure; polling loops that may run forever are partial functions with a result in \<open>option\<close>, and the
  theorems say when they return (\<open>rs485_recv_returns\<close>, \<open>spi0_transfer_returns\<close>) and when they do not
  (\<open>rs485_send_hangs\<close>, \<open>noise_blocks_receiver\<close>). No loop has artificial fuel: the
  numbers 1000, 1000000, 100000, 200 in the models are the bounds the code has. An endless loop of a program is
  one definition for its turn; a theorem about the program holds for every number of turns.

  \<^bold>\<open>The environment.\<close> On the LPC1768 the state of the hardware is the history of the register accesses
  (\<open>trace\<close>), and what a read returns is a parameter, any function of the history and the address (\<open>env\<close>);
  the RP2040 programs log their SDK calls, and what a pin reads is a parameter in the same way (\<open>pins\<close>). Where a
  theorem needs hardware of a certain kind, the kind is a definition: \<open>uart_env peer\<close> is a UART with a
  machine at the other end of the line, \<open>i2c_bus env slave\<close> a bus whose slave answers to the edges it sees (\<open>reg_slave\<close> is one with registers),
  \<open>console_free\<close> a transmitter with room, \<open>chip_env chip env\<close> and \<open>chip_pins chip pins\<close> an SPI chip on the wires. A \<open>chip\<close> is
  any function that chooses its next byte from the frames it has received and the bytes of the current one; the
  MCP2515 is not in the repository, so its documented behaviour, as the comments of \<^verbatim>\<open>mcp2515.cpp\<close> cite it, is the hypotheses
  \<open>reads_buffer\<close>, \<open>enters_mode\<close> and \<open>loops_back\<close> on chips, with a small executable chip (\<open>demo_chip\<close>) that meets them. The
  bounds in them are the code's: 1000 polls of the mode, 1000 reads of the flags. A CAN bus between two chips is \<open>carries\<close> and
  \<open>receives\<close>: what it hands over has been sent in a run of the other program (\<open>on_air\<close> of its SPI frames), perhaps late or with losses. What a slave sees is computed by observers that do not know the code: the
  bits sampled from the SPI wires (\<open>wire_run\<close>), the edges and bytes of the I2C lines (\<open>i2c_watch\<close>, \<open>wire_bytes\<close>),
  the bytes a line driver puts on the bus (\<open>port_of\<close>, \<open>bus_bytes\<close>), the clock and the divisor latches that the register writes
  set (\<open>cclk_hz\<close>, \<open>latch_baud\<close>), the bytes the console is sent (\<open>console_of\<close>) and the LEDs that are lit (\<open>lit\<close>).

  \<^bold>\<open>Contracts.\<close> \<open>spi_device\<close> (every call returns) and \<open>spi_selecting\<close> (chip select follows the calls) are what the
  CAN driver needs of a port; all four SPI ports interpret them, and by \<open>spi_transactional\<close>, a sublocale of
  each, the driver returns and leaves the chip deselected on every port. The bit-banged ports also
  never report an error (\<open>spi_infallible\<close>). \<open>bit_shifter\<close> is the body of the bit loop, \<open>spi_framed\<close> a port
  whose transactions are frames on the wire, \<open>spi_answered\<close> a port whose transactions bring a chip's answers (and, by a
  sublocale, a \<open>spi_transactional\<close> one); both bit-banged ports interpret them. \<open>rs485_line\<close> is a byte line
  with a peer, interpreted by the UART port with any machine at the other end; \<open>rs485_tracked\<close> says that the protocol driver
  keeps every relation that the port keeps, and its interpretation that the driver touches nothing but the UART and the driver
  enable and never leaves the bus driven. \<open>bounded_queue\<close> is interpreted by
  the circular buffer.

  \<^bold>\<open>What is shown.\<close>
  \<^item> Utilities: the checksum is the bit-serial CRC and detects bursts; the encoder and the decoder of COBS are
    inverse, safe on all inputs and exact about what they accept; the ring is a bounded FIFO.
  \<^item> RS-485: the sender refines stop-and-wait with three retries, and succeeds exactly if the last attempt was acknowledged; the receiver an abstract receive step, for every
    line; the responder refines an abstract responder and overruns its array exactly on oversize frames;
    driver, port and responder exchange any number of payloads, and from reset so does the application task, turn by turn, printing what
    came back. The UART
    port's loops, driver enable and divisor are characterised.
  \<^item> CAN: the frames survive the register format, and whatever the chip answers is decoded into a well-formed frame; mode changes are confirmed; a send shows
    the chip exactly its two frames over either bit-banged port, and every method returns on every port; the
    CAN node completes every number of rounds and the loopback test keeps its identifiers valid, with
    the frames and the LED of each turn. On a working controller the loopback tests of both boards pass every turn, the
    two CAN nodes report each other in exactly the rounds that find something delivered of what the other has sent, and the set-up succeeds exactly if the chip confirms the mode; but a
    node goes on reporting a peer that has fallen silent, since \<^verbatim>\<open>receive\<close> ignores the interrupt flag.
  \<^item> I2C: both operations refine a transaction on the edges of the lines, and what they report on a dead bus; the probe
    lights the right LED for a slave at any address, and the wrong one on a dead bus.
  \<^item> SPI bench programs: the probe lights the right LED for every chip and for stuck lines; the pins toggled by hand show a chip the
    driver's frames.
  \<^item> Tasks: up to 16 callers of \<^verbatim>\<open>uart_putchar\<close>, interleaved at any point, lose no byte; the two
    tasks that configure the pin-function register without a lock may lose each other's update; the echo task
    returns every byte once and in order.
  \<^item> Start-up: the clock set-up ends in one of four outcomes with the register writes of that outcome, each of which gives
    the processor clock and the speed of both UARTs, and the reset handler initialises the memory.

  \<^bold>\<open>Not modelled.\<close> FreeRTOS: a task is a sequence of its turns, and \<open>main_tasks\<close> only lists what \<^verbatim>\<open>main\<close> creates;
  the interleaving of the tasks is modelled for what they share, the console and the pin-function register. Time: delays are events without duration. The bus is not
  electrical: peers do not collide with the driver, and a port reads its peer's bytes in order; on the CAN bus, when
  a frame arrives and which one the receive buffer keeps is left open, and arbitration is not modelled. A chip on the wires is modelled in
  the SPI modes 0 and 3, which sample on the rising edge; the programs use mode 0. Left out are the BMP280
  driver and the GPIO and timer interfaces (declarations without an implementation), the mocks and unit tests, the
  remaining bench programs under \<^verbatim>\<open>tests\<close>, the vector table, and the build scripts and tools.
\<close>

end
